(* ===== verification/Prelude.thy ===== *)
theory Prelude
  imports Main "HOL-Library.Word"
begin

unbundle bit_operations_syntax

text \<open>
  Shared vocabulary of the development: the machine integers of the Rust sources, checked
  arithmetic (the workspace is built with \<^verbatim>\<open>overflow-checks = true\<close>, so an overflow panics),
  the result type with its three outcomes, the state-passing form of methods that take
  \<^verbatim>\<open>&mut self\<close>, and the generic facts about lists and words that the component theories use.
\<close>

section \<open>Machine integers\<close>

type_synonym u8 = "8 word"
type_synonym u16 = "16 word"
type_synonym u64 = "64 word"
type_synonym u128 = "128 word"

text \<open>
  A \<^verbatim>\<open>HashValue\<close> and an \<^verbatim>\<open>AccountAddress\<close> are arrays of 32 bytes; they are read as big-endian
  numbers, which agrees with the lexicographic order Rust derives for them.
\<close>

type_synonym hash_value = "256 word"
type_synonym account_address = "256 word"
type_synonym author = account_address
type_synonym round = u64
type_synonym version = u64

named_theorems checked_simps \<open>equations and inversion rules of the checked operations\<close>
named_theorems res_simps \<open>inversion rules of the result combinators\<close>

definition checked_add :: "'a::len word \<Rightarrow> 'a word \<Rightarrow> 'a word option" where
  "checked_add a b = (if unat a + unat b < 2 ^ LENGTH('a) then Some (a + b) else None)"

definition checked_sub :: "'a::len word \<Rightarrow> 'a word \<Rightarrow> 'a word option" where
  "checked_sub a b = (if b \<le> a then Some (a - b) else None)"

definition checked_mul :: "'a::len word \<Rightarrow> 'a word \<Rightarrow> 'a word option" where
  "checked_mul a b = (if unat a * unat b < 2 ^ LENGTH('a) then Some (a * b) else None)"

definition saturating_add :: "'a::len word \<Rightarrow> 'a word \<Rightarrow> 'a word" where
  "saturating_add a b = (case checked_add a b of None \<Rightarrow> - 1 | Some c \<Rightarrow> c)"

definition saturating_sub :: "'a::len word \<Rightarrow> 'a word \<Rightarrow> 'a word" where
  "saturating_sub a b = (if b \<le> a then a - b else 0)"

section \<open>Outcomes\<close>

text \<open>
  A call returns a value, returns an error, or panics. A panic is kept apart from an error: the
  caller cannot handle it.
\<close>

datatype ('e, 'a) res = Ok 'a | Err 'e | Panic

fun is_ok :: "('e, 'a) res \<Rightarrow> bool" where
  "is_ok (Ok _) = True"
| "is_ok _ = False"

fun bind :: "('e, 'a) res \<Rightarrow> ('a \<Rightarrow> ('e, 'b) res) \<Rightarrow> ('e, 'b) res" where
  "bind (Ok a) f = f a"
| "bind (Err e) f = Err e"
| "bind Panic f = Panic"

fun map_err :: "('e \<Rightarrow> 'f) \<Rightarrow> ('e, 'a) res \<Rightarrow> ('f, 'a) res" where
  "map_err g (Ok a) = Ok a"
| "map_err g (Err e) = Err (g e)"
| "map_err g Panic = Panic"

definition ensure :: "bool \<Rightarrow> 'e \<Rightarrow> ('e, unit) res" where
  "ensure b e = (if b then Ok () else Err e)"

definition assert :: "bool \<Rightarrow> ('e, unit) res" where
  "assert b = (if b then Ok () else Panic)"

definition ok_or :: "'e \<Rightarrow> 'a option \<Rightarrow> ('e, 'a) res" where
  "ok_or e x = (case x of None \<Rightarrow> Err e | Some a \<Rightarrow> Ok a)"

definition unwrap :: "'a option \<Rightarrow> ('e, 'a) res" where
  "unwrap x = (case x of None \<Rightarrow> Panic | Some a \<Rightarrow> Ok a)"

text \<open>The left-to-right fold of a fallible step over an iterator.\<close>

fun try_fold :: "('b \<Rightarrow> 'a \<Rightarrow> ('e, 'b) res) \<Rightarrow> 'b \<Rightarrow> 'a list \<Rightarrow> ('e, 'b) res" where
  "try_fold f b [] = Ok b"
| "try_fold f b (x # xs) = bind (f b x) (\<lambda>b'. try_fold f b' xs)"

text \<open>Collecting the results of a fallible step, stopping at the first failure.\<close>

fun try_map :: "('a \<Rightarrow> ('e, 'b) res) \<Rightarrow> 'a list \<Rightarrow> ('e, 'b list) res" where
  "try_map f [] = Ok []"
| "try_map f (x # xs) = bind (f x) (\<lambda>y. bind (try_map f xs) (\<lambda>ys. Ok (y # ys)))"

text \<open>\<^verbatim>\<open>slice::get\<close>.\<close>

definition nth_opt :: "'a list \<Rightarrow> nat \<Rightarrow> 'a option" where
  "nth_opt xs i = (if i < length xs then Some (xs ! i) else None)"

section \<open>Ordered maps\<close>

text \<open>
  A \<^verbatim>\<open>BTreeMap\<close> is the list of its entries in the order of the keys, which is the order its
  iterators have; lookup is \<^const>\<open>map_of\<close>.
\<close>

fun btree_insert :: "'k::linorder \<Rightarrow> 'v \<Rightarrow> ('k \<times> 'v) list \<Rightarrow> ('k \<times> 'v) list" where
  "btree_insert k v [] = [(k, v)]"
| "btree_insert k v ((k', v') # m) =
     (if k < k' then (k, v) # (k', v') # m
      else if k = k' then (k, v) # m
      else (k', v') # btree_insert k v m)"

definition btree_remove :: "'k \<Rightarrow> ('k \<times> 'v) list \<Rightarrow> ('k \<times> 'v) list" where
  "btree_remove k m = filter (\<lambda>(k', _). k' \<noteq> k) m"

definition btree_collect :: "('k::linorder \<times> 'v) list \<Rightarrow> ('k \<times> 'v) list" where
  "btree_collect es = foldl (\<lambda>m (k, v). btree_insert k v m) [] es"

definition contains_key :: "'k \<Rightarrow> ('k \<times> 'v) list \<Rightarrow> bool" where
  "contains_key k m \<longleftrightarrow> map_of m k \<noteq> None"

definition wf_btree :: "('k::linorder \<times> 'v) list \<Rightarrow> bool" where
  "wf_btree m \<longleftrightarrow> sorted_wrt (<) (map fst m)"

section \<open>Methods that mutate their receiver\<close>

text \<open>
  The state is returned on every outcome: an error returned after a field has been written
  leaves the write in place, as in the source.
\<close>

type_synonym ('s, 'e, 'a) method_res = "'s \<Rightarrow> ('e, 'a) res \<times> 's"

definition m_return :: "'a \<Rightarrow> ('s, 'e, 'a) method_res" where
  "m_return a s = (Ok a, s)"

definition m_lift :: "('e, 'a) res \<Rightarrow> ('s, 'e, 'a) method_res" where
  "m_lift r s = (r, s)"

definition m_read :: "('s \<Rightarrow> ('e, 'a) res) \<Rightarrow> ('s, 'e, 'a) method_res" where
  "m_read f s = (f s, s)"

definition m_modify :: "('s \<Rightarrow> 's) \<Rightarrow> ('s, 'e, unit) method_res" where
  "m_modify f s = (Ok (), f s)"

definition m_bind ::
    "('s, 'e, 'a) method_res \<Rightarrow> ('a \<Rightarrow> ('s, 'e, 'b) method_res) \<Rightarrow> ('s, 'e, 'b) method_res" where
  "m_bind m f s =
     (case m s of
        (Ok a, s') \<Rightarrow> f a s'
      | (Err e, s') \<Rightarrow> (Err e, s')
      | (Panic, s') \<Rightarrow> (Panic, s'))"

definition m_if :: "bool \<Rightarrow> ('s, 'e, unit) method_res \<Rightarrow> ('s, 'e, unit) method_res" where
  "m_if b m = (if b then m else m_return ())"

section \<open>Rules of the checked operations\<close>

lemma checked_add_Some [checked_simps]:
  fixes a b c :: "'a::len word"
  shows "checked_add a b = Some c \<longleftrightarrow> unat a + unat b < 2 ^ LENGTH('a) \<and> c = a + b"
  by (auto simp: checked_add_def)

lemma checked_add_None [checked_simps]:
  fixes a b :: "'a::len word"
  shows "checked_add a b = None \<longleftrightarrow> 2 ^ LENGTH('a) \<le> unat a + unat b"
  by (auto simp: checked_add_def)

lemma unat_checked_add:
  fixes a b c :: "'a::len word"
  shows "checked_add a b = Some c \<Longrightarrow> unat c = unat a + unat b"
  by (auto simp: checked_add_Some unat_word_ariths)

lemma checked_sub_Some [checked_simps]:
  fixes a b c :: "'a::len word"
  shows "checked_sub a b = Some c \<longleftrightarrow> b \<le> a \<and> c = a - b"
  by (auto simp: checked_sub_def)

lemma unat_checked_sub:
  fixes a b c :: "'a::len word"
  shows "checked_sub a b = Some c \<Longrightarrow> unat c = unat a - unat b"
  by (auto simp: checked_sub_Some unat_sub)

lemma unat_checked_mul:
  fixes a b c :: "'a::len word"
  shows "checked_mul a b = Some c \<Longrightarrow> unat c = unat a * unat b"
  by (auto simp: checked_mul_def unat_word_ariths split: if_splits)

text \<open>Evaluation of the overflow tests goes through the integers, whose numerals are binary.\<close>

lemma checked_add_code [code]:
  "checked_add (a :: 'a::len word) b =
     (if uint a + uint b < 2 ^ LENGTH('a) then Some (a + b) else None)"
proof -
  have "unat a + unat b < 2 ^ LENGTH('a) \<longleftrightarrow> int (unat a + unat b) < int (2 ^ LENGTH('a))"
    by (simp only: of_nat_less_iff)
  then show ?thesis by (simp add: checked_add_def)
qed

lemma checked_mul_code [code]:
  "checked_mul (a :: 'a::len word) b =
     (if uint a * uint b < 2 ^ LENGTH('a) then Some (a * b) else None)"
proof -
  have "unat a * unat b < 2 ^ LENGTH('a) \<longleftrightarrow> int (unat a * unat b) < int (2 ^ LENGTH('a))"
    by (simp only: of_nat_less_iff)
  then show ?thesis by (simp add: checked_mul_def)
qed

lemma unat_saturating_add:
  fixes a b :: "'a::len word"
  shows "unat (saturating_add a b) = min (unat a + unat b) (2 ^ LENGTH('a) - 1)"
  by (auto simp: saturating_add_def checked_add_def unat_word_ariths
      unsigned_minus_1_eq_mask mask_eq_exp_minus_1)

section \<open>Rules of the result combinators\<close>

lemma bind_Ok [res_simps]: "bind r f = Ok b \<longleftrightarrow> (\<exists>a. r = Ok a \<and> f a = Ok b)"
  by (cases r) auto

lemma bind_Err [res_simps]: "bind r f = Err e \<longleftrightarrow> r = Err e \<or> (\<exists>a. r = Ok a \<and> f a = Err e)"
  by (cases r) auto

lemma bind_Panic [res_simps]: "bind r f = Panic \<longleftrightarrow> r = Panic \<or> (\<exists>a. r = Ok a \<and> f a = Panic)"
  by (cases r) auto

lemma map_err_Ok [res_simps]: "map_err g r = Ok a \<longleftrightarrow> r = Ok a"
  by (cases r) auto

lemma map_err_Panic [res_simps]: "map_err g r = Panic \<longleftrightarrow> r = Panic"
  by (cases r) auto

lemma ensure_iffs [res_simps]:
  "ensure b e = Ok u \<longleftrightarrow> b"
  "ensure b e = Err e' \<longleftrightarrow> \<not> b \<and> e' = e"
  "ensure b e \<noteq> Panic"
  by (auto simp: ensure_def)

lemma assert_iffs [res_simps]:
  "assert b = Ok u \<longleftrightarrow> b"
  "assert b \<noteq> Err e"
  "assert b = Panic \<longleftrightarrow> \<not> b"
  by (auto simp: assert_def)

lemma ok_or_iffs [res_simps]:
  "ok_or e x = Ok a \<longleftrightarrow> x = Some a"
  "ok_or e x = Err e' \<longleftrightarrow> x = None \<and> e' = e"
  "ok_or e x \<noteq> Panic"
  by (auto simp: ok_or_def split: option.splits)

lemma unwrap_iffs [res_simps]:
  "unwrap x = Ok a \<longleftrightarrow> x = Some a"
  "unwrap x \<noteq> Err e"
  "unwrap x = Panic \<longleftrightarrow> x = None"
  by (auto simp: unwrap_def split: option.splits)

lemma is_ok_iff: "is_ok r \<longleftrightarrow> (\<exists>a. r = Ok a)"
  by (cases r) auto

lemma try_fold_append:
  "try_fold f b (xs @ ys) = bind (try_fold f b xs) (\<lambda>b'. try_fold f b' ys)"
proof (induction xs arbitrary: b)
  case (Cons x xs)
  then show ?case by (cases "f b x") simp_all
qed simp

lemma try_fold_Ok_invariant:
  assumes "try_fold f b xs = Ok b'" "P b"
    and "\<And>c x c'. x \<in> set xs \<Longrightarrow> P c \<Longrightarrow> f c x = Ok c' \<Longrightarrow> P c'"
  shows "P b'"
  using assms
proof (induction xs arbitrary: b)
  case (Cons x xs)
  from Cons.prems(1) obtain c where c: "f b x = Ok c" "try_fold f c xs = Ok b'"
    by (auto simp: bind_Ok)
  then have "P c" using Cons.prems by auto
  with c Cons show ?case by auto
qed simp

lemma try_map_Ok [res_simps]:
  "try_map f xs = Ok ys \<longleftrightarrow> list_all2 (\<lambda>x y. f x = Ok y) xs ys"
  by (induction xs arbitrary: ys) (auto simp: bind_Ok list_all2_Cons1)

lemma try_map_Err:
  "try_map f xs = Err e \<Longrightarrow> \<exists>x \<in> set xs. f x = Err e"
  by (induction xs) (auto simp: bind_Err)

lemma try_map_Panic:
  "try_map f xs = Panic \<Longrightarrow> \<exists>x \<in> set xs. f x = Panic"
  by (induction xs) (auto simp: bind_Panic)

lemma try_map_all_Ok:
  "(\<And>x. x \<in> set xs \<Longrightarrow> f x = Ok (g x)) \<Longrightarrow> try_map f xs = Ok (map g xs)"
  by (induction xs) auto

lemma nth_opt_iffs [res_simps]:
  "nth_opt xs i = Some x \<longleftrightarrow> i < length xs \<and> x = xs ! i"
  "nth_opt xs i = None \<longleftrightarrow> length xs \<le> i"
  by (auto simp: nth_opt_def)

lemma map_of_btree_insert [simp]: "map_of (btree_insert k v m) = (map_of m)(k \<mapsto> v)"
  by (induction k v m rule: btree_insert.induct) (auto simp: fun_eq_iff)

lemma btree_insert_twice [simp]: "btree_insert k v (btree_insert k w m) = btree_insert k v m"
  by (induction k w m rule: btree_insert.induct) auto

lemma keys_btree_insert [simp]: "fst ` set (btree_insert k v m) = insert k (fst ` set m)"
  by (induction k v m rule: btree_insert.induct) auto

lemma wf_btree_insert: "wf_btree m \<Longrightarrow> wf_btree (btree_insert k v m)"
proof (induction k v m rule: btree_insert.induct)
  case (2 k v k' v' m)
  have "\<forall>x \<in> fst ` set (btree_insert k v m). k' < x" if "k' < k"
    using 2(2) that by (auto simp: wf_btree_def)
  with 2 show ?case by (auto simp: wf_btree_def)
qed (simp add: wf_btree_def)

lemma map_of_btree_remove [simp]: "map_of (btree_remove k m) = (map_of m)(k := None)"
  by (induction m) (auto simp: btree_remove_def fun_eq_iff)

lemma wf_btree_remove: "wf_btree m \<Longrightarrow> wf_btree (btree_remove k m)"
  by (induction m) (auto simp: wf_btree_def btree_remove_def)

lemma wf_btree_Nil [simp]: "wf_btree []"
  by (simp add: wf_btree_def)

lemma wf_btree_collect: "wf_btree (btree_collect es)"
proof -
  have "wf_btree m \<Longrightarrow> wf_btree (foldl (\<lambda>m (k, v). btree_insert k v m) m es)" for m
    by (induction es arbitrary: m) (auto intro: wf_btree_insert)
  then show ?thesis by (simp add: btree_collect_def)
qed

lemma map_of_btree_collect: "map_of (btree_collect es) = map_of (rev es)"
proof -
  have "map_of (foldl (\<lambda>m (k, v). btree_insert k v m) m es) = map_of m ++ map_of (rev es)" for m
    by (induction es arbitrary: m) (auto simp: fun_eq_iff map_add_def split: option.splits)
  then show ?thesis by (simp add: btree_collect_def)
qed

lemma wf_btree_distinct: "wf_btree m \<Longrightarrow> distinct (map fst m)"
  by (simp add: wf_btree_def strict_sorted_iff)

lemma wf_btree_map_of: "wf_btree m \<Longrightarrow> map_of m k = Some v \<longleftrightarrow> (k, v) \<in> set m"
  using wf_btree_distinct by (metis map_of_eq_Some_iff)

lemma set_btree_collect_distinct:
  assumes "distinct (map fst es)"
  shows "set (btree_collect es) = set es"
proof -
  have "distinct (map fst (rev es))" using assms by (metis distinct_rev rev_map)
  then have "(k, v) \<in> set (btree_collect es) \<longleftrightarrow> (k, v) \<in> set es" for k v
    by (simp flip: wf_btree_map_of [OF wf_btree_collect]
        add: map_of_btree_collect map_of_eq_Some_iff)
  then show ?thesis by auto
qed

lemma wf_btree_unique:
  assumes "wf_btree m" "wf_btree m'" "set m = set m'"
  shows "m = m'"
proof (rule map_sorted_distinct_set_unique [of fst])
  show "inj_on fst (set m \<union> set m')"
    using assms wf_btree_distinct by (auto simp: distinct_map)
qed (use assms in \<open>auto simp: wf_btree_def strict_sorted_iff\<close>)

lemma btree_collect_wf: "wf_btree es \<Longrightarrow> btree_collect es = es"
  by (rule wf_btree_unique) (simp_all add: wf_btree_collect wf_btree_distinct set_btree_collect_distinct)

lemma m_bind_Ok [res_simps]:
  "m_bind m f s = (Ok b, s'') \<longleftrightarrow> (\<exists>a s'. m s = (Ok a, s') \<and> f a s' = (Ok b, s''))"
  by (auto simp: m_bind_def split: prod.splits res.splits)

lemma m_bind_eval:
  "m s = (Ok a, s') \<Longrightarrow> m_bind m f s = f a s'"
  "m s = (Err e, s') \<Longrightarrow> m_bind m f s = (Err e, s')"
  "m s = (Panic, s') \<Longrightarrow> m_bind m f s = (Panic, s')"
  by (simp_all add: m_bind_def)

lemma m_prims_Ok [res_simps]:
  "m_return a s = (Ok b, s') \<longleftrightarrow> b = a \<and> s' = s"
  "m_lift r s = (r', s') \<longleftrightarrow> r = r' \<and> s' = s"
  "m_read g s = (r', s') \<longleftrightarrow> g s = r' \<and> s' = s"
  "m_modify h s = (Ok u, s') \<longleftrightarrow> s' = h s"
  by (auto simp: m_return_def m_lift_def m_read_def m_modify_def)

lemma m_if_Ok [res_simps]:
  "m_if b m s = (Ok u, s') \<longleftrightarrow> (if b then m s = (Ok u, s') else s' = s)"
  by (auto simp: m_if_def m_return_def)

text \<open>
  What holds of the state after a method, whatever its outcome, when every primitive step of the
  method keeps it.
\<close>

definition preserves :: "('s \<Rightarrow> 's \<Rightarrow> bool) \<Rightarrow> ('s, 'e, 'a) method_res \<Rightarrow> bool" where
  "preserves R m \<longleftrightarrow> (\<forall>s. R s (snd (m s)))"

lemma preserves_prims [intro]:
  assumes "reflp R"
  shows "preserves R (m_return a)" "preserves R (m_lift r)" "preserves R (m_read f)"
  using assms by (auto simp: preserves_def m_return_def m_lift_def m_read_def reflp_def)

lemma preserves_bind:
  assumes R: "transp R" and m: "preserves R m" and f: "\<And>a. preserves R (f a)"
  shows "preserves R (m_bind m f)"
  unfolding preserves_def
proof
  fix s
  obtain r s' where ms: "m s = (r, s')" by fastforce
  from m ms have 1: "R s s'" unfolding preserves_def by (metis snd_conv)
  show "R s (snd (m_bind m f s))"
  proof (cases r)
    case (Ok a)
    from f have "R s' (snd (f a s'))" unfolding preserves_def by blast
    with 1 R have "R s (snd (f a s'))" by (auto elim: transpE)
    with Ok ms show ?thesis by (simp add: m_bind_eval)
  qed (use 1 ms in \<open>simp_all add: m_bind_eval\<close>)
qed

text \<open>Reads compose.\<close>

lemma m_read_simps:
  "m_bind (m_read f) (\<lambda>a. m_read (g a)) = m_read (\<lambda>s. bind (f s) (\<lambda>a. g a s))"
  "m_lift x = m_read (\<lambda>_. x)"
  "m_return a = m_read (\<lambda>_. Ok a)"
  by (auto simp: m_bind_def m_read_def m_lift_def m_return_def fun_eq_iff split: res.splits)

lemma m_bind_cases:
  assumes "m_bind m f s = (r, s')"
  obtains (fail) r0 where "m s = (r0, s')" "\<not> is_ok r0" "\<not> is_ok r"
  | (ok) a s1 where "m s = (Ok a, s1)" "f a s1 = (r, s')"
  using assms by (cases "m s"; cases "fst (m s)") (auto simp: m_bind_def)

section \<open>Lists and words\<close>

lemma unat_max: "unat (max a b) = max (unat a) (unat b)" for a b :: "'a::len word"
  by (simp add: max_def word_le_nat_alt)

lemma unat_less_iff_word: "(a::'a::len word) < b \<longleftrightarrow> unat a < unat b"
  by (rule word_less_nat_alt)

lemma unat_le_iff_word: "(a::'a::len word) \<le> b \<longleftrightarrow> unat a \<le> unat b"
  by (rule word_le_nat_alt)

lemma unat_ucast_u128 [simp]: "unat (ucast (w :: u64) :: u128) = unat w"
proof -
  have "unat w < 2 ^ 128"
    by (rule less_trans [OF unsigned_less]) simp
  then show ?thesis by (simp add: unsigned_ucast_eq take_bit_nat_eq_self)
qed

lemma sum_list_map_filter_le: "sum_list (map f (filter P xs)) \<le> sum_list (map f xs)"
  for f :: "'a \<Rightarrow> nat"
  by (induction xs) auto

lemma sum_list_distinct_subset_le:
  fixes f :: "'a \<Rightarrow> nat"
  assumes "distinct xs" "set xs \<subseteq> set ys"
  shows "sum_list (map f xs) \<le> sum_list (map f ys)"
proof -
  have "sum_list (map f xs) = sum f (set xs)"
    using assms(1) by (rule sum_list_distinct_conv_sum_set)
  also have "\<dots> \<le> sum f (set ys)"
    using assms(2) by (simp add: sum_mono2)
  also have "\<dots> \<le> sum_list (map f ys)"
    by (induction ys) (auto simp: sum.insert_if)
  finally show ?thesis .
qed

end
