(* ===== verification/Bit_Vec.thy ===== *)
theory Bit_Vec
  imports Prelude
begin

unbundle bit_operations_syntax

text \<open>
  The bit vector of \<^verbatim>\<open>crates/creditchain-bitvec/src/lib.rs\<close>, which records the signers of an
  aggregate signature: buckets of eight bits, the most significant bit of a byte first. The
  abstraction \<open>positions\<close> is the set of set positions; the operations are shown to act on it as
  set operations, and the facts the certificate code relies on are collected in the locale
  \<open>signer_mask\<close>.
\<close>

section \<open>Model\<close>

definition BUCKET_SIZE :: nat where "BUCKET_SIZE = 8"
definition MAX_BUCKETS :: nat where "MAX_BUCKETS = 8192"

record bit_vec =
  inner :: "u8 list"

definition bv_default :: bit_vec where
  "bv_default = \<lparr>inner = []\<rparr>"

definition required_buckets :: "u16 \<Rightarrow> nat" where
  "required_buckets num_bits =
     (case checked_sub num_bits 1 of None \<Rightarrow> 0 | Some pos \<Rightarrow> unat pos div BUCKET_SIZE + 1)"

definition with_num_bits :: "u16 \<Rightarrow> bit_vec" where
  "with_num_bits num_bits = \<lparr>inner = replicate (required_buckets num_bits) 0\<rparr>"

text \<open>The mask \<^verbatim>\<open>0b1000_0000 >> bucket_pos\<close>.\<close>

definition bit_mask :: "nat \<Rightarrow> u8" where
  "bit_mask bucket_pos = drop_bit bucket_pos 128"

definition bv_set :: "bit_vec \<Rightarrow> u16 \<Rightarrow> bit_vec" where
  "bv_set bv pos =
     (let bucket = unat pos div BUCKET_SIZE;
          bytes = (if length (inner bv) \<le> bucket
                   then inner bv @ replicate (bucket + 1 - length (inner bv)) 0
                   else inner bv);
          bucket_pos = unat pos - bucket * BUCKET_SIZE
      in \<lparr>inner = bytes[bucket := bytes ! bucket OR bit_mask bucket_pos]\<rparr>)"

definition is_set :: "bit_vec \<Rightarrow> u16 \<Rightarrow> bool" where
  "is_set bv pos =
     (let bucket = unat pos div BUCKET_SIZE in
      if length (inner bv) \<le> bucket then False
      else let bucket_pos = unat pos - bucket * BUCKET_SIZE
           in inner bv ! bucket AND bit_mask bucket_pos \<noteq> 0)"

definition all_zeros :: "bit_vec \<Rightarrow> bool" where
  "all_zeros bv = list_all (\<lambda>byte. byte = 0) (inner bv)"

text \<open>The intrinsics \<^verbatim>\<open>u8::count_ones\<close> and \<^verbatim>\<open>u8::trailing_zeros\<close>.\<close>

definition byte_count_ones :: "u8 \<Rightarrow> nat" where
  "byte_count_ones byte = length (filter (bit byte) [0..<8])"

definition byte_trailing_zeros :: "u8 \<Rightarrow> nat" where
  "byte_trailing_zeros byte = length (takeWhile (\<lambda>i. \<not> bit byte i) [0..<8])"

definition count_ones :: "bit_vec \<Rightarrow> nat" where
  "count_ones bv = sum_list (map byte_count_ones (inner bv))"

definition last_set_bit :: "bit_vec \<Rightarrow> u16 option" where
  "last_set_bit bv =
     map_option
       (\<lambda>(i, byte). word_of_nat (8 * (length (inner bv) - i) - byte_trailing_zeros byte - 1))
       (find (\<lambda>(i, byte). byte \<noteq> 0) (enumerate 0 (rev (inner bv))))"

definition iter_ones :: "bit_vec \<Rightarrow> nat list" where
  "iter_ones bv = filter (\<lambda>idx. is_set bv (word_of_nat idx)) [0..<length (inner bv) * BUCKET_SIZE]"

definition num_buckets :: "bit_vec \<Rightarrow> nat" where
  "num_buckets bv = length (inner bv)"

definition bitand :: "bit_vec \<Rightarrow> bit_vec \<Rightarrow> bit_vec" where
  "bitand a b =
     (let len = min (length (inner a)) (length (inner b))
      in \<lparr>inner = map (\<lambda>i. inner a ! i AND inner b ! i) [0..<len]\<rparr>)"

definition byte_at :: "bit_vec \<Rightarrow> nat \<Rightarrow> u8" where
  "byte_at bv i = (if i < length (inner bv) then inner bv ! i else 0)"

definition bitor :: "bit_vec \<Rightarrow> bit_vec \<Rightarrow> bit_vec" where
  "bitor a b =
     (let len = max (length (inner a)) (length (inner b))
      in \<lparr>inner = map (\<lambda>i. byte_at a i OR byte_at b i) [0..<len]\<rparr>)"

definition bv_from_positions :: "u8 list \<Rightarrow> bit_vec" where
  "bv_from_positions ps = foldl (\<lambda>bv b. bv_set bv (ucast b)) bv_default ps"

definition bv_from_bytes :: "u8 list \<Rightarrow> (string, bit_vec) res" where
  "bv_from_bytes raw_bytes =
     bind (assert (length raw_bytes \<le> MAX_BUCKETS)) (\<lambda>_. Ok \<lparr>inner = raw_bytes\<rparr>)"

definition bv_from_bools :: "bool list \<Rightarrow> (string, bit_vec) res" where
  "bv_from_bools bits =
     bind (assert (length bits \<le> MAX_BUCKETS * BUCKET_SIZE)) (\<lambda>_.
       Ok (foldl (\<lambda>bv (index, b). if b then bv_set bv (word_of_nat index) else bv)
             (with_num_bits (word_of_nat (length bits))) (enumerate 0 bits)))"

definition bv_from_bool_iter :: "bool list \<Rightarrow> bit_vec" where
  "bv_from_bool_iter bits =
     foldl (\<lambda>bv (index, b). if b then bv_set bv (word_of_nat index) else bv)
       bv_default (enumerate 0 bits)"

definition bv_deserialize :: "u8 list \<Rightarrow> (string, bit_vec) res" where
  "bv_deserialize v =
     (if length v > MAX_BUCKETS then Err ''BitVec too long'' else Ok \<lparr>inner = v\<rparr>)"

section \<open>The positions of a bit vector\<close>

definition positions :: "bit_vec \<Rightarrow> nat set" where
  "positions bv =
     {i. i < 8 * length (inner bv) \<and> bit (inner bv ! (i div 8)) (7 - i mod 8)}"

definition wf_bv :: "bit_vec \<Rightarrow> bool" where
  "wf_bv bv \<longleftrightarrow> length (inner bv) \<le> MAX_BUCKETS"

text \<open>The byte a position falls in, and the bit of that byte.\<close>

lemma bit_mask_eq: "k < 8 \<Longrightarrow> bit_mask k = 2 ^ (7 - k)"
proof -
  assume "k < 8"
  then have "k \<in> {0, 1, 2, 3, 4, 5, 6, 7}" by auto
  then show ?thesis by (auto simp: bit_mask_def drop_bit_eq_div)
qed

lemma and_bit_mask: "k < 8 \<Longrightarrow> byte AND bit_mask k \<noteq> 0 \<longleftrightarrow> bit byte (7 - k)"
  by (simp add: bit_mask_eq and_exp_eq_0_iff_not_bit)

lemma bit_or_bit_mask: "k < 8 \<Longrightarrow> bit (byte OR bit_mask k) n \<longleftrightarrow> bit byte n \<or> n = 7 - k"
  by (auto simp: bit_mask_eq bit_or_iff bit_exp_iff)

lemma bucket_pos_mod: "p - p div 8 * 8 = p mod (8::nat)"
  by (simp add: modulo_nat_def)

lemma div8_less_iff: "i div 8 < n \<longleftrightarrow> i < 8 * (n::nat)"
  by (simp add: div_less_iff_less_mult mult.commute)

lemma is_set_iff: "is_set bv p \<longleftrightarrow> unat p \<in> positions bv"
proof (cases "unat p div 8 < length (inner bv)")
  case True
  then have "unat p < 8 * length (inner bv)" by (simp only: div8_less_iff)
  with True show ?thesis
    by (simp add: is_set_def positions_def BUCKET_SIZE_def Let_def bucket_pos_mod and_bit_mask)
next
  case False
  then have "\<not> unat p < 8 * length (inner bv)" by (simp only: div8_less_iff not_False_eq_True)
  with False show ?thesis by (simp add: is_set_def positions_def BUCKET_SIZE_def Let_def)
qed

lemma positions_bound: "wf_bv bv \<Longrightarrow> i \<in> positions bv \<Longrightarrow> i < 65536"
  by (auto simp: positions_def wf_bv_def MAX_BUCKETS_def)

lemma is_set_of_nat:
  "wf_bv bv \<Longrightarrow> i < 8 * length (inner bv) \<Longrightarrow> is_set bv (word_of_nat i) \<longleftrightarrow> i \<in> positions bv"
  by (simp add: is_set_iff unat_of_nat wf_bv_def MAX_BUCKETS_def)

lemma finite_positions [simp]: "finite (positions bv)"
  by (rule finite_subset [of _ "{..<8 * length (inner bv)}"]) (auto simp: positions_def)

lemma positions_default [simp]: "positions bv_default = {}"
  by (simp add: positions_def bv_default_def)

lemma positions_with_num_bits [simp]: "positions (with_num_bits n) = {}"
  by (auto simp: positions_def with_num_bits_def)

text \<open>Setting a position, on the bytes after the vector has been grown.\<close>

definition grown :: "u8 list \<Rightarrow> nat \<Rightarrow> u8 list" where
  "grown bytes bucket =
     (if length bytes \<le> bucket then bytes @ replicate (bucket + 1 - length bytes) 0 else bytes)"

lemma grown_facts:
  "bucket < length (grown bytes bucket)"
  "length (grown bytes bucket) = max (length bytes) (bucket + 1)"
  "j < length (grown bytes bucket) \<Longrightarrow> grown bytes bucket ! j = (if j < length bytes then bytes ! j else 0)"
  by (auto simp: grown_def nth_append)

lemma inner_bv_set:
  "inner (bv_set bv p) =
     (grown (inner bv) (unat p div 8))
       [unat p div 8 := grown (inner bv) (unat p div 8) ! (unat p div 8) OR bit_mask (unat p mod 8)]"
  by (simp add: bv_set_def BUCKET_SIZE_def Let_def grown_def bucket_pos_mod)

lemma length_bv_set: "length (inner (bv_set bv p)) = max (length (inner bv)) (unat p div 8 + 1)"
  by (simp add: inner_bv_set grown_facts)

lemma same_bit_iff:
  assumes "i div 8 = p div 8"
  shows "7 - i mod 8 = 7 - p mod (8::nat) \<longleftrightarrow> i = p"
proof
  assume "7 - i mod 8 = 7 - p mod 8"
  moreover have "i mod 8 < 8" "p mod 8 < 8" by simp_all
  ultimately have "i mod 8 = p mod 8" by linarith
  with assms show "i = p" by (metis div_mult_mod_eq)
qed simp

lemma positions_bv_set: "positions (bv_set bv p) = insert (unat p) (positions bv)"
proof (rule set_eqI)
  fix i
  let ?b = "unat p div 8"
  let ?g = "grown (inner bv) ?b"
  have byte: "inner (bv_set bv p) ! (i div 8) =
      (if i div 8 = ?b then ?g ! ?b OR bit_mask (unat p mod 8) else ?g ! (i div 8))"
    if "i div 8 < length ?g"
    using that by (simp add: inner_bv_set nth_list_update)
  have len: "i < 8 * length (inner (bv_set bv p)) \<longleftrightarrow> i div 8 < length ?g"
    by (simp add: inner_bv_set div8_less_iff)
  show "i \<in> positions (bv_set bv p) \<longleftrightarrow> i \<in> insert (unat p) (positions bv)"
  proof (cases "i div 8 < length ?g")
    case True
    then show ?thesis
      using byte len grown_facts(3) [of "i div 8" "inner bv" ?b]
      by (auto simp: positions_def bit_or_bit_mask same_bit_iff div8_less_iff
          split: if_splits)
  next
    case False
    then have "i \<noteq> unat p" and "\<not> i div 8 < length (inner bv)"
      using grown_facts(1,2) [where bucket = ?b and bytes = "inner bv"] by auto
    with False len show ?thesis
      by (auto simp: positions_def div8_less_iff)
  qed
qed

lemma wf_bv_set: "wf_bv bv \<Longrightarrow> wf_bv (bv_set bv p)"
proof -
  assume wf: "wf_bv bv"
  have "unat p < 65536" using unsigned_less [of p, where ?'a = nat] by simp
  then have "unat p div 8 + 1 \<le> 8192" by linarith
  with wf show ?thesis by (simp add: wf_bv_def length_bv_set MAX_BUCKETS_def)
qed

section \<open>Counting and enumerating the positions\<close>

lemma set_iter_ones: "wf_bv bv \<Longrightarrow> set (iter_ones bv) = positions bv"
proof -
  assume wf: "wf_bv bv"
  have "set (iter_ones bv) = {i. i < 8 * length (inner bv) \<and> is_set bv (word_of_nat i)}"
    by (auto simp: iter_ones_def BUCKET_SIZE_def)
  also have "\<dots> = {i. i < 8 * length (inner bv) \<and> i \<in> positions bv}"
    using is_set_of_nat [OF wf] by blast
  also have "\<dots> = positions bv"
    by (auto simp: positions_def)
  finally show ?thesis .
qed

lemma iter_ones_sorted: "sorted_wrt (<) (iter_ones bv)"
  by (simp add: iter_ones_def sorted_wrt_filter)

lemma iter_ones_distinct: "distinct (iter_ones bv)"
  by (simp add: iter_ones_def)

lemma positions_snoc:
  "positions \<lparr>inner = xs @ [x]\<rparr> =
     positions \<lparr>inner = xs\<rparr> \<union> (\<lambda>j. 8 * length xs + (7 - j)) ` {j. j < 8 \<and> bit x j}"
  (is "?l = ?r \<union> ?f ` ?new")
proof (rule set_eqI)
  fix i
  have new: "i \<in> ?f ` ?new \<longleftrightarrow> 8 * length xs \<le> i \<and> i < 8 * length xs + 8 \<and> bit x (7 - (i - 8 * length xs))"
  proof
    assume "8 * length xs \<le> i \<and> i < 8 * length xs + 8 \<and> bit x (7 - (i - 8 * length xs))"
    moreover from this have "i = ?f (7 - (i - 8 * length xs))" by linarith
    ultimately show "i \<in> ?f ` ?new" by (intro image_eqI) auto
  qed auto
  show "i \<in> ?l \<longleftrightarrow> i \<in> ?r \<union> ?f ` ?new"
  proof (cases "i < 8 * length xs")
    case True
    then have "i div 8 < length xs" by (simp add: div8_less_iff)
    with True new show ?thesis by (auto simp: positions_def nth_append)
  next
    case False
    show ?thesis
    proof (cases "i < 8 * length xs + 8")
      case True
      with False have "i div 8 = length xs" by (simp add: div_nat_eqI)
      moreover from this have "i mod 8 = i - 8 * length xs"
        by (simp add: modulo_nat_def mult.commute)
      ultimately show ?thesis using True False new by (simp add: positions_def nth_append)
    qed (use False new in \<open>auto simp: positions_def\<close>)
  qed
qed

lemma byte_count_ones_card: "byte_count_ones x = card {j. j < 8 \<and> bit x j}"
proof -
  have "set (filter (bit x) [0..<8]) = {j. j < 8 \<and> bit x j}" by auto
  then show ?thesis
    by (metis byte_count_ones_def distinct_card distinct_filter distinct_upt)
qed

lemma count_ones_card: "count_ones bv = card (positions bv)"
proof -
  have "count_ones \<lparr>inner = xs\<rparr> = card (positions \<lparr>inner = xs\<rparr>)" for xs
  proof (induction xs rule: rev_induct)
    case Nil
    then show ?case by (simp add: count_ones_def positions_def)
  next
    case (snoc x xs)
    let ?f = "\<lambda>j. 8 * length xs + (7 - j)"
    have "positions \<lparr>inner = xs\<rparr> \<inter> ?f ` {j. j < 8 \<and> bit x j} = {}"
      by (auto simp: positions_def)
    moreover have "inj_on ?f {j. j < 8 \<and> bit x j}"
      by (auto simp: inj_on_def)
    ultimately have "card (positions \<lparr>inner = xs @ [x]\<rparr>) =
        card (positions \<lparr>inner = xs\<rparr>) + card {j. j < 8 \<and> bit x j}"
      by (subst positions_snoc, subst card_Un_disjoint) (simp_all only: card_image finite_positions, simp)
    with snoc show ?case by (simp add: count_ones_def byte_count_ones_card)
  qed
  from this [of "inner bv"] show ?thesis by (cases bv) simp
qed

section \<open>The last position\<close>

lemma bit_u8_bound: "bit (x::u8) j \<Longrightarrow> j < 8"
  using bit_imp_le_length by fastforce

lemma byte_trailing_zeros_props:
  assumes "x \<noteq> (0::u8)"
  shows "byte_trailing_zeros x < 8" "bit x (byte_trailing_zeros x)"
    "bit x j \<Longrightarrow> byte_trailing_zeros x \<le> j"
proof -
  let ?P = "\<lambda>i. \<not> bit x i"
  obtain j where j: "bit x j" using assms bit_eqI [of x 0] by auto
  then have "j < 8" by (rule bit_u8_bound)
  have lt: "length (takeWhile ?P [0..<8]) < length [0..<8]"
  proof (rule ccontr)
    assume "\<not> ?thesis"
    then have "takeWhile ?P [0..<8] = [0..<8]"
      using takeWhile_dropWhile_id [of ?P "[0..<8]"]
      by (metis append_Nil2 append_eq_conv_conj length_takeWhile_le not_less take_all_iff
          take_eq_Nil takeWhile_eq_take)
    then have "?P j" using \<open>j < 8\<close> by (simp only: takeWhile_eq_all_conv) simp
    with j show False by simp
  qed
  then show "byte_trailing_zeros x < 8" by (simp add: byte_trailing_zeros_def)
  show "bit x (byte_trailing_zeros x)"
    using nth_length_takeWhile [OF lt] lt by (simp add: byte_trailing_zeros_def)
  show "byte_trailing_zeros x \<le> j" if "bit x j" for j
  proof (rule ccontr)
    assume "\<not> ?thesis"
    then have "j < length (takeWhile ?P [0..<8])" by (simp add: byte_trailing_zeros_def)
    moreover from this lt have "takeWhile ?P [0..<8] ! j = j"
      by (simp add: takeWhile_nth)
    ultimately have "j \<in> set (takeWhile ?P [0..<8])" by (metis nth_mem)
    with that show False by (auto dest: set_takeWhileD)
  qed
qed

definition last_position :: "u8 list \<Rightarrow> nat option" where
  "last_position xs =
     map_option (\<lambda>(i, byte). 8 * (length xs - i) - byte_trailing_zeros byte - 1)
       (find (\<lambda>(i, byte). byte \<noteq> 0) (enumerate 0 (rev xs)))"

lemma last_set_bit_alt: "last_set_bit bv = map_option word_of_nat (last_position (inner bv))"
  by (auto simp: last_set_bit_def last_position_def option.map_comp comp_def split_def
      intro!: option.map_cong)

lemma find_map: "find P (map f xs) = map_option f (find (P \<circ> f) xs)"
  by (induction xs) auto

lemma last_position_snoc:
  "last_position (xs @ [x]) =
     (if x = 0 then last_position xs else Some (8 * length xs + (7 - byte_trailing_zeros x)))"
proof (cases "x = 0")
  case True
  then have "last_position (xs @ [x]) =
      map_option (\<lambda>(i, byte). 8 * (Suc (length xs) - i) - byte_trailing_zeros byte - 1)
        (map_option (apfst Suc) (find (\<lambda>(i, byte). byte \<noteq> 0) (enumerate 0 (rev xs))))"
    by (simp add: last_position_def enumerate_Suc_eq find_map comp_def split_def)
  with True show ?thesis by (simp add: last_position_def option.map_comp comp_def split_def)
next
  case False
  with byte_trailing_zeros_props(1) [of x] show ?thesis by (simp add: last_position_def)
qed

lemma Max_eq_witness: "finite A \<Longrightarrow> m \<in> A \<Longrightarrow> (\<And>a. a \<in> A \<Longrightarrow> a \<le> m) \<Longrightarrow> Max A = (m::nat)"
  by (rule Max_eqI) auto

lemma last_position_Max:
  "last_position xs =
     (if positions \<lparr>inner = xs\<rparr> = {} then None else Some (Max (positions \<lparr>inner = xs\<rparr>)))"
proof (induction xs rule: rev_induct)
  case Nil
  then show ?case by (simp add: last_position_def positions_def)
next
  case (snoc x xs)
  let ?f = "\<lambda>j. 8 * length xs + (7 - j)"
  show ?case
  proof (cases "x = 0")
    case True
    then have "positions \<lparr>inner = xs @ [x]\<rparr> = positions \<lparr>inner = xs\<rparr>"
      by (subst positions_snoc) simp
    with True snoc show ?thesis by (simp add: last_position_snoc)
  next
    case False
    note tz = byte_trailing_zeros_props [OF False]
    have "?f (byte_trailing_zeros x) \<in> positions \<lparr>inner = xs @ [x]\<rparr>"
      using tz(1,2) by (subst positions_snoc) blast
    moreover have "a \<le> ?f (byte_trailing_zeros x)" if "a \<in> positions \<lparr>inner = xs @ [x]\<rparr>" for a
    proof -
      from that consider "a \<in> positions \<lparr>inner = xs\<rparr>" | j where "a = ?f j" "bit x j"
        by (subst (asm) positions_snoc) blast
      then show ?thesis
      proof cases
        case 1
        then show ?thesis by (auto simp: positions_def)
      next
        case 2
        with tz(3) [of j] show ?thesis by linarith
      qed
    qed
    ultimately have "Max (positions \<lparr>inner = xs @ [x]\<rparr>) = ?f (byte_trailing_zeros x)"
      and "positions \<lparr>inner = xs @ [x]\<rparr> \<noteq> {}"
      by (auto intro: Max_eq_witness)
    with False show ?thesis by (simp only: last_position_snoc if_False)
  qed
qed

section \<open>Conjunction, disjunction and conversions\<close>

lemma positions_bitand: "positions (bitand a b) = positions a \<inter> positions b"
proof (rule set_eqI)
  fix i
  let ?n = "min (length (inner a)) (length (inner b))"
  have "i < 8 * ?n \<longleftrightarrow> i div 8 < ?n" by (simp only: div8_less_iff)
  then show "i \<in> positions (bitand a b) \<longleftrightarrow> i \<in> positions a \<inter> positions b"
    by (auto simp: positions_def bitand_def Let_def bit_and_iff)
qed

lemma positions_bitor: "positions (bitor a b) = positions a \<union> positions b"
proof (rule set_eqI)
  fix i
  have at: "i \<in> positions v \<longleftrightarrow> bit (byte_at v (i div 8)) (7 - i mod 8)" for v
    by (simp add: positions_def byte_at_def div8_less_iff)
  have "i \<in> positions (bitor a b) \<longleftrightarrow>
      i div 8 < max (length (inner a)) (length (inner b)) \<and>
      bit (byte_at a (i div 8) OR byte_at b (i div 8)) (7 - i mod 8)"
    by (auto simp: positions_def bitor_def Let_def div8_less_iff)
  also have "\<dots> \<longleftrightarrow> bit (byte_at a (i div 8) OR byte_at b (i div 8)) (7 - i mod 8)"
    by (auto simp: byte_at_def)
  also have "\<dots> \<longleftrightarrow> i \<in> positions a \<union> positions b"
    by (simp add: bit_or_iff at)
  finally show "i \<in> positions (bitor a b) \<longleftrightarrow> i \<in> positions a \<union> positions b" .
qed

lemma positions_fold_bools:
  assumes "n + length bits \<le> 65536"
  shows "positions (foldl (\<lambda>bv (index, b). if b then bv_set bv (word_of_nat index) else bv) bv
             (enumerate n bits)) =
           positions bv \<union> {n + i |i. i < length bits \<and> bits ! i}"
  using assms
proof (induction bits arbitrary: n bv)
  case (Cons b bits)
  have "{n + i |i. i < length (b # bits) \<and> (b # bits) ! i} =
      (if b then {n} else {}) \<union> {Suc n + i |i. i < length bits \<and> bits ! i}"
    by (force simp: less_Suc_eq_0_disj)
  moreover have "unat (word_of_nat n :: u16) = n" if b
    using Cons.prems by (simp add: unat_of_nat)
  ultimately show ?case using Cons.IH [of "Suc n"] Cons.prems
    by (auto simp: positions_bv_set)
qed simp

lemma count_ones_iter_ones: "wf_bv bv \<Longrightarrow> count_ones bv = length (iter_ones bv)"
  by (metis count_ones_card distinct_card iter_ones_distinct set_iter_ones)

lemma sorted_le_last: "sorted xs \<Longrightarrow> x \<in> set xs \<Longrightarrow> x \<le> last (xs :: nat list)"
  by (induction xs) auto

lemma last_set_bit_iter_ones:
  assumes "wf_bv bv"
  shows "last_set_bit bv =
           (if iter_ones bv = [] then None else Some (word_of_nat (last (iter_ones bv))))"
proof -
  note set_ones = set_iter_ones [OF assms]
  have srt: "sorted (iter_ones bv)" using iter_ones_sorted [of bv] by (simp add: strict_sorted_iff)
  have "Max (positions bv) = last (iter_ones bv)" if "iter_ones bv \<noteq> []"
    using that set_ones sorted_le_last [OF srt] finite_positions [of bv]
    by (intro Max_eq_witness) auto
  moreover have "last_position (inner bv) =
      (if positions bv = {} then None else Some (Max (positions bv)))"
    using last_position_Max [of "inner bv"] by (cases bv) simp
  moreover have "positions bv = {} \<longleftrightarrow> iter_ones bv = []"
    using set_ones by (metis set_empty)
  ultimately show ?thesis by (simp add: last_set_bit_alt)
qed

section \<open>What the certificate code relies on\<close>

text \<open>
  The certificates use a mask of signers through three operations only. The client lemma
  \<open>selected\<close> says that the two ways the code lists the signers of a certificate agree: filtering the
  validators by the mask, and indexing the validators by the positions of the mask.
\<close>

locale signer_mask =
  fixes add :: "'m \<Rightarrow> u16 \<Rightarrow> 'm"
    and test :: "'m \<Rightarrow> u16 \<Rightarrow> bool"
    and ones :: "'m \<Rightarrow> nat list"
    and invar :: "'m \<Rightarrow> bool"
  assumes invar_add: "invar m \<Longrightarrow> invar (add m p)"
    and test_add: "test (add m p) q \<longleftrightarrow> q = p \<or> test m q"
    and ones_sorted: "sorted_wrt (<) (ones m)"
    and ones_iff: "invar m \<Longrightarrow> i \<in> set (ones m) \<longleftrightarrow> i < 65536 \<and> test m (word_of_nat i)"
begin

lemma invar_adds: "invar m \<Longrightarrow> invar (foldl add m ps)"
  by (induction ps arbitrary: m) (auto intro: invar_add)

lemma test_adds: "test (foldl add m ps) q \<longleftrightarrow> q \<in> set ps \<or> test m q"
  by (induction ps arbitrary: m) (auto simp: test_add)

lemma ones_adds:
  assumes "invar m"
  shows "set (ones (foldl add m ps)) = unat ` set ps \<union> set (ones m)"
proof -
  have "i \<in> set (ones (foldl add m ps)) \<longleftrightarrow> i \<in> unat ` set ps \<union> set (ones m)" for i
  proof -
    have "i < 65536 \<and> word_of_nat i \<in> set ps \<longleftrightarrow> i \<in> unat ` set ps"
    proof
      assume "i < 65536 \<and> word_of_nat i \<in> set ps"
      then show "i \<in> unat ` set ps"
        by (intro image_eqI [of _ _ "word_of_nat i"]) (auto simp: unat_of_nat)
    next
      assume "i \<in> unat ` set ps"
      then obtain p :: u16 where "i = unat p" "p \<in> set ps" by blast
      then show "i < 65536 \<and> word_of_nat i \<in> set ps"
        using unsigned_less [of p, where ?'a = nat] by simp
    qed
    then show ?thesis
      using ones_iff [OF assms] ones_iff [OF invar_adds [OF assms]] by (auto simp: test_adds)
  qed
  then show ?thesis by blast
qed

lemma ones_distinct: "distinct (ones m)"
  using ones_sorted [of m] by (simp add: strict_sorted_iff)

lemma ones_eq_filter:
  assumes "invar m" "set (ones m) \<subseteq> {..<n}" "n \<le> 65536"
  shows "ones m = filter (\<lambda>i. test m (word_of_nat i)) [0..<n]"
proof (rule sorted_distinct_set_unique)
  show "sorted (ones m)" using ones_sorted [of m] by (simp add: strict_sorted_iff)
  show "set (ones m) = set (filter (\<lambda>i. test m (word_of_nat i)) [0..<n])"
    using assms ones_iff [OF assms(1)] by auto
qed (simp_all add: ones_distinct sorted_filter [of id, simplified])

lemma selected:
  assumes "invar m" "set (ones m) \<subseteq> {..<length xs}" "length xs \<le> 65536"
  shows "map (nth xs) (ones m) =
           map snd (filter (\<lambda>(i, x). test m (word_of_nat i)) (enumerate 0 xs))"
proof -
  have "enumerate 0 xs = map (\<lambda>i. (i, xs ! i)) [0..<length xs]"
    by (rule nth_equalityI) (simp_all add: nth_enumerate_eq)
  then show ?thesis
    using ones_eq_filter [OF assms] by (simp add: filter_map comp_def)
qed

end

interpretation bv: signer_mask bv_set is_set iter_ones wf_bv
proof
  show "wf_bv m \<Longrightarrow> wf_bv (bv_set m p)" for m p by (rule wf_bv_set)
  show "is_set (bv_set m p) q \<longleftrightarrow> q = p \<or> is_set m q" for m p q
    by (simp add: is_set_iff positions_bv_set unsigned_word_eqI word_unat_eq_iff)
  show "sorted_wrt (<) (iter_ones m)" for m by (rule iter_ones_sorted)
  show "i \<in> set (iter_ones m) \<longleftrightarrow> i < 65536 \<and> is_set m (word_of_nat i)" if "wf_bv m" for m i
  proof -
    have "i < 65536 \<and> unat (word_of_nat i :: u16) \<in> positions m \<longleftrightarrow> i \<in> positions m"
      using positions_bound [OF that] by (auto simp: unat_of_nat)
    then show ?thesis by (simp add: set_iter_ones [OF that] is_set_iff)
  qed
qed

section \<open>Properties\<close>

text \<open>
  \<^verbatim>\<open>count_ones\<close>, \<^verbatim>\<open>iter_ones\<close> and \<^verbatim>\<open>last_set_bit\<close> agree on which positions of a vector of at
  most \<^verbatim>\<open>MAX_BUCKETS\<close> bytes are set: the iterator lists exactly the positions for which \<^verbatim>\<open>is_set\<close>
  holds, in increasing order and without repetition, the count is the length of that list, and the
  last set bit is its last element.
\<close>

theorem bit_vec_observers_agree:
  assumes "wf_bv bv"
  shows "sorted_wrt (<) (iter_ones bv) \<and>
    (\<forall>i. i \<in> set (iter_ones bv) \<longleftrightarrow> i < 65536 \<and> is_set bv (word_of_nat i)) \<and>
    count_ones bv = length (iter_ones bv) \<and>
    last_set_bit bv =
      (if iter_ones bv = [] then None else Some (word_of_nat (last (iter_ones bv))))"
  using iter_ones_sorted [of bv] bv.ones_iff [OF assms] count_ones_iter_ones [OF assms]
    last_set_bit_iter_ones [OF assms]
  by blast

theorem bit_vec_observers_agree_witness:
  "wf_bv \<lparr>inner = [0x41, 0x20]\<rparr> \<and> iter_ones \<lparr>inner = [0x41, 0x20]\<rparr> = [1, 7, 10] \<and>
   last_set_bit \<lparr>inner = [0x41, 0x20]\<rparr> = Some 10"
proof -
  have wf: "wf_bv \<lparr>inner = [0x41, 0x20]\<rparr>" by (simp add: wf_bv_def MAX_BUCKETS_def)
  have ones: "iter_ones \<lparr>inner = [0x41, 0x20]\<rparr> = [1, 7, 10]" by code_simp
  show ?thesis using wf ones bit_vec_observers_agree [OF wf] by simp
qed

end
