(* ===== verification/Validator_Verifier.thy ===== *)
theory Validator_Verifier
  imports Bit_Vec "HOL-Library.Multiset"
begin

text \<open>
  The validator set of an epoch and the certificates it checks:
  \<^verbatim>\<open>types/src/validator_verifier.rs\<close> and \<^verbatim>\<open>types/src/aggregate_signature.rs\<close>. The BLS primitives come
  from a third-party crate and are the fields of the record \<open>crypto\<close>. A verifier that the
  constructor built is related to the weighted quorum system of its voters; the locale
  \<open>quorum_system\<close> states what the consensus proofs use of it.
\<close>

section \<open>Keys and signatures\<close>

datatype public_key = PublicKey "u8 list"
datatype private_key = PrivateKey "u8 list"
datatype signature = Signature "u8 list"

text \<open>
  The functions of the BLS library, over the type of the messages that are signed. Signing returns
  \<^term>\<open>None\<close> when the message cannot be serialised; aggregation returns \<^term>\<open>None\<close> on the library's
  errors (an empty list, for one).
\<close>

record 'm crypto =
  bls_verify :: "public_key \<Rightarrow> 'm \<Rightarrow> signature \<Rightarrow> bool"
  bls_aggregate :: "signature list \<Rightarrow> signature option"
  bls_aggregate_keys :: "public_key list \<Rightarrow> public_key option"
  bls_verify_aggregate :: "signature \<Rightarrow> 'm list \<Rightarrow> public_key list \<Rightarrow> bool"
  bls_sign :: "private_key \<Rightarrow> 'm \<Rightarrow> signature option"
  bls_public_key :: "private_key \<Rightarrow> public_key"

text \<open>The same functions at one of the types of messages.\<close>

definition crypto_at :: "('a \<Rightarrow> 'm) \<Rightarrow> 'm crypto \<Rightarrow> 'a crypto" where
  "crypto_at f C =
     \<lparr>bls_verify = (\<lambda>key message sig. bls_verify C key (f message) sig),
      bls_aggregate = bls_aggregate C,
      bls_aggregate_keys = bls_aggregate_keys C,
      bls_verify_aggregate = (\<lambda>sig messages keys. bls_verify_aggregate C sig (map f messages) keys),
      bls_sign = (\<lambda>key message. bls_sign C key (f message)),
      bls_public_key = bls_public_key C\<rparr>"

section \<open>Aggregate signatures\<close>

record aggregate_signature =
  validator_bitmask :: bit_vec
  agg_sig :: "signature option"

definition agg_sig_empty :: aggregate_signature where
  "agg_sig_empty = \<lparr>validator_bitmask = bv_default, agg_sig = None\<rparr>"

definition get_signers_addresses ::
    "aggregate_signature \<Rightarrow> account_address list \<Rightarrow> account_address list" where
  "get_signers_addresses s validator_addresses =
     List.map_filter
       (\<lambda>(index, addr). if is_set (validator_bitmask s) (word_of_nat index) then Some addr else None)
       (enumerate 0 validator_addresses)"

definition get_num_voters :: "aggregate_signature \<Rightarrow> nat" where
  "get_num_voters s = count_ones (validator_bitmask s)"

text \<open>\<^verbatim>\<open>PartialSignatures\<close>.\<close>

record partial_signatures =
  signatures :: "(account_address \<times> signature) list"

definition partial_signatures_empty :: partial_signatures where
  "partial_signatures_empty = \<lparr>signatures = []\<rparr>"

definition remove_signature ::
    "partial_signatures \<Rightarrow> account_address \<Rightarrow> signature option \<times> partial_signatures" where
  "remove_signature p validator =
     (map_of (signatures p) validator, p\<lparr>signatures := btree_remove validator (signatures p)\<rparr>)"

definition add_signature ::
    "partial_signatures \<Rightarrow> account_address \<Rightarrow> signature \<Rightarrow> partial_signatures" where
  "add_signature p validator sig = p\<lparr>signatures := btree_insert validator sig (signatures p)\<rparr>"

definition contains_voter :: "partial_signatures \<Rightarrow> account_address \<Rightarrow> bool" where
  "contains_voter p voter = contains_key voter (signatures p)"

section \<open>The verifier\<close>

datatype verify_error =
    UnknownAuthor
  | TooLittleVotingPower u128 u128
  | EmptySignature
  | InvalidMultiSignature
  | InvalidAggregatedSignature
  | InconsistentBlockInfo
  | FailedToAggregatePubKey
  | FailedToAggregateSignature
  | FailedToVerifyMultiSignature
  | InvalidBitVec
  | FailedToVerifyAggregatedSignature

record validator_consensus_info =
  info_address :: account_address
  info_public_key :: public_key
  info_voting_power :: u64

text \<open>
  The fields that \<^verbatim>\<open>PartialEq\<close> compares. The set of pessimistically verified authors and the
  optimistic flag, which it ignores, are in the theory of the signature aggregator.
\<close>

record validator_verifier =
  validator_infos :: "validator_consensus_info list"
  quorum_voting_power :: u128
  total_voting_power :: u128
  address_to_validator_index :: "(account_address \<times> nat) list"

text \<open>
  \<^verbatim>\<open>build_index\<close> collects the entries into a \<^verbatim>\<open>HashMap\<close>: the entry of a later validator replaces
  that of an earlier one with the same address.
\<close>

definition build_index ::
    "validator_consensus_info list \<Rightarrow> u128 \<Rightarrow> u128 \<Rightarrow> validator_verifier" where
  "build_index infos quorum total_power =
     \<lparr>validator_infos = infos, quorum_voting_power = quorum, total_voting_power = total_power,
      address_to_validator_index =
        rev (map (\<lambda>(index, info). (info_address info, index)) (enumerate 0 infos))\<rparr>"

definition sum_infos_voting_power :: "validator_consensus_info list \<Rightarrow> ('e, u128) res" where
  "sum_infos_voting_power infos =
     try_fold (\<lambda>sum x. unwrap (checked_add sum (ucast (info_voting_power x)))) 0 infos"

definition validator_verifier_new ::
    "validator_consensus_info list \<Rightarrow> ('e, validator_verifier) res" where
  "validator_verifier_new infos =
     bind (sum_infos_voting_power infos) (\<lambda>total_power.
     bind (if infos = [] then Ok 0
           else bind (unwrap (checked_mul total_power 2)) (\<lambda>d. unwrap (checked_add (d div 3) 1)))
       (\<lambda>quorum. Ok (build_index infos quorum total_power)))"

definition new_with_quorum_voting_power ::
    "validator_consensus_info list \<Rightarrow> u128 \<Rightarrow> (string, validator_verifier) res" where
  "new_with_quorum_voting_power infos quorum =
     bind (sum_infos_voting_power infos) (\<lambda>total_power.
     bind (ensure (quorum \<le> total_power)
       ''Quorum voting power is greater than the sum of all voting voting_power of authors'') (\<lambda>_.
       Ok (build_index infos quorum total_power)))"

definition new_single :: "account_address \<Rightarrow> public_key \<Rightarrow> ('e, validator_verifier) res" where
  "new_single auth key =
     validator_verifier_new
       [\<lparr>info_address = auth, info_public_key = key, info_voting_power = 1\<rparr>]"

definition get_public_key :: "validator_verifier \<Rightarrow> account_address \<Rightarrow> public_key option" where
  "get_public_key vv auth =
     map_option (\<lambda>index. info_public_key (validator_infos vv ! index))
       (map_of (address_to_validator_index vv) auth)"

definition get_voting_power :: "validator_verifier \<Rightarrow> account_address \<Rightarrow> u64 option" where
  "get_voting_power vv auth =
     map_option (\<lambda>index. info_voting_power (validator_infos vv ! index))
       (map_of (address_to_validator_index vv) auth)"

definition get_ordered_account_addresses :: "validator_verifier \<Rightarrow> account_address list" where
  "get_ordered_account_addresses vv = map info_address (validator_infos vv)"

definition verifier_len :: "validator_verifier \<Rightarrow> nat" where
  "verifier_len vv = length (validator_infos vv)"

definition vv_verify ::
    "'m crypto \<Rightarrow> validator_verifier \<Rightarrow> account_address \<Rightarrow> 'm \<Rightarrow> signature
       \<Rightarrow> (verify_error, unit) res" where
  "vv_verify C vv auth message sig =
     (case get_public_key vv auth of
        Some key \<Rightarrow> ensure (bls_verify C key message sig) InvalidMultiSignature
      | None \<Rightarrow> Err UnknownAuthor)"

definition aggregate_signatures ::
    "'m crypto \<Rightarrow> validator_verifier \<Rightarrow> (account_address \<times> signature) list
       \<Rightarrow> (verify_error, aggregate_signature) res" where
  "aggregate_signatures C vv sigs =
     bind (try_fold
             (\<lambda>(acc, masks) (addr, sig).
                bind (ok_or UnknownAuthor (map_of (address_to_validator_index vv) addr)) (\<lambda>index.
                  Ok (acc @ [sig], bv_set masks (word_of_nat index))))
             ([], with_num_bits (word_of_nat (verifier_len vv))) sigs)
       (\<lambda>(acc, masks).
     bind (ok_or FailedToAggregateSignature (bls_aggregate C acc)) (\<lambda>aggregated_sig.
       Ok \<lparr>validator_bitmask = masks, agg_sig = Some aggregated_sig\<rparr>))"

definition check_num_of_voters :: "u16 \<Rightarrow> bit_vec \<Rightarrow> (verify_error, unit) res" where
  "check_num_of_voters num_validators bitvec =
     (if num_buckets bitvec \<noteq> required_buckets num_validators then Err InvalidBitVec
      else case last_set_bit bitvec of
             Some last_bit \<Rightarrow> if last_bit \<ge> num_validators then Err InvalidBitVec else Ok ()
           | None \<Rightarrow> Ok ())"

definition sum_voting_power ::
    "validator_verifier \<Rightarrow> account_address list \<Rightarrow> (verify_error, u128) res" where
  "sum_voting_power vv authors =
     try_fold (\<lambda>acc addr.
         case get_voting_power vv addr of
           Some voting_power \<Rightarrow> unwrap (checked_add acc (ucast voting_power))
         | None \<Rightarrow> Err UnknownAuthor) 0 authors"

definition check_aggregated_voting_power ::
    "validator_verifier \<Rightarrow> u128 \<Rightarrow> bool \<Rightarrow> (verify_error, u128) res" where
  "check_aggregated_voting_power vv voting_power check_super_majority =
     bind (if check_super_majority then Ok (quorum_voting_power vv)
           else bind (unwrap (checked_sub (total_voting_power vv) (quorum_voting_power vv)))
                  (\<lambda>d. unwrap (checked_add d 1)))
       (\<lambda>target. if voting_power < target then Err (TooLittleVotingPower voting_power target) else Ok voting_power)"

definition check_voting_power ::
    "validator_verifier \<Rightarrow> account_address list \<Rightarrow> bool \<Rightarrow> (verify_error, u128) res" where
  "check_voting_power vv authors check_super_majority =
     bind (sum_voting_power vv authors) (\<lambda>voting_power.
       check_aggregated_voting_power vv voting_power check_super_majority)"

text \<open>The loop both verification functions start with: the validators the mask points at.\<close>

definition signer_infos ::
    "validator_verifier \<Rightarrow> bit_vec \<Rightarrow> (verify_error, validator_consensus_info list) res" where
  "signer_infos vv bitvec =
     try_map (\<lambda>index. ok_or UnknownAuthor (nth_opt (validator_infos vv) index)) (iter_ones bitvec)"

definition verify_multi_signatures ::
    "'m crypto \<Rightarrow> validator_verifier \<Rightarrow> 'm \<Rightarrow> aggregate_signature \<Rightarrow> (verify_error, unit) res" where
  "verify_multi_signatures C vv message multi_signature =
     bind (check_num_of_voters (word_of_nat (verifier_len vv))
             (validator_bitmask multi_signature)) (\<lambda>_.
     bind (signer_infos vv (validator_bitmask multi_signature)) (\<lambda>signers.
     bind (check_voting_power vv (map info_address signers) True) (\<lambda>_.
     bind (ok_or EmptySignature (agg_sig multi_signature)) (\<lambda>multi_sig.
     bind (ok_or FailedToAggregatePubKey (bls_aggregate_keys C (map info_public_key signers)))
       (\<lambda>aggregated_key.
          ensure (bls_verify C aggregated_key message multi_sig) InvalidMultiSignature)))))"

definition verify_aggregate_signatures ::
    "'m crypto \<Rightarrow> validator_verifier \<Rightarrow> 'm list \<Rightarrow> aggregate_signature
       \<Rightarrow> (verify_error, unit) res" where
  "verify_aggregate_signatures C vv messages aggregated_signature =
     bind (check_num_of_voters (word_of_nat (verifier_len vv))
             (validator_bitmask aggregated_signature)) (\<lambda>_.
     bind (signer_infos vv (validator_bitmask aggregated_signature)) (\<lambda>signers.
     bind (check_voting_power vv (map info_address signers) True) (\<lambda>_.
     bind (ok_or EmptySignature (agg_sig aggregated_signature)) (\<lambda>sig.
       ensure (bls_verify_aggregate C sig messages (map info_public_key signers))
         InvalidAggregatedSignature))))"

definition aggregate_signature_authors ::
    "validator_verifier \<Rightarrow> aggregate_signature \<Rightarrow> account_address list" where
  "aggregate_signature_authors vv s =
     List.map_filter (\<lambda>index. map_option info_address (nth_opt (validator_infos vv) index))
       (iter_ones (validator_bitmask s))"

section \<open>Verifiers the constructor built\<close>

definition members :: "validator_verifier \<Rightarrow> account_address set" where
  "members vv = info_address ` set (validator_infos vv)"

definition weight :: "validator_verifier \<Rightarrow> account_address \<Rightarrow> nat" where
  "weight vv a = (case get_voting_power vv a of None \<Rightarrow> 0 | Some p \<Rightarrow> unat p)"

definition wf_verifier :: "validator_verifier \<Rightarrow> bool" where
  "wf_verifier vv \<longleftrightarrow>
     (validator_verifier_new (validator_infos vv) :: (unit, validator_verifier) res) = Ok vv \<and>
     distinct (map info_address (validator_infos vv)) \<and>
     validator_infos vv \<noteq> [] \<and> verifier_len vv < 65536"

lemma try_fold_voting_power:
  assumes "try_fold (\<lambda>acc x. unwrap (checked_add acc (ucast (f x :: u64)))) (acc :: u128) xs = Ok t"
  shows "unat t = unat acc + sum_list (map (\<lambda>x. unat (f x)) xs)"
  using assms
proof (induction xs arbitrary: acc)
  case (Cons x xs)
  then obtain c where c: "checked_add acc (ucast (f x)) = Some c"
    and rest: "unat t = unat c + sum_list (map (\<lambda>x. unat (f x)) xs)"
    by (auto simp: bind_Ok unwrap_iffs)
  have "unat (ucast (f x) :: u128) = unat (f x)" by simp
  with unat_checked_add [OF c] rest show ?case by simp
qed simp

lemma new_Ok:
  assumes "validator_verifier_new infos = (Ok vv :: ('e, validator_verifier) res)"
  shows "validator_infos vv = infos"
    and "unat (total_voting_power vv) = sum_list (map (\<lambda>x. unat (info_voting_power x)) infos)"
    and "infos \<noteq> [] \<Longrightarrow>
           unat (quorum_voting_power vv) = unat (total_voting_power vv) * 2 div 3 + 1"
    and "address_to_validator_index vv =
           rev (map (\<lambda>(index, info). (info_address info, index)) (enumerate 0 infos))"
proof -
  from assms obtain t q where t: "sum_infos_voting_power infos = (Ok t :: ('e, u128) res)"
    and q: "(if infos = [] then Ok 0
           else bind (unwrap (checked_mul t 2)) (\<lambda>d. unwrap (checked_add (d div 3) 1))) = (Ok q :: ('e, u128) res)"
    and vv: "vv = build_index infos q t"
    by (auto simp: validator_verifier_new_def bind_Ok)
  show "validator_infos vv = infos" and "address_to_validator_index vv =
           rev (map (\<lambda>(index, info). (info_address info, index)) (enumerate 0 infos))"
    by (simp_all add: vv build_index_def)
  show "unat (total_voting_power vv) = sum_list (map (\<lambda>x. unat (info_voting_power x)) infos)"
    using t try_fold_voting_power [of info_voting_power 0 infos]
    by (simp add: vv build_index_def sum_infos_voting_power_def)
  show "unat (quorum_voting_power vv) = unat (total_voting_power vv) * 2 div 3 + 1"
    if "infos \<noteq> []"
  proof -
    from q that obtain d where d: "checked_mul t 2 = Some d"
      and q': "checked_add (d div 3) 1 = Some q"
      by (auto simp: bind_Ok unwrap_iffs)
    from unat_checked_add [OF q'] unat_checked_mul [OF d] show ?thesis
      by (simp add: vv build_index_def unat_div)
  qed
qed

lemma map_of_index:
  assumes "distinct (map f infos)"
  shows "map_of (rev (map (\<lambda>(index, info). (f info, index)) (enumerate 0 infos))) a = Some i \<longleftrightarrow>
           i < length infos \<and> f (infos ! i) = a"
proof -
  let ?m = "map (\<lambda>(index, info). (f info, index)) (enumerate 0 infos)"
  have fst: "map fst ?m = map f infos"
    by (rule nth_equalityI) (simp_all add: nth_enumerate_eq)
  then have "distinct (map fst (rev ?m))" using assms by (metis distinct_rev rev_map)
  then have "map_of (rev ?m) a = Some i \<longleftrightarrow> (a, i) \<in> set ?m"
    by (simp add: map_of_eq_Some_iff)
  also have "\<dots> \<longleftrightarrow> i < length infos \<and> f (infos ! i) = a"
    by (auto simp: in_set_enumerate_eq image_iff intro!: bexI [of _ "(i, infos ! i)"])
  finally show ?thesis .
qed

lemma wf_verifier_new:
  "wf_verifier vv \<Longrightarrow>
   validator_verifier_new (validator_infos vv) = (Ok vv :: (unit, validator_verifier) res)"
  by (simp add: wf_verifier_def)

lemma wf_index:
  assumes "wf_verifier vv"
  shows "map_of (address_to_validator_index vv) a = Some i \<longleftrightarrow>
           i < length (validator_infos vv) \<and> info_address (validator_infos vv ! i) = a"
proof -
  from assms have "address_to_validator_index vv =
      rev (map (\<lambda>(index, info). (info_address info, index)) (enumerate 0 (validator_infos vv)))"
    by (rule new_Ok(4) [OF wf_verifier_new])
  then show ?thesis using assms by (simp add: map_of_index wf_verifier_def)
qed

lemma wf_index_nth:
  assumes "wf_verifier vv" "i < length (validator_infos vv)"
  shows "map_of (address_to_validator_index vv) (info_address (validator_infos vv ! i)) = Some i"
  using assms by (simp add: wf_index)

lemma wf_get_nth:
  assumes "wf_verifier vv" "info \<in> set (validator_infos vv)"
  shows "get_voting_power vv (info_address info) = Some (info_voting_power info)"
    and "get_public_key vv (info_address info) = Some (info_public_key info)"
    and "weight vv (info_address info) = unat (info_voting_power info)"
  using assms
  by (auto simp: in_set_conv_nth get_voting_power_def get_public_key_def wf_index_nth weight_def)

lemma wf_get_None:
  assumes "wf_verifier vv"
  shows "get_voting_power vv a = None \<longleftrightarrow> a \<notin> members vv"
    and "get_public_key vv a = None \<longleftrightarrow> a \<notin> members vv"
proof -
  have "map_of (address_to_validator_index vv) a = None \<longleftrightarrow> a \<notin> members vv"
  proof -
    have "a \<in> members vv \<longleftrightarrow>
        (\<exists>i < length (validator_infos vv). info_address (validator_infos vv ! i) = a)"
      by (metis (no_types, lifting) imageE image_eqI in_set_conv_nth members_def)
    then show ?thesis using wf_index [OF assms, of a] by (metis not_Some_eq)
  qed
  then show "get_voting_power vv a = None \<longleftrightarrow> a \<notin> members vv"
    "get_public_key vv a = None \<longleftrightarrow> a \<notin> members vv"
    by (simp_all add: get_voting_power_def get_public_key_def)
qed

lemma finite_members [simp]: "finite (members vv)"
  by (simp add: members_def)

lemma wf_total_power:
  assumes "wf_verifier vv"
  shows "unat (total_voting_power vv) = sum (weight vv) (members vv)"
proof -
  have "sum (weight vv) (members vv) = sum_list (map (weight vv) (map info_address (validator_infos vv)))"
    using assms sum_list_distinct_conv_sum_set [of "map info_address (validator_infos vv)" "weight vv"]
    by (simp add: wf_verifier_def members_def)
  also have "\<dots> = sum_list (map (\<lambda>x. unat (info_voting_power x)) (validator_infos vv))"
    by (simp add: comp_def wf_get_nth(3) [OF assms] cong: map_cong)
  also have "\<dots> = unat (total_voting_power vv)"
    using new_Ok(2) [OF wf_verifier_new [OF assms]] by simp
  finally show ?thesis by simp
qed

lemma wf_quorum_power:
  assumes "wf_verifier vv"
  shows "unat (quorum_voting_power vv) = sum (weight vv) (members vv) * 2 div 3 + 1"
  using new_Ok(3) [OF wf_verifier_new [OF assms]] wf_total_power [OF assms] assms
  by (simp add: wf_verifier_def)

lemma sum_voting_power_Ok:
  assumes "sum_voting_power vv authors = Ok p"
  shows "unat p = sum_list (map (weight vv) authors)"
    and "\<forall>a \<in> set authors. get_voting_power vv a \<noteq> None"
proof -
  have *: "unat p = unat acc + sum_list (map (weight vv) authors) \<and>
      (\<forall>a \<in> set authors. get_voting_power vv a \<noteq> None)"
    if "try_fold (\<lambda>acc addr. case get_voting_power vv addr of
           Some voting_power \<Rightarrow> unwrap (checked_add acc (ucast voting_power))
         | None \<Rightarrow> Err UnknownAuthor) acc authors = Ok p" for acc :: u128
    using that
  proof (induction authors arbitrary: acc)
    case (Cons a as)
    then obtain w c where w: "get_voting_power vv a = Some w"
      and c: "checked_add acc (ucast w) = Some c"
      and rest: "unat p = unat c + sum_list (map (weight vv) as)"
        "\<forall>a \<in> set as. get_voting_power vv a \<noteq> None"
      by (auto simp: bind_Ok unwrap_iffs split: option.splits)
    have "unat (ucast w :: u128) = unat w" by simp
    moreover from w have "weight vv a = unat w" by (simp add: weight_def)
    ultimately show ?case using unat_checked_add [OF c] w rest by simp
  qed simp
  from * [of 0] assms show "unat p = sum_list (map (weight vv) authors)"
    "\<forall>a \<in> set authors. get_voting_power vv a \<noteq> None"
    by (simp_all add: sum_voting_power_def)
qed

section \<open>Quorums\<close>

definition is_quorum :: "validator_verifier \<Rightarrow> account_address set \<Rightarrow> bool" where
  "is_quorum vv A \<longleftrightarrow>
     wf_verifier vv \<and> A \<subseteq> members vv \<and> unat (quorum_voting_power vv) \<le> sum (weight vv) A"

definition tolerates :: "validator_verifier \<Rightarrow> account_address set \<Rightarrow> bool" where
  "tolerates vv F \<longleftrightarrow> 3 * sum (weight vv) (F \<inter> members vv) < sum (weight vv) (members vv)"

text \<open>
  What the consensus protocol relies on: two quorums of one validator set share a validator that is
  not faulty, as long as the faulty validators are within the tolerated weight.
\<close>

locale quorum_system =
  fixes quorum :: "'c \<Rightarrow> 'v set \<Rightarrow> bool"
    and tolerated :: "'c \<Rightarrow> 'v set \<Rightarrow> bool"
  assumes intersection:
    "quorum c A \<Longrightarrow> quorum c B \<Longrightarrow> tolerated c F \<Longrightarrow> \<exists>v. v \<in> A \<and> v \<in> B \<and> v \<notin> F"
begin

lemma quorum_has_correct: "quorum c A \<Longrightarrow> tolerated c F \<Longrightarrow> \<exists>v \<in> A. v \<notin> F"
  using intersection by blast

text \<open>
  When every correct validator supports at most one value, two values with a quorum of supporters
  are equal.
\<close>

lemma unique_choice:
  assumes "quorum c A" "quorum c B" "tolerated c F"
    and "\<And>v. v \<in> A \<Longrightarrow> v \<notin> F \<Longrightarrow> supports v x"
    and "\<And>v. v \<in> B \<Longrightarrow> v \<notin> F \<Longrightarrow> supports v y"
    and "\<And>v x y. v \<notin> F \<Longrightarrow> supports v x \<Longrightarrow> supports v y \<Longrightarrow> x = y"
  shows "x = y"
  using intersection [OF assms(1-3)] assms(4-6) by blast

end

lemma is_quorum_intersection:
  assumes A: "is_quorum vv A" and B: "is_quorum vv B" and F: "tolerates vv F"
  shows "\<exists>v. v \<in> A \<and> v \<in> B \<and> v \<notin> F"
proof (rule ccontr)
  assume "\<nexists>v. v \<in> A \<and> v \<in> B \<and> v \<notin> F"
  then have sub: "A \<inter> B \<subseteq> F \<inter> members vv" using A by (auto simp: is_quorum_def)
  let ?w = "sum (weight vv)"
  have AB: "A \<subseteq> members vv" "B \<subseteq> members vv" using A B by (auto simp: is_quorum_def)
  then have fin: "finite A" "finite B" by (auto intro: finite_subset)
  have "?w A + ?w B = ?w (A \<union> B) + ?w (A \<inter> B)"
    using fin by (rule sum.union_inter [symmetric])
  also have "\<dots> \<le> ?w (members vv) + ?w (F \<inter> members vv)"
    using AB sub by (intro add_mono sum_mono2) auto
  finally have "?w A + ?w B \<le> ?w (members vv) + ?w (F \<inter> members vv)" .
  moreover have "?w (members vv) * 2 div 3 + 1 \<le> ?w A" "?w (members vv) * 2 div 3 + 1 \<le> ?w B"
    using A B wf_quorum_power by (auto simp: is_quorum_def)
  ultimately show False using F unfolding tolerates_def by linarith
qed

interpretation vq: quorum_system is_quorum tolerates
  by unfold_locales (rule is_quorum_intersection)

section \<open>Certificates\<close>

definition signer_set :: "validator_verifier \<Rightarrow> aggregate_signature \<Rightarrow> account_address set" where
  "signer_set vv s = set (aggregate_signature_authors vv s)"

text \<open>The signature of the certificate verifies under the keys of the validators its mask selects.\<close>

definition certifies :: "'m crypto \<Rightarrow> validator_verifier \<Rightarrow> 'm \<Rightarrow> aggregate_signature \<Rightarrow> bool" where
  "certifies C vv message s \<longleftrightarrow>
     (\<exists>sig key. agg_sig s = Some sig \<and>
        bls_aggregate_keys C
          (map (\<lambda>i. info_public_key (validator_infos vv ! i)) (iter_ones (validator_bitmask s))) =
          Some key \<and>
        bls_verify C key message sig)"

lemma signer_infos_Ok:
  "signer_infos vv bv = Ok infos \<longleftrightarrow>
     set (iter_ones bv) \<subseteq> {..<length (validator_infos vv)} \<and>
     infos = map (nth (validator_infos vv)) (iter_ones bv)"
proof -
  have "list_all2 (\<lambda>i x. i < length vs \<and> x = vs ! i) is xs \<longleftrightarrow>
      set is \<subseteq> {..<length vs} \<and> xs = map (nth vs) is" for vs and "is" :: "nat list" and xs
    by (induction "is" arbitrary: xs) (auto simp: list_all2_Cons1)
  then show ?thesis by (simp add: signer_infos_def res_simps)
qed

lemma aggregate_signature_authors_eq:
  assumes "set (iter_ones (validator_bitmask s)) \<subseteq> {..<length (validator_infos vv)}"
  shows "aggregate_signature_authors vv s =
           map (\<lambda>i. info_address (validator_infos vv ! i)) (iter_ones (validator_bitmask s))"
proof -
  have "List.map_filter (\<lambda>i. map_option info_address (nth_opt vs i)) is =
      map (\<lambda>i. info_address (vs ! i)) is" if "set is \<subseteq> {..<length vs}" for "is" :: "nat list" and vs
    using that by (induction "is") (auto simp: map_filter_simps nth_opt_def)
  with assms show ?thesis by (simp add: aggregate_signature_authors_def)
qed

lemma signer_set_subset: "signer_set vv s \<subseteq> members vv"
proof -
  have "set (List.map_filter (\<lambda>i. map_option info_address (nth_opt vs i)) is)
      \<subseteq> info_address ` set vs" for "is" vs
    by (induction "is") (auto simp: map_filter_simps nth_opt_def)
  then show ?thesis
    by (simp add: signer_set_def aggregate_signature_authors_def members_def)
qed

lemma authors_distinct:
  assumes wf: "wf_verifier vv"
    and sub: "set (iter_ones bv) \<subseteq> {..<length (validator_infos vv)}"
  shows "distinct (map (\<lambda>i. info_address (validator_infos vv ! i)) (iter_ones bv))"
proof -
  have "inj_on (\<lambda>i. info_address (validator_infos vv ! i)) {..<length (validator_infos vv)}"
    using wf by (auto simp: wf_verifier_def distinct_conv_nth inj_on_def)
  then show ?thesis using sub by (simp add: distinct_map iter_ones_distinct inj_on_subset)
qed

lemma check_voting_power_quorum:
  assumes wf: "wf_verifier vv" and d: "distinct authors"
    and ok: "check_voting_power vv authors True = Ok p"
  shows "is_quorum vv (set authors)"
proof -
  from ok obtain q where q: "sum_voting_power vv authors = Ok q" "quorum_voting_power vv \<le> q"
    by (auto simp: check_voting_power_def check_aggregated_voting_power_def bind_Ok split: if_splits)
  have "unat q = sum (weight vv) (set authors)"
    using sum_voting_power_Ok(1) [OF q(1)] d by (simp add: sum_list_distinct_conv_sum_set)
  with q(2) have "unat (quorum_voting_power vv) \<le> sum (weight vv) (set authors)"
    by (simp add: word_le_nat_alt)
  moreover have "set authors \<subseteq> members vv"
    using sum_voting_power_Ok(2) [OF q(1)] wf_get_None(1) [OF wf] by auto
  ultimately show ?thesis using wf by (simp add: is_quorum_def)
qed

lemma verify_multi_signatures_Ok:
  assumes wf: "wf_verifier vv" and ok: "verify_multi_signatures C vv message s = Ok u"
  shows "is_quorum vv (signer_set vv s)" and "certifies C vv message s"
proof -
  from ok obtain infos p where infos: "signer_infos vv (validator_bitmask s) = Ok infos"
    and p: "check_voting_power vv (map info_address infos) True = Ok p"
    and sig: "\<exists>sig key. agg_sig s = Some sig \<and>
        bls_aggregate_keys C (map info_public_key infos) = Some key \<and> bls_verify C key message sig"
    by (auto simp: verify_multi_signatures_def res_simps)
  note sel = infos [unfolded signer_infos_Ok]
  have "map info_address infos = aggregate_signature_authors vv s"
    using sel by (simp add: aggregate_signature_authors_eq comp_def)
  moreover have "distinct (map info_address infos)"
    using authors_distinct [OF wf] sel by (simp add: comp_def)
  ultimately show "is_quorum vv (signer_set vv s)"
    using check_voting_power_quorum [OF wf _ p] by (simp add: signer_set_def)
  show "certifies C vv message s"
    using sig sel by (simp add: certifies_def comp_def)
qed

lemma verify_aggregate_signatures_Ok:
  assumes wf: "wf_verifier vv" and ok: "verify_aggregate_signatures C vv messages s = Ok u"
  shows "is_quorum vv (signer_set vv s)"
    and "\<exists>sig. agg_sig s = Some sig \<and> bls_verify_aggregate C sig messages
           (map (\<lambda>i. info_public_key (validator_infos vv ! i)) (iter_ones (validator_bitmask s)))"
proof -
  from ok obtain infos p where infos: "signer_infos vv (validator_bitmask s) = Ok infos"
    and p: "check_voting_power vv (map info_address infos) True = Ok p"
    and sig: "\<exists>sig. agg_sig s = Some sig \<and>
        bls_verify_aggregate C sig messages (map info_public_key infos)"
    by (auto simp: verify_aggregate_signatures_def res_simps)
  note sel = infos [unfolded signer_infos_Ok]
  have "map info_address infos = aggregate_signature_authors vv s"
    using sel by (simp add: aggregate_signature_authors_eq comp_def)
  moreover have "distinct (map info_address infos)"
    using authors_distinct [OF wf] sel by (simp add: comp_def)
  ultimately show "is_quorum vv (signer_set vv s)"
    using check_voting_power_quorum [OF wf _ p] by (simp add: signer_set_def)
  show "\<exists>sig. agg_sig s = Some sig \<and> bls_verify_aggregate C sig messages
      (map (\<lambda>i. info_public_key (validator_infos vv ! i)) (iter_ones (validator_bitmask s)))"
    using sig sel by (simp add: comp_def)
qed

section \<open>Aggregating partial signatures\<close>

text \<open>The index of an author the verifier knows.\<close>

definition index_of :: "validator_verifier \<Rightarrow> account_address \<Rightarrow> nat" where
  "index_of vv a = the (map_of (address_to_validator_index vv) a)"

lemma index_of_member:
  assumes "wf_verifier vv" "a \<in> members vv"
  shows "map_of (address_to_validator_index vv) a = Some (index_of vv a)"
    and "index_of vv a < length (validator_infos vv)"
    and "info_address (validator_infos vv ! index_of vv a) = a"
proof -
  obtain i where "map_of (address_to_validator_index vv) a = Some i"
    using wf_get_None(1) [OF assms(1)] assms(2) by (fastforce simp: get_voting_power_def)
  then show *: "map_of (address_to_validator_index vv) a = Some (index_of vv a)"
    by (simp add: index_of_def)
  then show "index_of vv a < length (validator_infos vv)"
    "info_address (validator_infos vv ! index_of vv a) = a"
    by (simp_all only: wf_index [OF assms(1)])
qed

lemma aggregate_loop:
  assumes "wf_verifier vv" "fst ` set sigs \<subseteq> members vv"
  shows "try_fold
           (\<lambda>(acc, masks) (addr, sig).
              bind (ok_or UnknownAuthor (map_of (address_to_validator_index vv) addr)) (\<lambda>index.
                Ok (acc @ [sig], bv_set masks (word_of_nat index)))) (acc, masks) sigs =
         Ok (acc @ map snd sigs,
             foldl bv_set masks (map (\<lambda>(a, _). word_of_nat (index_of vv a)) sigs))"
  using assms(2)
proof (induction sigs arbitrary: acc masks)
  case (Cons p sigs)
  then show ?case
    using index_of_member(1) [OF assms(1), of "fst p"] by (auto simp: split_beta ok_or_def)
qed simp

lemma length_foldl_bv_set:
  assumes "\<forall>p \<in> set ps. unat p < 8 * length (inner m)"
  shows "length (inner (foldl bv_set m ps)) = length (inner m)"
  using assms
proof (induction ps arbitrary: m)
  case (Cons p ps)
  then have "length (inner (bv_set m p)) = length (inner m)"
    using less_mult_imp_div_less [of "unat p" "length (inner m)" 8] by (simp add: length_bv_set)
  with Cons show ?case by simp
qed simp

lemma required_buckets_pos:
  assumes "0 < n" "n < 65536"
  shows "required_buckets (word_of_nat n) = (n - 1) div 8 + 1"
proof -
  have n: "unat (word_of_nat n :: u16) = n" using assms by (simp add: unat_of_nat)
  then have "1 \<le> (word_of_nat n :: u16)" using assms by (simp add: word_le_nat_alt)
  then have "unat (word_of_nat n - 1 :: u16) = n - 1" by (simp add: unat_sub n)
  with \<open>1 \<le> _\<close> show ?thesis
    by (simp add: required_buckets_def checked_sub_def BUCKET_SIZE_def)
qed

lemma mask_of_indices:
  fixes n :: nat and "is" :: "nat list"
  defines "m \<equiv> foldl bv_set (with_num_bits (word_of_nat n)) (map word_of_nat is)"
  assumes n: "0 < n" "n < 65536" and "is": "set is \<subseteq> {..<n}"
  shows "set (iter_ones m) = set is" and "check_num_of_voters (word_of_nat n) m = Ok ()"
proof -
  let ?m0 = "with_num_bits (word_of_nat n)"
  have len0: "length (inner ?m0) = (n - 1) div 8 + 1"
    by (simp add: with_num_bits_def required_buckets_pos [OF n])
  have unat: "unat (word_of_nat i :: u16) = i" if "i < n" for i
    using that n by (simp add: unat_of_nat)
  have len: "length (inner m) = (n - 1) div 8 + 1"
  proof -
    have "\<forall>p \<in> set (map word_of_nat is :: u16 list). unat p < 8 * length (inner ?m0)"
      using "is" n len0 unat by fastforce
    then show ?thesis unfolding m_def by (simp only: length_foldl_bv_set len0)
  qed
  have wf0: "wf_bv ?m0" using n by (simp add: wf_bv_def len0 MAX_BUCKETS_def)
  have wf: "wf_bv m" unfolding m_def by (rule bv.invar_adds [OF wf0])
  have "positions ?m0 = {}" by (auto simp: positions_def with_num_bits_def)
  then have "set (iter_ones ?m0) = {}" by (simp only: set_iter_ones [OF wf0])
  then have "set (iter_ones m) = unat ` set (map word_of_nat is :: u16 list)"
    unfolding m_def by (simp add: bv.ones_adds [OF wf0])
  also have "\<dots> = set is" using "is" unat by (force simp: image_iff)
  finally show ones: "set (iter_ones m) = set is" .
  have "last (iter_ones m) < n" if "iter_ones m \<noteq> []"
    using that ones "is" by (metis last_in_set lessThan_iff subsetD)
  then have "\<not> word_of_nat n \<le> (word_of_nat (last (iter_ones m)) :: u16)" if "iter_ones m \<noteq> []"
    using that n unat by (simp add: word_le_nat_alt unat_of_nat)
  then show "check_num_of_voters (word_of_nat n) m = Ok ()"
    by (simp add: check_num_of_voters_def num_buckets_def len required_buckets_pos [OF n]
        last_set_bit_iter_ones [OF wf])
qed

lemma try_fold_sum_total:
  assumes "\<forall>a \<in> set authors. get_voting_power vv a \<noteq> None"
    and "unat (acc :: u128) + sum_list (map (weight vv) authors) < 2 ^ 128"
  shows "\<exists>p. try_fold (\<lambda>acc addr. case get_voting_power vv addr of
      Some voting_power \<Rightarrow> unwrap (checked_add acc (ucast voting_power))
    | None \<Rightarrow> Err UnknownAuthor) acc authors = Ok p"
  using assms
proof (induction authors arbitrary: acc)
  case (Cons a authors)
  then obtain w where w: "get_voting_power vv a = Some w" by auto
  then have "weight vv a = unat w" by (simp add: weight_def)
  with Cons.prems(2) have small: "unat acc + unat w + sum_list (map (weight vv) authors) < 2 ^ 128"
    by simp
  then obtain c where c: "checked_add acc (ucast w) = Some c" by (simp add: checked_add_def)
  with small have "unat c + sum_list (map (weight vv) authors) < 2 ^ 128"
    by (simp add: unat_checked_add)
  with Cons w c show ?case by (simp add: unwrap_def)
qed simp

lemma sum_voting_power_total:
  assumes wf: "wf_verifier vv" and d: "distinct authors" and sub: "set authors \<subseteq> members vv"
  shows "\<exists>p. sum_voting_power vv authors = Ok p \<and> unat p = sum (weight vv) (set authors)"
proof -
  have "sum_list (map (weight vv) authors) \<le> sum (weight vv) (members vv)"
    using d sub by (simp add: sum_list_distinct_conv_sum_set sum_mono2)
  also have "\<dots> = unat (total_voting_power vv)" by (simp add: wf_total_power [OF wf])
  also have "\<dots> < 2 ^ 128" by (rule order_less_le_trans [OF unsigned_less]) simp
  finally obtain p where "sum_voting_power vv authors = Ok p"
    using try_fold_sum_total [of authors vv 0] sub wf_get_None(1) [OF wf]
    by (auto simp: sum_voting_power_def)
  then show ?thesis
    using sum_voting_power_Ok(1) d by (auto simp: sum_list_distinct_conv_sum_set)
qed

lemma check_voting_power_complete:
  assumes "is_quorum vv (set authors)" "distinct authors"
  shows "\<exists>p. check_voting_power vv authors True = Ok p"
proof -
  obtain p where "sum_voting_power vv authors = Ok p" "unat p = sum (weight vv) (set authors)"
    using sum_voting_power_total assms by (force simp: is_quorum_def)
  with assms show ?thesis
    by (auto simp: check_voting_power_def check_aggregated_voting_power_def is_quorum_def
        word_less_nat_alt)
qed

text \<open>
  What BLS aggregation provides: shares that verify on one message combine, in any order of their
  keys, into a multi-signature that verifies under the aggregated key.
\<close>

definition aggregation_complete :: "'m crypto \<Rightarrow> 'm \<Rightarrow> bool" where
  "aggregation_complete C message \<longleftrightarrow>
     (\<forall>ps. ps \<noteq> [] \<longrightarrow> list_all (\<lambda>(key, sig). bls_verify C key message sig) ps \<longrightarrow>
        (\<exists>sig. bls_aggregate C (map snd ps) = Some sig \<and>
           (\<forall>keys. mset keys = mset (map fst ps) \<longrightarrow>
              (\<exists>key. bls_aggregate_keys C keys = Some key \<and> bls_verify C key message sig))))"

lemma aggregate_signatures_Ok:
  assumes wf: "wf_verifier vv" and sub: "fst ` set sigs \<subseteq> members vv"
    and agg: "bls_aggregate C (map snd sigs) = Some sig"
  shows "\<exists>s. aggregate_signatures C vv sigs = Ok s \<and> agg_sig s = Some sig \<and>
    set (iter_ones (validator_bitmask s)) = index_of vv ` fst ` set sigs \<and>
    check_num_of_voters (word_of_nat (verifier_len vv)) (validator_bitmask s) = Ok ()"
proof -
  let ?n = "verifier_len vv" and ?is = "map (\<lambda>(a, _). index_of vv a) sigs"
  let ?m = "foldl bv_set (with_num_bits (word_of_nat ?n)) (map word_of_nat ?is)"
  have n: "0 < ?n" "?n < 65536" using wf by (auto simp: wf_verifier_def verifier_len_def)
  have "set ?is \<subseteq> {..<?n}"
    using index_of_member(2) [OF wf] sub by (fastforce simp: verifier_len_def)
  note mask = mask_of_indices [OF n this]
  have "aggregate_signatures C vv sigs = Ok \<lparr>validator_bitmask = ?m, agg_sig = Some sig\<rparr>"
    unfolding aggregate_signatures_def aggregate_loop [OF wf sub]
    by (simp add: agg ok_or_def comp_def split_def)
  moreover have "set ?is = index_of vv ` fst ` set sigs" by force
  ultimately show ?thesis using mask by simp
qed

text \<open>The signers of a certificate whose mask holds the indices of some known authors.\<close>

lemma mask_of_authors:
  assumes wf: "wf_verifier vv" and sub: "set as \<subseteq> members vv" and d: "distinct as"
    and ones: "set (iter_ones (validator_bitmask s)) = index_of vv ` set as"
  shows "set (iter_ones (validator_bitmask s)) \<subseteq> {..<length (validator_infos vv)}"
    and "signer_set vv s = set as"
    and "mset (iter_ones (validator_bitmask s)) = mset (map (index_of vv) as)"
proof -
  show sel: "set (iter_ones (validator_bitmask s)) \<subseteq> {..<length (validator_infos vv)}"
    using ones index_of_member(2) [OF wf] sub by auto
  have "info_address (validator_infos vv ! index_of vv a) = a" if "a \<in> set as" for a
    using index_of_member(3) [OF wf] sub that by blast
  then show "signer_set vv s = set as"
    by (simp add: signer_set_def aggregate_signature_authors_eq [OF sel] ones image_image)
  have "inj_on (index_of vv) (members vv)"
    by (rule inj_on_inverseI [of _ "\<lambda>i. info_address (validator_infos vv ! i)"])
      (rule index_of_member(3) [OF wf])
  then have "distinct (map (index_of vv) as)"
    using d sub by (simp add: distinct_map inj_on_subset)
  then show "mset (iter_ones (validator_bitmask s)) = mset (map (index_of vv) as)"
    using ones iter_ones_distinct [of "validator_bitmask s"]
    by (metis list.set_map set_eq_iff_mset_eq_distinct)
qed

lemma shares_verify:
  assumes wf: "wf_verifier vv" and sub: "fst ` set sigs \<subseteq> members vv"
    and valid: "\<forall>(a, sig) \<in> set sigs. vv_verify C vv a message sig = Ok ()"
  shows "list_all (\<lambda>(key, sig). bls_verify C key message sig)
    (map (\<lambda>(a, sig). (info_public_key (validator_infos vv ! index_of vv a), sig)) sigs)"
proof -
  have "bls_verify C (info_public_key (validator_infos vv ! index_of vv a)) message sig"
    if "(a, sig) \<in> set sigs" for a sig
  proof -
    have "get_public_key vv a = Some (info_public_key (validator_infos vv ! index_of vv a))"
      using index_of_member(1) [OF wf, of a] sub that by (force simp: get_public_key_def)
    with valid that show ?thesis by (fastforce simp: vv_verify_def res_simps)
  qed
  then show ?thesis by (auto simp: list_all_iff)
qed

lemma aggregate_then_verify:
  assumes q: "is_quorum vv (fst ` set sigs)" and d: "distinct (map fst sigs)"
    and valid: "\<forall>(a, sig) \<in> set sigs. vv_verify C vv a message sig = Ok ()"
    and bls: "aggregation_complete C message"
  shows "\<exists>s. aggregate_signatures C vv sigs = Ok s \<and> signer_set vv s = fst ` set sigs \<and>
    verify_multi_signatures C vv message s = Ok ()"
proof -
  from q have wf: "wf_verifier vv" and sub: "fst ` set sigs \<subseteq> members vv"
    by (auto simp: is_quorum_def)
  let ?key = "\<lambda>i. info_public_key (validator_infos vv ! i)"
  let ?ps = "map (\<lambda>(a, sig). (?key (index_of vv a), sig)) sigs"
  have "sigs \<noteq> []" using q wf_quorum_power [OF wf] by (auto simp: is_quorum_def)
  then have "?ps \<noteq> []" by simp
  from bls [unfolded aggregation_complete_def, rule_format, OF this shares_verify [OF wf sub valid]]
  obtain sig where agg: "bls_aggregate C (map snd ?ps) = Some sig"
      and keys: "\<And>keys. mset keys = mset (map fst ?ps) \<Longrightarrow>
        \<exists>key. bls_aggregate_keys C keys = Some key \<and> bls_verify C key message sig"
    by blast
  have snds: "map snd ?ps = map snd sigs" by auto
  obtain s where s: "aggregate_signatures C vv sigs = Ok s" "agg_sig s = Some sig"
    and ones: "set (iter_ones (validator_bitmask s)) = index_of vv ` fst ` set sigs"
    and num: "check_num_of_voters (word_of_nat (verifier_len vv)) (validator_bitmask s) = Ok ()"
    using aggregate_signatures_Ok [OF wf sub agg [unfolded snds]] by blast
  let ?ones = "iter_ones (validator_bitmask s)"
  have "set (map fst sigs) \<subseteq> members vv" "set ?ones = index_of vv ` set (map fst sigs)"
    using sub ones by simp_all
  note sel = mask_of_authors [OF wf this(1) d this(2)]
  note authors = aggregate_signature_authors_eq [OF sel(1)]
  have infos: "signer_infos vv (validator_bitmask s) = Ok (map (nth (validator_infos vv)) ?ones)"
    using sel(1) by (simp add: signer_infos_Ok)
  have "mset (map ?key ?ones) = mset (map fst ?ps)"
    using arg_cong [OF sel(3), of "image_mset ?key"]
    by (simp add: image_mset.compositionality comp_def split_def)
  from keys [OF this] obtain key where
    "bls_aggregate_keys C (map ?key ?ones) = Some key" "bls_verify C key message sig" by blast
  moreover obtain p where "check_voting_power vv (aggregate_signature_authors vv s) True = Ok p"
    using check_voting_power_complete [of vv "aggregate_signature_authors vv s"] q sel(2)
      authors authors_distinct [OF wf sel(1)] by (auto simp: signer_set_def)
  ultimately have "verify_multi_signatures C vv message s = Ok ()"
    by (simp add: verify_multi_signatures_def num infos s(2) authors comp_def ok_or_def ensure_def)
  with s(1) sel(2) show ?thesis by auto
qed

lemma check_voting_power_weak:
  assumes wf: "wf_verifier vv" and d: "distinct authors" and F: "tolerates vv F"
    and ok: "check_voting_power vv authors False = Ok p"
  shows "\<exists>a \<in> set authors. a \<notin> F"
proof (rule ccontr)
  assume none: "\<not> ?thesis"
  from ok obtain q d1 d2 where q: "sum_voting_power vv authors = Ok q"
    and d1: "checked_sub (total_voting_power vv) (quorum_voting_power vv) = Some d1"
    and d2: "checked_add d1 1 = Some d2" and le: "d2 \<le> q"
    by (auto simp: check_voting_power_def check_aggregated_voting_power_def res_simps
        split: if_splits)
  have sub: "set authors \<subseteq> members vv"
    using sum_voting_power_Ok(2) [OF q] wf_get_None(1) [OF wf] by auto
  have "unat q = sum (weight vv) (set authors)"
    using sum_voting_power_Ok(1) [OF q] d by (simp add: sum_list_distinct_conv_sum_set)
  also have "\<dots> \<le> sum (weight vv) (F \<inter> members vv)"
    using none sub by (intro sum_mono2) auto
  finally have "unat q \<le> sum (weight vv) (F \<inter> members vv)" .
  moreover have "sum (weight vv) (members vv) - (sum (weight vv) (members vv) * 2 div 3 + 1) + 1
      \<le> unat q"
    using le unat_checked_add [OF d2] unat_checked_sub [OF d1]
    by (simp add: word_le_nat_alt wf_total_power [OF wf] wf_quorum_power [OF wf])
  ultimately show False using F unfolding tolerates_def by linarith
qed

section \<open>A concrete instance\<close>

text \<open>
  A linear scheme with the interface of the BLS library, on which the properties are applied to
  concrete inputs: the signature of a message under a key is the product of their numbers modulo
  256, and aggregation adds. It has no security, and the assumptions about aggregation hold in it.
\<close>

fun key_number :: "public_key \<Rightarrow> u8" where
  "key_number (PublicKey bytes) = sum_list bytes"

fun signature_number :: "signature \<Rightarrow> u8" where
  "signature_number (Signature bytes) = sum_list bytes"

fun secret_number :: "private_key \<Rightarrow> u8" where
  "secret_number (PrivateKey bytes) = sum_list bytes"

definition linear_crypto :: "('m \<Rightarrow> u8) \<Rightarrow> 'm crypto" where
  "linear_crypto h =
     \<lparr>bls_verify = (\<lambda>key message sig. signature_number sig = key_number key * h message),
      bls_aggregate = (\<lambda>sigs. if sigs = [] then None
                        else Some (Signature [sum_list (map signature_number sigs)])),
      bls_aggregate_keys = (\<lambda>keys. if keys = [] then None
                        else Some (PublicKey [sum_list (map key_number keys)])),
      bls_verify_aggregate = (\<lambda>sig messages keys. length messages = length keys \<and>
         signature_number sig =
           sum_list (map (\<lambda>(key, message). key_number key * h message) (zip keys messages))),
      bls_sign = (\<lambda>key message. Some (Signature [secret_number key * h message])),
      bls_public_key = (\<lambda>key. PublicKey [secret_number key])\<rparr>"

definition sample_infos :: "validator_consensus_info list" where
  "sample_infos =
     map (\<lambda>i. \<lparr>info_address = word_of_nat i, info_public_key = PublicKey [word_of_nat i],
               info_voting_power = 1\<rparr>) [1, 2, 3, 4]"

definition sample_verifier :: validator_verifier where
  "sample_verifier = build_index sample_infos 3 4"

lemma linear_crypto_complete: "aggregation_complete (linear_crypto h) message"
proof -
  have lin: "sum_list (map (signature_number \<circ> snd) ps) =
      sum_list (map (key_number \<circ> fst) ps) * h message"
    if "list_all (\<lambda>(key, sig). signature_number sig = key_number key * h message) ps" for ps
    using that by (induction ps) (auto simp: distrib_right)
  have "sum_list (map key_number keys) = sum_list (map (key_number \<circ> fst) ps)"
    if "mset keys = mset (map fst ps)" for keys and ps :: "(public_key \<times> signature) list"
  proof -
    have "sum_mset (image_mset key_number (mset keys)) =
        sum_mset (image_mset key_number (mset (map fst ps)))" using that by simp
    then show ?thesis by (metis list.map_comp mset_map sum_mset_sum_list)
  qed
  then show ?thesis
    using lin by (auto simp: aggregation_complete_def linear_crypto_def)
qed

lemma sample_new: "validator_verifier_new sample_infos = (Ok sample_verifier :: (unit, _) res)"
  by code_simp

lemma wf_sample: "wf_verifier sample_verifier"
proof -
  have "validator_infos sample_verifier = sample_infos"
    by (simp add: sample_verifier_def build_index_def)
  moreover have "distinct (map info_address sample_infos)" by code_simp
  moreover have "sample_infos \<noteq> []" "length sample_infos < 65536" by (simp_all add: sample_infos_def)
  ultimately show ?thesis using sample_new by (simp add: wf_verifier_def verifier_len_def)
qed

lemma members_sample: "members sample_verifier = {1, 2, 3, 4}"
  by (simp add: members_def sample_verifier_def build_index_def sample_infos_def)

lemma weight_sample: "a \<in> {1, 2, 3, 4} \<Longrightarrow> weight sample_verifier a = 1"
proof -
  have "\<forall>a \<in> set [1, 2, 3, 4]. weight sample_verifier a = 1" by code_simp
  then show "a \<in> {1, 2, 3, 4} \<Longrightarrow> weight sample_verifier a = 1" by auto
qed

lemma tolerates_sample: "tolerates sample_verifier {4}"
proof -
  have "{4} \<inter> members sample_verifier = {4}" by (simp add: members_sample)
  then show ?thesis by (simp add: tolerates_def members_sample weight_sample)
qed

section \<open>Properties\<close>

text \<open>
  C5. Quorum intersection: when \<^verbatim>\<open>check_voting_power\<close> with a super majority accepts two lists of
  distinct authors for a validator set built by \<^verbatim>\<open>ValidatorVerifier::new\<close>, then the lists share a
  validator that is not faulty, as long as the faulty validators hold less than a third of the
  total voting power.
\<close>

theorem quorum_intersection:
  assumes "wf_verifier vv" "tolerates vv F"
    and "distinct as" "check_voting_power vv as True = Ok p"
    and "distinct bs" "check_voting_power vv bs True = Ok q"
  shows "\<exists>v. v \<in> set as \<and> v \<in> set bs \<and> v \<notin> F"
  using assms by (blast intro: vq.intersection check_voting_power_quorum)

theorem quorum_intersection_witness:
  "check_voting_power sample_verifier [1, 2, 4] True = Ok 3 \<and>
   check_voting_power sample_verifier [2, 3, 4] True = Ok 3 \<and>
   (\<exists>v. v \<in> set [1, 2, 4] \<and> v \<in> set [2, 3, 4] \<and> v \<notin> {4 :: account_address})"
proof -
  have ok: "check_voting_power sample_verifier [1, 2, 4] True = Ok 3"
    "check_voting_power sample_verifier [2, 3, 4] True = Ok 3" by code_simp+
  have "distinct [1, 2, 4 :: account_address]" "distinct [2, 3, 4 :: account_address]" by simp_all
  from quorum_intersection [OF wf_sample tolerates_sample this(1) ok(1) this(2) ok(2)] ok
  show ?thesis by blast
qed

text \<open>
  The one-third check: when \<^verbatim>\<open>check_voting_power\<close> without a super majority accepts a list of
  distinct authors, one of them is not faulty.
\<close>

theorem one_third_has_correct:
  assumes "wf_verifier vv" "distinct authors" "tolerates vv F"
    and "check_voting_power vv authors False = Ok p"
  shows "\<exists>a. a \<in> set authors \<and> a \<notin> F"
  using check_voting_power_weak [OF assms] by blast

theorem one_third_has_correct_witness:
  "check_voting_power sample_verifier [4, 1] False = Ok 2 \<and>
   (\<exists>a. a \<in> set [4, 1] \<and> a \<notin> {4 :: account_address})"
proof -
  have ok: "check_voting_power sample_verifier [4, 1] False = Ok 2" by code_simp
  have "distinct [4, 1 :: account_address]" by simp
  from one_third_has_correct [OF wf_sample this tolerates_sample ok] ok show ?thesis by blast
qed

text \<open>
  C29. Aggregation is complete: when distinct authors that form a quorum give signatures that verify
  one by one, then \<^verbatim>\<open>aggregate_signatures\<close> returns a certificate whose signers are exactly those
  authors, and \<^verbatim>\<open>verify_multi_signatures\<close> accepts it. The hypothesis on the BLS library is that valid
  shares aggregate to a valid multi-signature.
\<close>

theorem aggregated_certificate_verifies:
  assumes "is_quorum vv (fst ` set sigs)" "distinct (map fst sigs)"
    and "\<forall>(a, sig) \<in> set sigs. vv_verify C vv a message sig = Ok ()"
    and "aggregation_complete C message"
  shows "\<exists>s. aggregate_signatures C vv sigs = Ok s \<and> signer_set vv s = fst ` set sigs \<and>
    verify_multi_signatures C vv message s = Ok ()"
  by (rule aggregate_then_verify [OF assms])

theorem aggregated_certificate_verifies_witness:
  "\<exists>s. aggregate_signatures (linear_crypto (\<lambda>m. m)) sample_verifier
         [(1, Signature [7]), (3, Signature [21]), (4, Signature [28])] = Ok s \<and>
       signer_set sample_verifier s = {1, 3, 4} \<and>
       verify_multi_signatures (linear_crypto (\<lambda>m. m)) sample_verifier 7 s = Ok ()"
proof -
  let ?sigs = "[(1, Signature [7]), (3, Signature [21]), (4, Signature [28])]
    :: (account_address \<times> signature) list"
  have "sum (weight sample_verifier) {1, 3, 4} = 3" by (simp add: weight_sample)
  moreover have "unat (quorum_voting_power sample_verifier) = 3"
    by (simp add: sample_verifier_def build_index_def)
  ultimately have q: "is_quorum sample_verifier (fst ` set ?sigs)"
    by (simp add: is_quorum_def wf_sample members_sample)
  have "list_all (\<lambda>(a, sig). vv_verify (linear_crypto (\<lambda>m. m)) sample_verifier a 7 sig = Ok ()) ?sigs"
    by code_simp
  then have v: "\<forall>(a, sig) \<in> set ?sigs.
      vv_verify (linear_crypto (\<lambda>m. m)) sample_verifier a 7 sig = Ok ()"
    by (simp add: list_all_iff)
  have "distinct (map fst ?sigs)" by simp
  from aggregated_certificate_verifies [OF q this v linear_crypto_complete] show ?thesis by simp
qed

end
