(* ===== verification/Ledger_Types.thy ===== *)
theory Ledger_Types
  imports Validator_Verifier
begin

text \<open>
  What the validators sign: \<^verbatim>\<open>types/src/block_info.rs\<close>, \<^verbatim>\<open>types/src/epoch_state.rs\<close>, the ledger info
  of \<^verbatim>\<open>types/src/ledger_info.rs\<close>, and the conversion of the on-chain validator set into a verifier
  (\<^verbatim>\<open>types/src/validator_verifier.rs\<close>, \<^verbatim>\<open>types/src/on_chain_config/validator_set.rs\<close>). The lemmas
  show that executing an ordered block keeps what was agreed on about it, and that the conversion
  places every validator at its own index.
\<close>

section \<open>Errors\<close>

text \<open>
  The dynamic \<^verbatim>\<open>anyhow::Error\<close>: a message, a converted \<^verbatim>\<open>VerifyError\<close>, or an error with context.
\<close>

datatype anyhow_error =
    Msg string
  | VerifyErr verify_error
  | Context string anyhow_error

section \<open>Block infos\<close>

record epoch_state =
  es_epoch :: u64
  es_verifier :: validator_verifier

record block_info =
  bi_epoch :: u64
  bi_round :: round
  bi_id :: hash_value
  bi_executed_state_id :: hash_value
  bi_version :: version
  bi_timestamp_usecs :: u64
  bi_next_epoch_state :: "epoch_state option"

definition GENESIS_EPOCH :: u64 where "GENESIS_EPOCH = 0"
definition GENESIS_ROUND :: round where "GENESIS_ROUND = 0"
definition GENESIS_VERSION :: version where "GENESIS_VERSION = 0"
definition GENESIS_TIMESTAMP_USECS :: u64 where "GENESIS_TIMESTAMP_USECS = 0"

text \<open>The bytes of a short literal, padded with zeros to the length of a hash.\<close>

definition create_literal_hash :: "string \<Rightarrow> hash_value" where
  "create_literal_hash w =
     foldl (\<lambda>acc b. acc * 256 + b) 0
       (map (\<lambda>c. of_char c) w @ replicate (32 - length w) 0)"

definition ACCUMULATOR_PLACEHOLDER_HASH :: hash_value where
  "ACCUMULATOR_PLACEHOLDER_HASH = create_literal_hash ''ACCUMULATOR_PLACEHOLDER_HASH''"

definition epoch_state_empty :: "('e, epoch_state) res" where
  "epoch_state_empty =
     bind (validator_verifier_new []) (\<lambda>vv. Ok \<lparr>es_epoch = 0, es_verifier = vv\<rparr>)"

definition block_info_empty :: block_info where
  "block_info_empty =
     \<lparr>bi_epoch = 0, bi_round = 0, bi_id = 0, bi_executed_state_id = 0, bi_version = 0,
      bi_timestamp_usecs = 0, bi_next_epoch_state = None\<rparr>"

definition bi_is_empty :: "block_info \<Rightarrow> bool" where
  "bi_is_empty bi \<longleftrightarrow> bi = block_info_empty"

definition next_block_epoch :: "block_info \<Rightarrow> u64" where
  "next_block_epoch bi =
     (case bi_next_epoch_state bi of None \<Rightarrow> bi_epoch bi | Some e \<Rightarrow> es_epoch e)"

definition has_reconfiguration :: "block_info \<Rightarrow> bool" where
  "has_reconfiguration bi \<longleftrightarrow> bi_next_epoch_state bi \<noteq> None"

definition allow_timestamp_change :: "block_info \<Rightarrow> u64 \<Rightarrow> bool" where
  "allow_timestamp_change bi timestamp \<longleftrightarrow>
     has_reconfiguration bi \<and> bi_timestamp_usecs bi \<ge> timestamp"

definition change_timestamp :: "block_info \<Rightarrow> u64 \<Rightarrow> ('e, block_info) res" where
  "change_timestamp bi timestamp =
     bind (assert (allow_timestamp_change bi timestamp)) (\<lambda>_.
       Ok (bi\<lparr>bi_timestamp_usecs := timestamp\<rparr>))"

definition match_ordered_only :: "block_info \<Rightarrow> block_info \<Rightarrow> bool" where
  "match_ordered_only bi executed \<longleftrightarrow>
     bi_epoch bi = bi_epoch executed \<and>
     bi_round bi = bi_round executed \<and>
     bi_id bi = bi_id executed \<and>
     (bi_timestamp_usecs bi = bi_timestamp_usecs executed \<or>
      bi_timestamp_usecs bi > bi_timestamp_usecs executed \<and> has_reconfiguration executed)"

definition is_ordered_only :: "block_info \<Rightarrow> bool" where
  "is_ordered_only bi \<longleftrightarrow>
     bi \<noteq> block_info_empty \<and> bi_next_epoch_state bi = None \<and>
     bi_executed_state_id bi = ACCUMULATOR_PLACEHOLDER_HASH \<and> bi_version bi = 0"

section \<open>Ledger infos\<close>

record ledger_info =
  li_commit_info :: block_info
  li_consensus_data_hash :: hash_value

definition ledger_info_dummy :: ledger_info where
  "ledger_info_dummy = \<lparr>li_commit_info = block_info_empty, li_consensus_data_hash = 0\<rparr>"

definition li_is_dummy :: "ledger_info \<Rightarrow> bool" where
  "li_is_dummy li \<longleftrightarrow> bi_is_empty (li_commit_info li) \<and> li_consensus_data_hash li = 0"

definition li_epoch :: "ledger_info \<Rightarrow> u64" where
  "li_epoch li = bi_epoch (li_commit_info li)"

definition li_next_block_epoch :: "ledger_info \<Rightarrow> u64" where
  "li_next_block_epoch li = next_block_epoch (li_commit_info li)"

definition li_round :: "ledger_info \<Rightarrow> round" where
  "li_round li = bi_round (li_commit_info li)"

definition li_consensus_block_id :: "ledger_info \<Rightarrow> hash_value" where
  "li_consensus_block_id li = bi_id (li_commit_info li)"

definition li_transaction_accumulator_hash :: "ledger_info \<Rightarrow> hash_value" where
  "li_transaction_accumulator_hash li = bi_executed_state_id (li_commit_info li)"

definition li_version :: "ledger_info \<Rightarrow> version" where
  "li_version li = bi_version (li_commit_info li)"

definition li_timestamp_usecs :: "ledger_info \<Rightarrow> u64" where
  "li_timestamp_usecs li = bi_timestamp_usecs (li_commit_info li)"

definition li_next_epoch_state :: "ledger_info \<Rightarrow> epoch_state option" where
  "li_next_epoch_state li = bi_next_epoch_state (li_commit_info li)"

definition li_ends_epoch :: "ledger_info \<Rightarrow> bool" where
  "li_ends_epoch li \<longleftrightarrow> li_next_epoch_state li \<noteq> None"

text \<open>
  The messages validators sign. Each Rust type hashes with its own seed, so values of different
  types are never the same message. The parameter is the type of the remaining consensus messages
  (proposals and batches), which are defined in later theories.
\<close>

datatype 'p signable =
    SLedgerInfo ledger_info
  | STimeout u64 round round
  | SConsensus 'p

record ledger_info_with_signatures =
  liws_ledger_info :: ledger_info
  liws_signatures :: aggregate_signature

definition liws_commit_info :: "ledger_info_with_signatures \<Rightarrow> block_info" where
  "liws_commit_info l = li_commit_info (liws_ledger_info l)"

definition get_voters ::
    "ledger_info_with_signatures \<Rightarrow> account_address list \<Rightarrow> account_address list" where
  "get_voters l validator_addresses = get_signers_addresses (liws_signatures l) validator_addresses"

definition verify_signatures ::
    "'p signable crypto \<Rightarrow> ledger_info_with_signatures \<Rightarrow> validator_verifier
       \<Rightarrow> (verify_error, unit) res" where
  "verify_signatures C l validator =
     verify_multi_signatures C validator (SLedgerInfo (liws_ledger_info l)) (liws_signatures l)"

definition liws_check_voting_power ::
    "ledger_info_with_signatures \<Rightarrow> validator_verifier \<Rightarrow> (verify_error, u128) res" where
  "liws_check_voting_power l validator =
     check_voting_power validator (get_voters l (get_ordered_account_addresses validator)) True"

text \<open>\<^verbatim>\<open>LedgerInfoWithVerifiedSignatures\<close>.\<close>

record ledger_info_with_verified_signatures =
  liwvs_ledger_info :: ledger_info
  liwvs_partial_sigs :: partial_signatures

definition liwvs_remove_signature ::
    "ledger_info_with_verified_signatures \<Rightarrow> account_address
       \<Rightarrow> ledger_info_with_verified_signatures" where
  "liwvs_remove_signature l validator =
     l\<lparr>liwvs_partial_sigs := snd (remove_signature (liwvs_partial_sigs l) validator)\<rparr>"

definition liwvs_add_signature ::
    "ledger_info_with_verified_signatures \<Rightarrow> account_address \<Rightarrow> signature
       \<Rightarrow> ledger_info_with_verified_signatures" where
  "liwvs_add_signature l validator sig =
     l\<lparr>liwvs_partial_sigs := add_signature (liwvs_partial_sigs l) validator sig\<rparr>"

definition liwvs_aggregate_signatures ::
    "'p signable crypto \<Rightarrow> ledger_info_with_verified_signatures \<Rightarrow> validator_verifier
       \<Rightarrow> (verify_error, ledger_info_with_signatures) res" where
  "liwvs_aggregate_signatures C l verifier =
     bind (aggregate_signatures C verifier (signatures (liwvs_partial_sigs l))) (\<lambda>aggregated_sig.
       Ok \<lparr>liws_ledger_info = liwvs_ledger_info l, liws_signatures = aggregated_sig\<rparr>)"

section \<open>Epoch states as verifiers\<close>

definition es_verify ::
    "'p signable crypto \<Rightarrow> epoch_state \<Rightarrow> ledger_info_with_signatures \<Rightarrow> (anyhow_error, unit) res"
where
  "es_verify C es l =
     bind (ensure (es_epoch es = li_epoch (liws_ledger_info l))
             (Msg ''LedgerInfo has unexpected epoch'')) (\<lambda>_.
       map_err VerifyErr (verify_signatures C l (es_verifier es)))"

definition es_epoch_change_verification_required :: "epoch_state \<Rightarrow> u64 \<Rightarrow> bool" where
  "es_epoch_change_verification_required es e \<longleftrightarrow> es_epoch es < e"

definition es_is_ledger_info_stale :: "epoch_state \<Rightarrow> ledger_info \<Rightarrow> bool" where
  "es_is_ledger_info_stale es li \<longleftrightarrow> li_epoch li < es_epoch es"

section \<open>The on-chain validator set\<close>

record validator_config =
  consensus_public_key :: public_key
  validator_network_addresses :: "u8 list"
  fullnode_network_addresses :: "u8 list"
  validator_index :: u64

record validator_info =
  vi_account_address :: account_address
  vi_consensus_voting_power :: u64
  vi_config :: validator_config

record validator_set =
  active_validators :: "validator_info list"
  pending_inactive :: "validator_info list"
  pending_active :: "validator_info list"
  vs_total_voting_power :: u128
  vs_total_joining_power :: u128

definition payload :: "validator_set \<Rightarrow> validator_info list" where
  "payload vs = active_validators vs @ pending_inactive vs"

definition to_consensus_info :: "validator_info \<Rightarrow> validator_consensus_info" where
  "to_consensus_info info =
     \<lparr>info_address = vi_account_address info,
      info_public_key = consensus_public_key (vi_config info),
      info_voting_power = vi_consensus_voting_power info\<rparr>"

definition validator_verifier_from :: "validator_set \<Rightarrow> ('e, validator_verifier) res" where
  "validator_verifier_from vs =
     (let sorted_validator_infos = btree_collect
            (map (\<lambda>info. (validator_index (vi_config info), to_consensus_info info)) (payload vs));
          infos = map snd sorted_validator_infos
      in bind (try_fold (\<lambda>_ info.
                 bind (unwrap (nth_opt infos (unat (validator_index (vi_config info)))))
                   (\<lambda>ci. assert (info_address ci = vi_account_address info))) () (payload vs))
           (\<lambda>_. validator_verifier_new infos))"

definition block_info_genesis :: "hash_value \<Rightarrow> validator_set \<Rightarrow> ('e, block_info) res" where
  "block_info_genesis genesis_state_root_hash vs =
     bind (validator_verifier_from vs) (\<lambda>verifier. Ok
       \<lparr>bi_epoch = GENESIS_EPOCH, bi_round = GENESIS_ROUND, bi_id = 0,
        bi_executed_state_id = genesis_state_root_hash, bi_version = GENESIS_VERSION,
        bi_timestamp_usecs = GENESIS_TIMESTAMP_USECS,
        bi_next_epoch_state = Some \<lparr>es_epoch = 1, es_verifier = verifier\<rparr>\<rparr>)"

definition liws_genesis ::
    "hash_value \<Rightarrow> validator_set \<Rightarrow> ('e, ledger_info_with_signatures) res" where
  "liws_genesis genesis_state_root_hash vs =
     bind (block_info_genesis genesis_state_root_hash vs) (\<lambda>bi. Ok
       \<lparr>liws_ledger_info = \<lparr>li_commit_info = bi, li_consensus_data_hash = 0\<rparr>,
        liws_signatures = agg_sig_empty\<rparr>)"

lemmas li_defs = li_epoch_def li_next_block_epoch_def li_round_def li_consensus_block_id_def
  li_transaction_accumulator_hash_def li_version_def li_timestamp_usecs_def
  li_next_epoch_state_def li_ends_epoch_def liws_commit_info_def

section \<open>Verified ledger infos\<close>

lemma verify_signatures_Ok:
  assumes "wf_verifier vv" "verify_signatures C l vv = Ok u"
  shows "is_quorum vv (signer_set vv (liws_signatures l))"
    and "certifies C vv (SLedgerInfo (liws_ledger_info l)) (liws_signatures l)"
  using verify_multi_signatures_Ok [OF assms(1)] assms(2) by (auto simp: verify_signatures_def)

lemma es_verify_Ok:
  "es_verify C es l = Ok u \<longleftrightarrow>
     es_epoch es = li_epoch (liws_ledger_info l) \<and> verify_signatures C l (es_verifier es) = Ok ()"
  by (auto simp: es_verify_def res_simps)

lemma required_buckets_le: "required_buckets n \<le> MAX_BUCKETS"
proof (cases "checked_sub n 1")
  case (Some p)
  have "unat p < 65536" using unsigned_less [of p, where ?'a = nat] by simp
  then have "unat p div 8 < 8192" by (simp add: div8_less_iff)
  with Some show ?thesis by (simp add: required_buckets_def BUCKET_SIZE_def MAX_BUCKETS_def)
qed (simp add: required_buckets_def)

lemma check_num_of_voters_wf: "check_num_of_voters n bv = Ok u \<Longrightarrow> wf_bv bv"
  using required_buckets_le [of n]
  by (auto simp: check_num_of_voters_def wf_bv_def num_buckets_def split: if_splits)

lemma map_filter_if:
  "List.map_filter (\<lambda>(i, x). if P i then Some x else None) ps = map snd (filter (\<lambda>(i, x). P i) ps)"
  by (induction ps) (auto simp: map_filter_simps)

lemma signers_addresses_authors:
  assumes wf: "wf_verifier vv"
    and num: "check_num_of_voters (word_of_nat (verifier_len vv)) (validator_bitmask sig) = Ok ()"
    and infos: "signer_infos vv (validator_bitmask sig) = Ok infos"
  shows "get_signers_addresses sig (get_ordered_account_addresses vv) =
           aggregate_signature_authors vv sig"
proof -
  let ?m = "validator_bitmask sig" and ?as = "get_ordered_account_addresses vv"
  have sel: "set (iter_ones ?m) \<subseteq> {..<length (validator_infos vv)}"
    using infos by (simp add: signer_infos_Ok)
  have "get_signers_addresses sig ?as = map (nth ?as) (iter_ones ?m)"
    using bv.selected [of ?m ?as] check_num_of_voters_wf [OF num] sel wf
    by (simp add: get_signers_addresses_def map_filter_if
        get_ordered_account_addresses_def wf_verifier_def verifier_len_def)
  also have "\<dots> = aggregate_signature_authors vv sig"
    using sel by (auto simp: aggregate_signature_authors_eq get_ordered_account_addresses_def)
  finally show ?thesis .
qed

lemma get_voters_signers:
  assumes wf: "wf_verifier vv" and ok: "verify_signatures C l vv = Ok u"
  shows "get_voters l (get_ordered_account_addresses vv) =
           aggregate_signature_authors vv (liws_signatures l)"
  using signers_addresses_authors [OF wf, of "liws_signatures l"] ok
  by (auto simp: get_voters_def verify_signatures_def verify_multi_signatures_def res_simps)

lemma verified_voters_have_quorum:
  assumes wf: "wf_verifier vv" and ok: "verify_signatures C l vv = Ok u"
  shows "\<exists>p. liws_check_voting_power l vv = Ok p"
proof -
  have "distinct (aggregate_signature_authors vv (liws_signatures l))"
    using ok authors_distinct [OF wf]
    by (fastforce simp: verify_signatures_def verify_multi_signatures_def res_simps
        signer_infos_Ok aggregate_signature_authors_eq)
  then show ?thesis
    using check_voting_power_complete verify_signatures_Ok(1) [OF wf ok] get_voters_signers [OF wf ok]
    by (simp add: liws_check_voting_power_def signer_set_def)
qed

section \<open>Executing an ordered block\<close>

lemma match_ordered_only_change_timestamp:
  assumes "match_ordered_only bi executed" "change_timestamp executed timestamp = Ok executed'"
  shows "match_ordered_only bi executed' \<and> bi_timestamp_usecs executed' = timestamp"
proof -
  from assms(2) have e: "executed' = executed\<lparr>bi_timestamp_usecs := timestamp\<rparr>"
    and c: "allow_timestamp_change executed timestamp"
    by (auto simp: change_timestamp_def res_simps)
  from c have "has_reconfiguration executed'" "timestamp \<le> bi_timestamp_usecs executed"
    by (simp_all add: allow_timestamp_change_def has_reconfiguration_def e)
  with assms(1) show ?thesis by (auto simp: match_ordered_only_def e)
qed

section \<open>The verifier of a validator set\<close>

lemma try_fold_unit_Ok:
  "try_fold (\<lambda>_ x. f x) () xs = Ok u \<longleftrightarrow> (\<forall>x \<in> set xs. f x = Ok ())"
  by (induction xs) (auto simp: bind_Ok)

lemma set_btree_collect: "set (btree_collect es) \<subseteq> set es"
proof -
  have ins: "set (btree_insert k v m) \<subseteq> insert (k, v) (set m)" for k :: 'a and v :: 'b and m
    by (induction k v m rule: btree_insert.induct) auto
  have "set (foldl (\<lambda>m (k, v). btree_insert k v m) m es) \<subseteq> set m \<union> set es" for m
  proof (induction es arbitrary: m)
    case (Cons e es)
    show ?case using Cons.IH [of "case e of (k, v) \<Rightarrow> btree_insert k v m"] ins by (cases e) fastforce
  qed simp
  from this [of "[]"] show ?thesis by (simp add: btree_collect_def)
qed

lemma length_btree_collect: "length (btree_collect es) \<le> length es"
proof -
  have ins: "length (btree_insert k v m) \<le> Suc (length m)" for k :: 'a and v :: 'b and m
    by (induction k v m rule: btree_insert.induct) auto
  have "length (foldl (\<lambda>m (k, v). btree_insert k v m) m es) \<le> length m + length es" for m
  proof (induction es arbitrary: m)
    case (Cons e es)
    obtain k v where e: "e = (k, v)" by (cases e)
    from Cons.IH [of "btree_insert k v m"] ins [of k v m] show ?case by (simp add: e)
  qed simp
  from this [of "[]"] show ?thesis by (simp add: btree_collect_def)
qed

lemma validator_verifier_from_Ok:
  assumes ok: "validator_verifier_from vs = (Ok vv :: ('e, validator_verifier) res)"
    and d: "distinct (map vi_account_address (payload vs))"
  shows "\<forall>info \<in> set (payload vs).
      nth_opt (validator_infos vv) (unat (validator_index (vi_config info))) =
        Some (to_consensus_info info)"
    and "length (validator_infos vv) = length (payload vs)"
    and "distinct (map info_address (validator_infos vv))"
proof -
  let ?idx = "\<lambda>info. unat (validator_index (vi_config info))"
  define infos where "infos = map snd (btree_collect
      (map (\<lambda>info. (validator_index (vi_config info), to_consensus_info info)) (payload vs)))"
  from ok have at: "\<forall>info \<in> set (payload vs). \<exists>ci. nth_opt infos (?idx info) = Some ci \<and>
        info_address ci = vi_account_address info"
    and new: "validator_verifier_new infos = (Ok vv :: ('e, validator_verifier) res)"
    by (auto simp: validator_verifier_from_def Let_def res_simps try_fold_unit_Ok infos_def)
  have vinfos: "validator_infos vv = infos" by (rule new_Ok(1) [OF new])
  have sub: "set infos \<subseteq> to_consensus_info ` set (payload vs)"
    using set_btree_collect by (fastforce simp: infos_def)
  have addr: "vi_account_address i = vi_account_address j \<longleftrightarrow> i = j"
    if "i \<in> set (payload vs)" "j \<in> set (payload vs)" for i j
    using d that by (auto simp: distinct_map inj_on_def)
  have nth: "nth_opt infos (?idx info) = Some (to_consensus_info info)"
    if info: "info \<in> set (payload vs)" for info
  proof -
    from at info obtain ci where ci: "nth_opt infos (?idx info) = Some ci"
      "info_address ci = vi_account_address info" by blast
    then have "ci \<in> set infos" by (auto simp: nth_opt_iffs)
    then obtain j where "j \<in> set (payload vs)" "ci = to_consensus_info j" using sub by blast
    with ci addr info show ?thesis by (auto simp: to_consensus_info_def)
  qed
  then show "\<forall>info \<in> set (payload vs).
      nth_opt (validator_infos vv) (?idx info) = Some (to_consensus_info info)"
    by (simp add: vinfos)
  have "set infos = to_consensus_info ` set (payload vs)"
    using sub nth by (fastforce simp: nth_opt_iffs)
  then have set_addr: "set (map info_address infos) = set (map vi_account_address (payload vs))"
    by (simp add: image_image to_consensus_info_def)
  have "length infos \<le> length (payload vs)"
    by (auto simp: infos_def intro: order_trans [OF length_btree_collect])
  moreover have "length (payload vs) = card (set (map info_address infos))"
    using d set_addr by (metis distinct_card length_map)
  moreover have "card (set (map info_address infos)) \<le> length infos"
    by (metis card_length length_map)
  ultimately have len: "length infos = card (set (map info_address infos))" by linarith
  then show "distinct (map info_address (validator_infos vv))"
    by (simp add: vinfos card_distinct)
  show "length (validator_infos vv) = length (payload vs)"
    using len \<open>length (payload vs) = _\<close> by (simp add: vinfos)
qed

section \<open>Properties\<close>

text \<open>
  A ledger info that \<^verbatim>\<open>EpochState::verify\<close> accepts is of that epoch, carries a signature that
  verifies under the aggregated keys of its signers, and its signers form a quorum of the epoch's
  validators. The voters that \<^verbatim>\<open>get_voters\<close> lists are exactly those signers, and
  \<^verbatim>\<open>LedgerInfoWithV0::check_voting_power\<close> accepts them.
\<close>

theorem verified_ledger_info_has_quorum:
  assumes "wf_verifier (es_verifier es)" "es_verify C es l = Ok ()"
  shows "li_epoch (liws_ledger_info l) = es_epoch es \<and>
    is_quorum (es_verifier es) (signer_set (es_verifier es) (liws_signatures l)) \<and>
    certifies C (es_verifier es) (SLedgerInfo (liws_ledger_info l)) (liws_signatures l) \<and>
    set (get_voters l (get_ordered_account_addresses (es_verifier es))) =
      signer_set (es_verifier es) (liws_signatures l) \<and>
    (\<exists>p. liws_check_voting_power l (es_verifier es) = Ok p)"
proof -
  from assms(2) have e: "es_epoch es = li_epoch (liws_ledger_info l)"
    and ok: "verify_signatures C l (es_verifier es) = Ok ()" by (simp_all add: es_verify_Ok)
  show ?thesis
    using e verify_signatures_Ok [OF assms(1) ok] get_voters_signers [OF assms(1) ok]
      verified_voters_have_quorum [OF assms(1) ok]
    by (simp add: signer_set_def)
qed

theorem verified_ledger_info_has_quorum_witness:
  "\<exists>l. es_verify (linear_crypto (\<lambda>_ :: unit signable. 5))
         \<lparr>es_epoch = 0, es_verifier = sample_verifier\<rparr> l = Ok () \<and>
       set (get_voters l (get_ordered_account_addresses sample_verifier)) = {1, 2, 3}"
proof -
  let ?C = "linear_crypto (\<lambda>_ :: unit signable. 5)"
  let ?es = "\<lparr>es_epoch = 0, es_verifier = sample_verifier\<rparr>"
  let ?l = "\<lparr>liws_ledger_info = ledger_info_dummy,
    liws_signatures = \<lparr>validator_bitmask = \<lparr>inner = [0xE0]\<rparr>, agg_sig = Some (Signature [30])\<rparr>\<rparr>"
  have ok: "es_verify ?C ?es ?l = Ok ()" by code_simp
  have "aggregate_signature_authors sample_verifier (liws_signatures ?l) = [1, 2, 3]" by code_simp
  then have "signer_set sample_verifier (liws_signatures ?l) = {1, 2, 3}"
    by (simp add: signer_set_def)
  with verified_ledger_info_has_quorum [OF _ ok] wf_sample ok show ?thesis
    by (metis epoch_state.select_convs(2))
qed

text \<open>
  The conversion of an on-chain validator set, whose validators have distinct addresses, keeps
  every validator at its own index: \<^verbatim>\<open>validator_infos[i]\<close> is the validator whose \<^verbatim>\<open>validator_index\<close> is
  \<^verbatim>\<open>i\<close>, there are no others, and the addresses are distinct.
\<close>

theorem validator_set_conversion_by_index:
  assumes "validator_verifier_from vs = (Ok vv :: (unit, validator_verifier) res)"
    and "distinct (map vi_account_address (payload vs))"
  shows "(\<forall>info \<in> set (payload vs).
      nth_opt (validator_infos vv) (unat (validator_index (vi_config info))) =
        Some (to_consensus_info info)) \<and>
    length (validator_infos vv) = length (payload vs) \<and>
    distinct (map info_address (validator_infos vv))"
  using validator_verifier_from_Ok [OF assms] by blast

definition sample_validator :: "nat \<Rightarrow> nat \<Rightarrow> validator_info" where
  "sample_validator a i =
     \<lparr>vi_account_address = word_of_nat a, vi_consensus_voting_power = 1,
      vi_config = \<lparr>consensus_public_key = PublicKey [word_of_nat a],
        validator_network_addresses = [], fullnode_network_addresses = [],
        validator_index = word_of_nat i\<rparr>\<rparr>"

definition sample_set :: validator_set where
  "sample_set =
     \<lparr>active_validators = [sample_validator 3 2, sample_validator 1 0, sample_validator 4 3],
      pending_inactive = [sample_validator 2 1], pending_active = [],
      vs_total_voting_power = 4, vs_total_joining_power = 0\<rparr>"

theorem validator_set_conversion_by_index_witness:
  "validator_verifier_from sample_set = (Ok sample_verifier :: (unit, validator_verifier) res) \<and>
   nth_opt (validator_infos sample_verifier) 2 = Some (to_consensus_info (sample_validator 3 2))"
proof -
  have ok: "validator_verifier_from sample_set = (Ok sample_verifier :: (unit, validator_verifier) res)"
    by code_simp
  have d: "distinct (map vi_account_address (payload sample_set))" by code_simp
  have "sample_validator 3 2 \<in> set (payload sample_set)" by (simp add: payload_def sample_set_def)
  moreover have "unat (validator_index (vi_config (sample_validator 3 2))) = 2"
    by (simp add: sample_validator_def)
  ultimately show ?thesis using validator_set_conversion_by_index [OF ok d] ok by metis
qed

end
