(* ===== verification/Signature_Aggregator.thy ===== *)
theory Signature_Aggregator
  imports Ledger_Types
begin

text \<open>
  Optimistic signature verification: the \<^verbatim>\<open>SignatureWithStatus\<close> and \<^verbatim>\<open>SignatureAggregator\<close> of
  \<^verbatim>\<open>types/src/ledger_info.rs\<close> and the optimistic methods of \<^verbatim>\<open>types/src/validator_verifier.rs\<close>. Votes are
  aggregated unverified and the aggregate is verified once; when that fails, the shares are verified
  one by one and the bad ones are dropped. The lemmas show that what is returned always verifies, and
  that a quorum of good shares is enough whatever else was added.
\<close>

section \<open>Model\<close>

text \<open>The verification flag is an atomic shared by the clones of a value; it is the second field.\<close>

record signature_with_status =
  sws_signature :: signature
  sws_verified :: bool

definition sws_from :: "signature \<Rightarrow> signature_with_status" where
  "sws_from sig = \<lparr>sws_signature = sig, sws_verified = False\<rparr>"

definition set_verified :: "signature_with_status \<Rightarrow> signature_with_status" where
  "set_verified s = s\<lparr>sws_verified := True\<rparr>"

text \<open>The fields of the verifier that its equality ignores.\<close>

record verify_mode =
  optimistic_sig_verification :: bool
  pessimistic_verify_set :: "account_address set"

definition set_optimistic_sig_verification_flag :: "verify_mode \<Rightarrow> bool \<Rightarrow> verify_mode" where
  "set_optimistic_sig_verification_flag mode flag = mode\<lparr>optimistic_sig_verification := flag\<rparr>"

definition add_pessimistic_verify_set :: "account_address \<Rightarrow> verify_mode \<Rightarrow> verify_mode" where
  "add_pessimistic_verify_set auth mode =
     mode\<lparr>pessimistic_verify_set := insert auth (pessimistic_verify_set mode)\<rparr>"

definition optimistic_verify ::
    "'m crypto \<Rightarrow> validator_verifier \<Rightarrow> verify_mode \<Rightarrow> account_address \<Rightarrow> 'm \<Rightarrow> signature_with_status
       \<Rightarrow> (verify_error, signature_with_status) res" where
  "optimistic_verify C vv mode auth message s =
     (if get_public_key vv auth = None then Err UnknownAuthor
      else if (\<not> optimistic_sig_verification mode \<or> auth \<in> pessimistic_verify_set mode)
              \<and> \<not> sws_verified s
      then bind (vv_verify C vv auth message (sws_signature s)) (\<lambda>_. Ok (set_verified s))
      else Ok s)"

definition share_ok ::
    "'m crypto \<Rightarrow> validator_verifier \<Rightarrow> 'm \<Rightarrow> account_address \<Rightarrow> signature_with_status \<Rightarrow> bool" where
  "share_ok C vv message a s \<longleftrightarrow> sws_verified s \<or> is_ok (vv_verify C vv a message (sws_signature s))"

text \<open>
  The parallel iterator visits every share independently of the others, so the order in which the
  tasks run does not show in the result.
\<close>

definition vv_filter_invalid_signatures ::
    "'m crypto \<Rightarrow> validator_verifier \<Rightarrow> 'm \<Rightarrow> (account_address \<times> signature_with_status) list
       \<Rightarrow> verify_mode \<Rightarrow> (account_address \<times> signature_with_status) list \<times> verify_mode" where
  "vv_filter_invalid_signatures C vv message sigs mode =
     (List.map_filter (\<lambda>(a, s). if share_ok C vv message a s then Some (a, set_verified s) else None)
        sigs,
      foldl (\<lambda>md (a, s). if share_ok C vv message a s then md else add_pessimistic_verify_set a md)
        mode sigs)"

record 'm signature_aggregator =
  sa_data :: 'm
  sa_signatures :: "(account_address \<times> signature_with_status) list"

definition sa_new :: "'m \<Rightarrow> 'm signature_aggregator" where
  "sa_new d = \<lparr>sa_data = d, sa_signatures = []\<rparr>"

definition sa_add_signature ::
    "'m signature_aggregator \<Rightarrow> account_address \<Rightarrow> signature_with_status \<Rightarrow> 'm signature_aggregator"
where
  "sa_add_signature sa validator s =
     sa\<lparr>sa_signatures := btree_insert validator s (sa_signatures sa)\<rparr>"

definition verified_voters :: "'m signature_aggregator \<Rightarrow> account_address list" where
  "verified_voters sa =
     List.map_filter (\<lambda>(voter, s). if sws_verified s then Some voter else None) (sa_signatures sa)"

definition unverified_voters :: "'m signature_aggregator \<Rightarrow> account_address list" where
  "unverified_voters sa =
     List.map_filter (\<lambda>(voter, s). if sws_verified s then None else Some voter) (sa_signatures sa)"

definition all_voters :: "'m signature_aggregator \<Rightarrow> account_address list" where
  "all_voters sa = map fst (sa_signatures sa)"

definition sa_check_voting_power ::
    "'m signature_aggregator \<Rightarrow> validator_verifier \<Rightarrow> bool \<Rightarrow> (verify_error, u128) res" where
  "sa_check_voting_power sa verifier check_super_majority =
     check_voting_power verifier (all_voters sa) check_super_majority"

definition try_aggregate ::
    "'m crypto \<Rightarrow> validator_verifier \<Rightarrow> 'm signature_aggregator
       \<Rightarrow> (verify_error, aggregate_signature) res" where
  "try_aggregate C verifier sa =
     bind (sa_check_voting_power sa verifier True) (\<lambda>_.
       aggregate_signatures C verifier
         (map (\<lambda>(voter, s). (voter, sws_signature s)) (sa_signatures sa)))"

definition sa_filter_invalid_signatures ::
    "'m crypto \<Rightarrow> validator_verifier \<Rightarrow> 'm signature_aggregator \<times> verify_mode
       \<Rightarrow> 'm signature_aggregator \<times> verify_mode" where
  "sa_filter_invalid_signatures C verifier st =
     (let sa = fst st;
          (sigs, mode) =
            vv_filter_invalid_signatures C verifier (sa_data sa) (sa_signatures sa) (snd st)
      in (sa\<lparr>sa_signatures := sigs\<rparr>, mode))"

definition aggregate_and_verify ::
    "'m crypto \<Rightarrow> validator_verifier
       \<Rightarrow> ('m signature_aggregator \<times> verify_mode, verify_error, 'm \<times> aggregate_signature) method_res"
where
  "aggregate_and_verify C verifier =
     m_bind (m_read (\<lambda>(sa, _). try_aggregate C verifier sa)) (\<lambda>aggregated_sig.
     m_bind (m_read (\<lambda>(sa, _). Ok (sa_data sa))) (\<lambda>data st.
       case verify_multi_signatures C verifier data aggregated_sig of
         Ok _ \<Rightarrow> (Ok (data, aggregated_sig), st)
       | Err _ \<Rightarrow>
           m_bind (m_modify (sa_filter_invalid_signatures C verifier)) (\<lambda>_.
           m_bind (m_read (\<lambda>(sa, _). try_aggregate C verifier sa)) (\<lambda>aggregated_sig.
             m_return (data, aggregated_sig))) st
       | Panic \<Rightarrow> (Panic, st)))"

section \<open>The shares of an aggregator\<close>

text \<open>
  The invariant of an aggregator: its shares are a map, and a share marked as verified does verify.
\<close>

definition sa_inv :: "'m crypto \<Rightarrow> validator_verifier \<Rightarrow> 'm signature_aggregator \<Rightarrow> bool" where
  "sa_inv C vv sa \<longleftrightarrow>
     wf_btree (sa_signatures sa) \<and>
     (\<forall>(a, s) \<in> set (sa_signatures sa).
        sws_verified s \<longrightarrow> vv_verify C vv a (sa_data sa) (sws_signature s) = Ok ())"

definition good_voters :: "'m crypto \<Rightarrow> validator_verifier \<Rightarrow> 'm signature_aggregator \<Rightarrow> account_address set"
where
  "good_voters C vv sa =
     {a. \<exists>s. (a, s) \<in> set (sa_signatures sa) \<and>
        vv_verify C vv a (sa_data sa) (sws_signature s) = Ok ()}"

lemma sa_inv_new [simp]: "sa_inv C vv (sa_new d)"
  by (simp add: sa_inv_def sa_new_def)

lemma sa_inv_distinct: "sa_inv C vv sa \<Longrightarrow> distinct (all_voters sa)"
  by (simp add: sa_inv_def all_voters_def wf_btree_distinct)

lemma set_btree_insert_subset: "set (btree_insert k v m) \<subseteq> insert (k, v) (set m)"
  by (induction k v m rule: btree_insert.induct) auto

lemma sa_inv_add:
  assumes "sa_inv C vv sa"
    and "sws_verified s \<Longrightarrow> vv_verify C vv a (sa_data sa) (sws_signature s) = Ok ()"
  shows "sa_inv C vv (sa_add_signature sa a s)"
  using assms set_btree_insert_subset [of a s "sa_signatures sa"]
  by (fastforce simp: sa_inv_def sa_add_signature_def intro: wf_btree_insert)

lemma optimistic_verify_Ok:
  assumes "optimistic_verify C vv mode a message s = Ok s'"
    and "sws_verified s \<Longrightarrow> vv_verify C vv a message (sws_signature s) = Ok ()"
  shows "get_public_key vv a \<noteq> None" and "sws_signature s' = sws_signature s"
    and "sws_verified s' \<Longrightarrow> vv_verify C vv a message (sws_signature s') = Ok ()"
  using assms by (auto simp: optimistic_verify_def res_simps set_verified_def split: if_splits)

lemma map_filter_eq_map_filter:
  "List.map_filter (\<lambda>(a, s). if P a s then Some (a, f s) else None) sigs =
     map (\<lambda>(a, s). (a, f s)) (filter (\<lambda>(a, s). P a s) sigs)"
  by (induction sigs) (auto simp: map_filter_simps)

lemma share_ok_iff:
  assumes "sa_inv C vv sa" "(a, s) \<in> set (sa_signatures sa)"
  shows "share_ok C vv (sa_data sa) a s \<longleftrightarrow>
           vv_verify C vv a (sa_data sa) (sws_signature s) = Ok ()"
  using assms by (fastforce simp: share_ok_def sa_inv_def is_ok_iff)

lemma filter_shares:
  assumes "sa_inv C vv sa"
    and f: "sa_filter_invalid_signatures C vv (sa, mode) = (sa', mode')"
  shows "sa_data sa' = sa_data sa"
    and "sa_inv C vv sa'"
    and "set (all_voters sa') = good_voters C vv sa"
    and "\<forall>(a, s) \<in> set (sa_signatures sa').
           vv_verify C vv a (sa_data sa) (sws_signature s) = Ok ()"
proof -
  let ?P = "\<lambda>a s. share_ok C vv (sa_data sa) a s"
  have sa': "sa' = sa\<lparr>sa_signatures :=
      map (\<lambda>(a, s). (a, set_verified s)) (filter (\<lambda>(a, s). ?P a s) (sa_signatures sa))\<rparr>"
    using f by (simp add: sa_filter_invalid_signatures_def vv_filter_invalid_signatures_def
        map_filter_eq_map_filter)
  then show data: "sa_data sa' = sa_data sa" by simp
  show valid: "\<forall>(a, s) \<in> set (sa_signatures sa').
      vv_verify C vv a (sa_data sa) (sws_signature s) = Ok ()"
    using share_ok_iff [OF assms(1)] by (auto simp: sa' set_verified_def)
  have "map fst (sa_signatures sa') = map fst (filter (\<lambda>(a, s). ?P a s) (sa_signatures sa))"
    by (auto simp: sa')
  moreover have "wf_btree (filter P m)" if "wf_btree m"
    for m :: "(account_address \<times> signature_with_status) list" and P
    using that by (induction m) (auto simp: wf_btree_def)
  ultimately have "wf_btree (sa_signatures sa')"
    using assms(1) by (auto simp: sa_inv_def wf_btree_def)
  with valid show "sa_inv C vv sa'" by (auto simp: sa_inv_def data)
  show "set (all_voters sa') = good_voters C vv sa"
    using share_ok_iff [OF assms(1)]
    by (force simp: all_voters_def good_voters_def sa' image_iff)
qed

lemma filter_pessimistic:
  "pessimistic_verify_set
     (foldl (\<lambda>md (a, s). if P a s then md else add_pessimistic_verify_set a md) mode sigs) =
   pessimistic_verify_set mode \<union> {a. \<exists>s. (a, s) \<in> set sigs \<and> \<not> P a s}"
  by (induction sigs arbitrary: mode)
    (auto simp: add_pessimistic_verify_set_def split: if_splits)

lemma try_aggregate_valid:
  assumes wf: "wf_verifier vv" and inv: "sa_inv C vv sa"
    and valid: "\<forall>(a, s) \<in> set (sa_signatures sa).
      vv_verify C vv a (sa_data sa) (sws_signature s) = Ok ()"
    and q: "is_quorum vv (set (all_voters sa))"
    and bls: "aggregation_complete C (sa_data sa)"
  shows "\<exists>s. try_aggregate C vv sa = Ok s \<and> signer_set vv s = set (all_voters sa) \<and>
    verify_multi_signatures C vv (sa_data sa) s = Ok ()"
proof -
  let ?sigs = "map (\<lambda>(voter, s). (voter, sws_signature s)) (sa_signatures sa)"
  have fst: "map fst ?sigs = all_voters sa" by (auto simp: all_voters_def)
  note d = sa_inv_distinct [OF inv]
  have set: "fst ` set ?sigs = set (all_voters sa)" by (metis fst list.set_map)
  have "\<forall>(a, sig) \<in> set ?sigs. vv_verify C vv a (sa_data sa) sig = Ok ()" using valid by auto
  from aggregate_then_verify [OF _ _ this bls] q d obtain s
    where "aggregate_signatures C vv ?sigs = Ok s" "signer_set vv s = set (all_voters sa)"
      "verify_multi_signatures C vv (sa_data sa) s = Ok ()"
    by (auto simp only: fst set)
  moreover obtain p where "check_voting_power vv (all_voters sa) True = Ok p"
    using check_voting_power_complete [OF q d] by blast
  ultimately show ?thesis by (simp add: try_aggregate_def sa_check_voting_power_def)
qed

section \<open>Aggregation\<close>

lemma aggregate_and_verify_cases:
  assumes "aggregate_and_verify C vv (sa, mode) = (r, st')"
  shows "(\<exists>s. try_aggregate C vv sa = Ok s \<and>
            verify_multi_signatures C vv (sa_data sa) s = Ok () \<and>
            r = Ok (sa_data sa, s) \<and> st' = (sa, mode))
       \<or> (\<exists>s e. try_aggregate C vv sa = Ok s \<and>
            verify_multi_signatures C vv (sa_data sa) s = Err e \<and>
            st' = sa_filter_invalid_signatures C vv (sa, mode) \<and>
            r = bind (try_aggregate C vv (fst st')) (\<lambda>s. Ok (sa_data sa, s)))
       \<or> (st' = (sa, mode) \<and> (r = Panic \<or> (\<exists>e. try_aggregate C vv sa = Err e \<and> r = Err e)))"
proof (cases "try_aggregate C vv sa")
  case (Ok s)
  show ?thesis
  proof (cases "verify_multi_signatures C vv (sa_data sa) s")
    case (Err e)
    let ?st = "sa_filter_invalid_signatures C vv (sa, mode)"
    have "aggregate_and_verify C vv (sa, mode) =
        (bind (try_aggregate C vv (fst ?st)) (\<lambda>s. Ok (sa_data sa, s)), ?st)"
      by (cases "try_aggregate C vv (fst ?st)")
        (simp_all add: aggregate_and_verify_def m_bind_def m_read_def m_modify_def m_return_def
          Ok Err split_def)
    with assms Ok Err show ?thesis by auto
  qed (use assms Ok in \<open>auto simp: aggregate_and_verify_def m_bind_def m_read_def\<close>)
qed (use assms in \<open>auto simp: aggregate_and_verify_def m_bind_def m_read_def\<close>)

lemma try_aggregate_quorum:
  assumes "wf_verifier vv" "sa_inv C vv sa" "try_aggregate C vv sa = Ok s"
  shows "is_quorum vv (set (all_voters sa))"
  using check_voting_power_quorum [OF assms(1) sa_inv_distinct [OF assms(2)]] assms(3)
  by (auto simp: try_aggregate_def sa_check_voting_power_def res_simps)

lemma aggregate_and_verify_Ok:
  assumes wf: "wf_verifier vv" and inv: "sa_inv C vv sa"
    and bls: "aggregation_complete C (sa_data sa)"
    and ok: "aggregate_and_verify C vv (sa, mode) = (Ok (d, s), st')"
  shows "d = sa_data sa" and "verify_multi_signatures C vv d s = Ok ()"
proof -
  obtain sa' mode' where st': "sa_filter_invalid_signatures C vv (sa, mode) = (sa', mode')"
    by fastforce
  note f = filter_shares [OF inv st']
  have "d = sa_data sa \<and> verify_multi_signatures C vv d s = Ok ()"
    using aggregate_and_verify_cases [OF ok]
  proof (elim disjE exE conjE)
    fix s' e
    assume "st' = sa_filter_invalid_signatures C vv (sa, mode)"
      and "Ok (d, s) = bind (try_aggregate C vv (fst st')) (\<lambda>s. Ok (sa_data sa, s))"
    then have "bind (try_aggregate C vv sa') (\<lambda>s. Ok (sa_data sa, s)) = Ok (d, s)"
      using st' by simp
    then have d: "d = sa_data sa" and t: "try_aggregate C vv sa' = Ok s"
      by (auto simp: bind_Ok)
    have "\<forall>(a, s) \<in> set (sa_signatures sa').
        vv_verify C vv a (sa_data sa') (sws_signature s) = Ok ()" using f(1,4) by simp
    with try_aggregate_valid [OF wf f(2) this try_aggregate_quorum [OF wf f(2) t]] f(1) bls t d
    show ?thesis by auto
  qed auto
  then show "d = sa_data sa" "verify_multi_signatures C vv d s = Ok ()" by auto
qed

lemma verify_multi_signatures_no_panic:
  assumes wf: "wf_verifier vv"
  shows "verify_multi_signatures C vv message s \<noteq> Panic"
proof
  assume "verify_multi_signatures C vv message s = Panic"
  then obtain infos where infos: "signer_infos vv (validator_bitmask s) = Ok infos"
    and p: "check_voting_power vv (map info_address infos) True = Panic"
    by (auto simp: verify_multi_signatures_def check_num_of_voters_def res_simps signer_infos_def
        dest!: try_map_Panic split: if_splits option.splits)
  note sel = infos [unfolded signer_infos_Ok]
  have "distinct (map info_address infos)" using authors_distinct [OF wf] sel by (simp add: comp_def)
  moreover have "set (map info_address infos) \<subseteq> members vv" using sel by (auto simp: members_def)
  ultimately obtain q where "sum_voting_power vv (map info_address infos) = Ok q"
    using sum_voting_power_total [OF wf] by blast
  with p show False
    by (auto simp: check_voting_power_def check_aggregated_voting_power_def split: if_splits)
qed

lemma aggregate_and_verify_live:
  assumes wf: "wf_verifier vv" and inv: "sa_inv C vv sa"
    and bls: "aggregation_complete C (sa_data sa)"
    and total: "\<And>sigs. sigs \<noteq> [] \<Longrightarrow> bls_aggregate C sigs \<noteq> None"
    and voters: "set (all_voters sa) \<subseteq> members vv"
    and good: "is_quorum vv (good_voters C vv sa)"
  shows "\<exists>s st'. aggregate_and_verify C vv (sa, mode) = (Ok (sa_data sa, s), st')"
proof -
  let ?sigs = "map (\<lambda>(voter, s). (voter, sws_signature s)) (sa_signatures sa)"
  have sub: "good_voters C vv sa \<subseteq> set (all_voters sa)"
    by (force simp: good_voters_def all_voters_def)
  have "sum (weight vv) (good_voters C vv sa) \<le> sum (weight vv) (set (all_voters sa))"
    using sub by (intro sum_mono2) auto
  with good voters have q: "is_quorum vv (set (all_voters sa))" by (auto simp: is_quorum_def)
  note d = sa_inv_distinct [OF inv]
  have fst: "fst ` set ?sigs = set (all_voters sa)" by (force simp: all_voters_def)
  have "?sigs \<noteq> []" using q wf_quorum_power [OF wf] by (auto simp: is_quorum_def all_voters_def)
  then obtain sig where "bls_aggregate C (map snd ?sigs) = Some sig"
    using total [of "map snd ?sigs"] by auto
  then obtain s where "aggregate_signatures C vv ?sigs = Ok s"
    using aggregate_signatures_Ok [OF wf _ , of ?sigs] voters fst by metis
  moreover obtain p where "check_voting_power vv (all_voters sa) True = Ok p"
    using check_voting_power_complete [OF q d] by blast
  ultimately have t: "try_aggregate C vv sa = Ok s"
    by (simp add: try_aggregate_def sa_check_voting_power_def)
  obtain sa' mode' where st': "sa_filter_invalid_signatures C vv (sa, mode) = (sa', mode')"
    by fastforce
  note f = filter_shares [OF inv st']
  obtain s' where t': "try_aggregate C vv sa' = Ok s'"
    using try_aggregate_valid [OF wf f(2)] f bls good by auto
  obtain r st'' where r: "aggregate_and_verify C vv (sa, mode) = (r, st'')"
    by (metis surj_pair)
  from aggregate_and_verify_cases [OF r] show ?thesis
  proof (elim disjE)
    assume "st'' = (sa, mode) \<and> (r = Panic \<or> (\<exists>e. try_aggregate C vv sa = Err e \<and> r = Err e))"
    with t have p: "r = Panic" by auto
    show ?thesis
      using r verify_multi_signatures_no_panic [OF wf, of C "sa_data sa" s] t t' st'
      by (cases "verify_multi_signatures C vv (sa_data sa) s")
        (auto simp: p aggregate_and_verify_def m_bind_def m_read_def m_modify_def m_return_def)
  qed (use r t' st' in auto)
qed

section \<open>Properties\<close>

text \<open>
  What \<^verbatim>\<open>aggregate_and_verify\<close> returns always verifies: on an aggregator whose shares marked as
  verified do verify, a returned signature is one that \<^verbatim>\<open>verify_multi_signatures\<close> accepts for the
  aggregator's data, also when the first aggregate was bad and the shares had to be filtered, in
  which case the second aggregate is returned without being verified again.
\<close>

theorem aggregate_and_verify_sound:
  assumes "wf_verifier vv" "sa_inv C vv sa" "aggregation_complete C (sa_data sa)"
    and "aggregate_and_verify C vv (sa, mode) = (Ok (d, s), st')"
  shows "d = sa_data sa \<and> verify_multi_signatures C vv d s = Ok ()"
  using aggregate_and_verify_Ok [OF assms] by blast

text \<open>
  A quorum of good shares is enough: whatever unverified shares other known validators have
  added, \<^verbatim>\<open>aggregate_and_verify\<close> returns a signature, provided that the voters whose shares verify
  form a quorum. The hypotheses on the BLS library are completeness of aggregation and that it
  aggregates every non-empty list.
\<close>

theorem aggregate_and_verify_succeeds:
  assumes "wf_verifier vv" "sa_inv C vv sa" "aggregation_complete C (sa_data sa)"
    and "\<And>sigs. sigs \<noteq> [] \<Longrightarrow> bls_aggregate C sigs \<noteq> None"
    and "set (all_voters sa) \<subseteq> members vv" "is_quorum vv (good_voters C vv sa)"
  shows "\<exists>s st'. aggregate_and_verify C vv (sa, mode) = (Ok (sa_data sa, s), st')"
  using aggregate_and_verify_live [OF assms] by blast

definition sample_aggregator :: "u8 signature_aggregator" where
  "sample_aggregator =
     foldl (\<lambda>sa (a, sig). sa_add_signature sa a (sws_from (Signature [sig]))) (sa_new 7)
       [(4, 99), (1, 7), (3, 21), (2, 14)]"

definition sample_mode :: verify_mode where
  "sample_mode = \<lparr>optimistic_sig_verification = True, pessimistic_verify_set = {}\<rparr>"

lemma sample_aggregator_inv: "sa_inv C vv sample_aggregator"
proof -
  have "wf_btree (sa_signatures sample_aggregator)"
    by (simp add: sample_aggregator_def sa_add_signature_def sa_new_def wf_btree_def)
  moreover have "list_all (\<lambda>(a, s). \<not> sws_verified s) (sa_signatures sample_aggregator)"
    by code_simp
  ultimately show ?thesis by (auto simp: sa_inv_def list_all_iff)
qed

theorem aggregate_and_verify_sound_witness:
  "\<exists>s st'. aggregate_and_verify (linear_crypto (\<lambda>m. m)) sample_verifier
      (sample_aggregator, sample_mode) = (Ok (7, s), st') \<and>
    pessimistic_verify_set (snd st') = {4} \<and>
    verify_multi_signatures (linear_crypto (\<lambda>m. m)) sample_verifier 7 s = Ok ()"
proof -
  let ?C = "linear_crypto (\<lambda>m :: u8. m)"
  obtain d s st' where r: "aggregate_and_verify ?C sample_verifier (sample_aggregator, sample_mode) =
      (Ok (d, s), st')"
    and p: "pessimistic_verify_set (snd st') = {4}"
  proof -
    have "aggregate_and_verify ?C sample_verifier (sample_aggregator, sample_mode) =
      (Ok (7, \<lparr>validator_bitmask = \<lparr>inner = [0xE0]\<rparr>, agg_sig = Some (Signature [42])\<rparr>),
       \<lparr>sa_data = 7, sa_signatures =
          map (\<lambda>(a, x). (a, \<lparr>sws_signature = Signature [x], sws_verified = True\<rparr>))
            [(1, 7), (2, 14), (3, 21)]\<rparr>,
       \<lparr>optimistic_sig_verification = True, pessimistic_verify_set = {4}\<rparr>)"
      by code_simp
    then show thesis by (rule that) simp
  qed
  have "sa_data sample_aggregator = 7" by code_simp
  with aggregate_and_verify_sound [OF wf_sample sample_aggregator_inv linear_crypto_complete r] r p
  show ?thesis by auto
qed

lemma good_voters_filter:
  "good_voters C vv sa =
     set (map fst (filter (\<lambda>(a, s). vv_verify C vv a (sa_data sa) (sws_signature s) = Ok ())
       (sa_signatures sa)))"
  by (force simp: good_voters_def)

theorem aggregate_and_verify_succeeds_witness:
  "set (unverified_voters sample_aggregator) = {1, 2, 3, 4} \<and>
   (\<exists>s st'. aggregate_and_verify (linear_crypto (\<lambda>m. m)) sample_verifier
      (sample_aggregator, sample_mode) = (Ok (sa_data sample_aggregator, s), st'))"
proof -
  let ?C = "linear_crypto (\<lambda>m :: u8. m)"
  have voters: "all_voters sample_aggregator = [1, 2, 3, 4]"
    "unverified_voters sample_aggregator = [1, 2, 3, 4]" by code_simp+
  have "map fst (filter (\<lambda>(a, s). vv_verify ?C sample_verifier a (sa_data sample_aggregator)
      (sws_signature s) = Ok ()) (sa_signatures sample_aggregator)) = [1, 2, 3]" by code_simp
  then have good: "good_voters ?C sample_verifier sample_aggregator = {1, 2, 3}"
    unfolding good_voters_filter by simp
  have "unat (quorum_voting_power sample_verifier) = 3"
    by (simp add: sample_verifier_def build_index_def)
  then have q: "is_quorum sample_verifier (good_voters ?C sample_verifier sample_aggregator)"
    by (simp add: is_quorum_def wf_sample members_sample weight_sample good)
  have total: "bls_aggregate ?C sigs \<noteq> None" if "sigs \<noteq> []" for sigs
    using that by (simp add: linear_crypto_def)
  have "set (all_voters sample_aggregator) \<subseteq> members sample_verifier"
    by (simp add: voters members_sample)
  from aggregate_and_verify_succeeds [OF wf_sample sample_aggregator_inv linear_crypto_complete
      total this q] voters(2)
  show ?thesis by auto
qed

end
