(* ===== verification/Quorum_Certs.thy ===== *)
theory Quorum_Certs
  imports Signature_Aggregator
begin

text \<open>
  The certificates of the consensus protocol: \<^verbatim>\<open>vote_data.rs\<close>, \<^verbatim>\<open>quorum_cert.rs\<close>,
  \<^verbatim>\<open>wrapped_ledger_info.rs\<close> and \<^verbatim>\<open>timeout_2chain.rs\<close> of \<^verbatim>\<open>consensus/consensus-types/src\<close>. The lemmas
  extract from a certificate that verifies the quorum behind it, and show that the timeout
  certificate built from verified timeouts verifies.
\<close>

section \<open>Vote data and quorum certificates\<close>

record vote_data =
  proposed :: block_info
  parent :: block_info

definition vote_data_verify :: "vote_data \<Rightarrow> (anyhow_error, unit) res" where
  "vote_data_verify vd =
     bind (ensure (bi_epoch (parent vd) = bi_epoch (proposed vd))
       (Msg ''Parent and proposed epochs do not match'')) (\<lambda>_.
     bind (ensure (bi_round (parent vd) < bi_round (proposed vd))
       (Msg ''Proposed round is less than parent round'')) (\<lambda>_.
     bind (ensure (bi_timestamp_usecs (parent vd) \<le> bi_timestamp_usecs (proposed vd))
       (Msg ''Proposed happened before parent'')) (\<lambda>_.
       ensure (bi_version (proposed vd) = 0 \<or> bi_version (parent vd) \<le> bi_version (proposed vd))
         (Msg ''Proposed version is less than parent version''))))"

definition vote_data_dummy :: vote_data where
  "vote_data_dummy = \<lparr>proposed = block_info_empty, parent = block_info_empty\<rparr>"

text \<open>
  The third-party functions the consensus types call: the BLS library and the hash function, the
  latter at the types that are hashed.
\<close>

record ('p, 'h) env =
  env_crypto :: "'p signable crypto"
  hash_vote_data :: "vote_data \<Rightarrow> hash_value"
  hash_block :: "'h \<Rightarrow> hash_value"

record quorum_cert =
  qc_vote_data :: vote_data
  qc_signed_ledger_info :: ledger_info_with_signatures

definition certified_block :: "quorum_cert \<Rightarrow> block_info" where
  "certified_block qc = proposed (qc_vote_data qc)"

definition parent_block :: "quorum_cert \<Rightarrow> block_info" where
  "parent_block qc = parent (qc_vote_data qc)"

definition qc_ledger_info :: "quorum_cert \<Rightarrow> ledger_info" where
  "qc_ledger_info qc = liws_ledger_info (qc_signed_ledger_info qc)"

definition qc_commit_info :: "quorum_cert \<Rightarrow> block_info" where
  "qc_commit_info qc = li_commit_info (qc_ledger_info qc)"

definition qc_ends_epoch :: "quorum_cert \<Rightarrow> bool" where
  "qc_ends_epoch qc = li_ends_epoch (qc_ledger_info qc)"

definition certificate_for_genesis_from_ledger_info ::
    "('p, 'h) env \<Rightarrow> ledger_info \<Rightarrow> hash_value \<Rightarrow> ('e, quorum_cert) res" where
  "certificate_for_genesis_from_ledger_info E li genesis_id =
     bind (unwrap (checked_add (li_epoch li) 1)) (\<lambda>next_epoch.
     let ancestor =
           \<lparr>bi_epoch = next_epoch, bi_round = 0, bi_id = genesis_id,
            bi_executed_state_id = li_transaction_accumulator_hash li,
            bi_version = li_version li, bi_timestamp_usecs = li_timestamp_usecs li,
            bi_next_epoch_state = None\<rparr>;
         vd = \<lparr>proposed = ancestor, parent = ancestor\<rparr>
     in bind (unwrap (li_next_epoch_state li)) (\<lambda>es. Ok
          \<lparr>qc_vote_data = vd,
           qc_signed_ledger_info =
             \<lparr>liws_ledger_info =
                \<lparr>li_commit_info = ancestor, li_consensus_data_hash = hash_vote_data E vd\<rparr>,
              liws_signatures =
                \<lparr>validator_bitmask = with_num_bits (word_of_nat (verifier_len (es_verifier es))),
                 agg_sig = None\<rparr>\<rparr>\<rparr>))"

definition qc_verify :: "('p, 'h) env \<Rightarrow> quorum_cert \<Rightarrow> validator_verifier \<Rightarrow> (anyhow_error, unit) res" where
  "qc_verify E qc validator =
     bind (ensure (li_consensus_data_hash (qc_ledger_info qc) = hash_vote_data E (qc_vote_data qc))
       (Msg ''Quorum Cert's hash mismatch LedgerInfo'')) (\<lambda>_.
     if bi_round (certified_block qc) = 0 then
       bind (ensure (parent_block qc = certified_block qc)
         (Msg ''Genesis QC has inconsistent parent block with certified block'')) (\<lambda>_.
       bind (ensure (certified_block qc = qc_commit_info qc)
         (Msg ''Genesis QC has inconsistent commit block with certified block'')) (\<lambda>_.
         ensure (get_num_voters (liws_signatures (qc_signed_ledger_info qc)) = 0)
           (Msg ''Genesis QC should not carry signatures'')))
     else
       bind (map_err (\<lambda>e. Context ''Fail to verify QuorumCert'' (VerifyErr e))
               (verify_signatures (env_crypto E) (qc_signed_ledger_info qc) validator)) (\<lambda>_.
         vote_data_verify (qc_vote_data qc)))"

definition qc_create_merged_with_executed_state ::
    "quorum_cert \<Rightarrow> ledger_info_with_signatures \<Rightarrow> (anyhow_error, quorum_cert) res" where
  "qc_create_merged_with_executed_state qc executed =
     bind (ensure (match_ordered_only (qc_commit_info qc) (liws_commit_info executed))
       (Msg ''Block info from QC and executed LI need to match'')) (\<lambda>_.
       Ok \<lparr>qc_vote_data = qc_vote_data qc, qc_signed_ledger_info = executed\<rparr>)"

section \<open>Wrapped ledger infos\<close>

record wrapped_ledger_info =
  wli_vote_data :: vote_data
  wli_signed_ledger_info :: ledger_info_with_signatures

definition into_wrapped_ledger_info :: "quorum_cert \<Rightarrow> wrapped_ledger_info" where
  "into_wrapped_ledger_info qc =
     \<lparr>wli_vote_data = qc_vote_data qc, wli_signed_ledger_info = qc_signed_ledger_info qc\<rparr>"

definition verify_consensus_data_hash ::
    "('p, 'h) env \<Rightarrow> wrapped_ledger_info \<Rightarrow> (anyhow_error, unit) res" where
  "verify_consensus_data_hash E w =
     ensure (li_consensus_data_hash (liws_ledger_info (wli_signed_ledger_info w)) =
               hash_vote_data E (wli_vote_data w))
       (Msg ''WrappedLedgerInfo's vote data hash mismatch LedgerInfo'')"

definition wli_certified_block ::
    "('p, 'h) env \<Rightarrow> wrapped_ledger_info \<Rightarrow> bool \<Rightarrow> (anyhow_error, block_info) res" where
  "wli_certified_block E w order_vote_enabled =
     bind (ensure (\<not> order_vote_enabled) (Msg ''wrapped_ledger_info.certified_block should not be called when order votes are enabled'')) (\<lambda>_.
     bind (verify_consensus_data_hash E w) (\<lambda>_. Ok (proposed (wli_vote_data w))))"

definition wli_epoch :: "wrapped_ledger_info \<Rightarrow> u64" where
  "wli_epoch w = li_epoch (liws_ledger_info (wli_signed_ledger_info w))"

definition wli_commit_info :: "wrapped_ledger_info \<Rightarrow> block_info" where
  "wli_commit_info w = liws_commit_info (wli_signed_ledger_info w)"

definition wli_ends_epoch :: "wrapped_ledger_info \<Rightarrow> bool" where
  "wli_ends_epoch w = li_ends_epoch (liws_ledger_info (wli_signed_ledger_info w))"

definition wli_verify ::
    "('p, 'h) env \<Rightarrow> wrapped_ledger_info \<Rightarrow> validator_verifier \<Rightarrow> (anyhow_error, unit) res" where
  "wli_verify E w validator =
     (if li_round (liws_ledger_info (wli_signed_ledger_info w)) = 0 then
        ensure (get_num_voters (liws_signatures (wli_signed_ledger_info w)) = 0)
          (Msg ''Genesis QC should not carry signatures'')
      else
        map_err (\<lambda>e. Context ''Fail to verify WrappedLedgerInfo'' (VerifyErr e))
          (verify_signatures (env_crypto E) (wli_signed_ledger_info w) validator))"

definition wli_create_merged_with_executed_state ::
    "wrapped_ledger_info \<Rightarrow> ledger_info_with_signatures \<Rightarrow> (anyhow_error, wrapped_ledger_info) res"
where
  "wli_create_merged_with_executed_state w executed =
     bind (ensure (match_ordered_only (wli_commit_info w) (liws_commit_info executed))
       (Msg ''Block info from QC and executed LI need to match'')) (\<lambda>_.
       Ok \<lparr>wli_vote_data = wli_vote_data w, wli_signed_ledger_info = executed\<rparr>)"

definition into_quorum_cert ::
    "('p, 'h) env \<Rightarrow> wrapped_ledger_info \<Rightarrow> bool \<Rightarrow> (anyhow_error, quorum_cert) res" where
  "into_quorum_cert E w order_vote_enabled =
     bind (ensure (\<not> order_vote_enabled) (Msg ''wrapped_ledger_info.into_quorum_cert should not be called when order votes are enabled'')) (\<lambda>_.
     bind (verify_consensus_data_hash E w) (\<lambda>_.
       Ok \<lparr>qc_vote_data = wli_vote_data w, qc_signed_ledger_info = wli_signed_ledger_info w\<rparr>))"

section \<open>Timeouts\<close>

record two_chain_timeout =
  to_epoch :: u64
  to_round :: round
  to_quorum_cert :: quorum_cert

definition hqc_round :: "two_chain_timeout \<Rightarrow> round" where
  "hqc_round t = bi_round (certified_block (to_quorum_cert t))"

text \<open>\<^verbatim>\<open>TimeoutSigningRepr\<close>, the message that is signed.\<close>

definition signing_format :: "two_chain_timeout \<Rightarrow> 'p signable" where
  "signing_format t = STimeout (to_epoch t) (to_round t) (hqc_round t)"

definition timeout_verify ::
    "('p, 'h) env \<Rightarrow> two_chain_timeout \<Rightarrow> validator_verifier \<Rightarrow> (anyhow_error, unit) res" where
  "timeout_verify E t validators =
     bind (ensure (hqc_round t < to_round t)
       (Msg ''Timeout round should be larger than the QC round'')) (\<lambda>_.
       qc_verify E (to_quorum_cert t) validators)"

record aggregate_signature_with_rounds =
  aswr_sig :: aggregate_signature
  aswr_rounds :: "round list"

definition aswr_new ::
    "aggregate_signature \<Rightarrow> round list \<Rightarrow> ('e, aggregate_signature_with_rounds) res" where
  "aswr_new sig rounds =
     bind (assert (get_num_voters sig = length rounds)) (\<lambda>_.
       Ok \<lparr>aswr_sig = sig, aswr_rounds = rounds\<rparr>)"

definition aswr_empty :: aggregate_signature_with_rounds where
  "aswr_empty = \<lparr>aswr_sig = agg_sig_empty, aswr_rounds = []\<rparr>"

definition get_voters_and_rounds ::
    "aggregate_signature_with_rounds \<Rightarrow> account_address list \<Rightarrow> (account_address \<times> round) list" where
  "get_voters_and_rounds s ordered_validator_addresses =
     zip (get_signers_addresses (aswr_sig s) ordered_validator_addresses) (aswr_rounds s)"

record two_chain_timeout_certificate =
  tc_timeout :: two_chain_timeout
  tc_signatures_with_rounds :: aggregate_signature_with_rounds

definition tc_epoch :: "two_chain_timeout_certificate \<Rightarrow> u64" where
  "tc_epoch tc = to_epoch (tc_timeout tc)"

definition tc_round :: "two_chain_timeout_certificate \<Rightarrow> round" where
  "tc_round tc = to_round (tc_timeout tc)"

definition highest_hqc_round :: "two_chain_timeout_certificate \<Rightarrow> round" where
  "highest_hqc_round tc = hqc_round (tc_timeout tc)"

text \<open>
  The two closures given to \<^verbatim>\<open>rayon::join\<close> are pure; their results are inspected in the order of the
  two \<^verbatim>\<open>?\<close>.
\<close>

definition tc_verify ::
    "('p, 'h) env \<Rightarrow> two_chain_timeout_certificate \<Rightarrow> validator_verifier \<Rightarrow> (anyhow_error, unit) res" where
  "tc_verify E tc validators =
     (let timeout_messages =
            map (\<lambda>(_, r). STimeout (tc_epoch tc) (tc_round tc) r)
              (get_voters_and_rounds (tc_signatures_with_rounds tc)
                 (get_ordered_account_addresses validators))
      in bind (timeout_verify E (tc_timeout tc) validators) (\<lambda>_.
         bind (map_err VerifyErr (verify_aggregate_signatures (env_crypto E) validators
                 timeout_messages (aswr_sig (tc_signatures_with_rounds tc)))) (\<lambda>_.
         if aswr_rounds (tc_signatures_with_rounds tc) = [] then Err (Msg ''Empty rounds'')
         else ensure (hqc_round (tc_timeout tc) =
                Max (set (aswr_rounds (tc_signatures_with_rounds tc))))
                (Msg ''Inconsistent hqc round''))))"

record partial_signatures_with_round =
  pswr_signatures :: "(account_address \<times> round \<times> signature) list"

definition pswr_add_signature ::
    "partial_signatures_with_round \<Rightarrow> account_address \<Rightarrow> round \<Rightarrow> signature
       \<Rightarrow> partial_signatures_with_round" where
  "pswr_add_signature p validator r sig =
     (if contains_key validator (pswr_signatures p) then p
      else p\<lparr>pswr_signatures := btree_insert validator (r, sig) (pswr_signatures p)\<rparr>)"

definition get_partial_sig_with_rounds ::
    "partial_signatures_with_round \<Rightarrow> (account_address \<times> nat) list \<Rightarrow> partial_signatures \<times> round list"
where
  "get_partial_sig_with_rounds p index_map =
     (let (partial_sig, index_to_rounds) =
        foldl (\<lambda>(partial_sig, index_to_rounds) (addr, r, sig).
            case map_of index_map addr of
              Some index \<Rightarrow> (add_signature partial_sig addr sig, btree_insert index r index_to_rounds)
            | None \<Rightarrow> (partial_sig, index_to_rounds))
          (partial_signatures_empty, []) (pswr_signatures p)
      in (partial_sig, map snd index_to_rounds))"

record two_chain_timeout_with_partial_signatures =
  tps_timeout :: two_chain_timeout
  tps_signatures :: partial_signatures_with_round

definition tps_new :: "two_chain_timeout \<Rightarrow> two_chain_timeout_with_partial_signatures" where
  "tps_new t = \<lparr>tps_timeout = t, tps_signatures = \<lparr>pswr_signatures = []\<rparr>\<rparr>"

definition tps_signers :: "two_chain_timeout_with_partial_signatures \<Rightarrow> account_address list" where
  "tps_signers p = map fst (pswr_signatures (tps_signatures p))"

text \<open>The two \<^verbatim>\<open>debug_assert_eq!\<close> are not compiled into a release build.\<close>

definition tps_add ::
    "two_chain_timeout_with_partial_signatures \<Rightarrow> author \<Rightarrow> two_chain_timeout \<Rightarrow> signature
       \<Rightarrow> two_chain_timeout_with_partial_signatures" where
  "tps_add p auth t sig =
     (let p' = (if hqc_round t > hqc_round (tps_timeout p) then p\<lparr>tps_timeout := t\<rparr> else p)
      in p'\<lparr>tps_signatures := pswr_add_signature (tps_signatures p') auth (hqc_round t) sig\<rparr>)"

definition tps_aggregate_signatures ::
    "('p, 'h) env \<Rightarrow> two_chain_timeout_with_partial_signatures \<Rightarrow> validator_verifier
       \<Rightarrow> (verify_error, two_chain_timeout_certificate) res" where
  "tps_aggregate_signatures E p verifier =
     (let (partial_sig, ordered_rounds) =
            get_partial_sig_with_rounds (tps_signatures p) (address_to_validator_index verifier)
      in bind (aggregate_signatures (env_crypto E) verifier (signatures partial_sig))
           (\<lambda>aggregated_sig.
         bind (aswr_new aggregated_sig ordered_rounds) (\<lambda>s.
           Ok \<lparr>tc_timeout = tps_timeout p, tc_signatures_with_rounds = s\<rparr>)))"

section \<open>Certificates that verify\<close>

lemma vote_data_verify_Ok:
  "vote_data_verify vd = Ok u \<longleftrightarrow>
     bi_epoch (parent vd) = bi_epoch (proposed vd) \<and> bi_round (parent vd) < bi_round (proposed vd) \<and>
     bi_timestamp_usecs (parent vd) \<le> bi_timestamp_usecs (proposed vd) \<and>
     (bi_version (proposed vd) = 0 \<or> bi_version (parent vd) \<le> bi_version (proposed vd))"
  by (auto simp: vote_data_verify_def res_simps)

lemma qc_verify_hash:
  "qc_verify E qc vv = Ok u \<Longrightarrow>
   li_consensus_data_hash (qc_ledger_info qc) = hash_vote_data E (qc_vote_data qc)"
  by (auto simp: qc_verify_def res_simps)

lemma qc_verify_Ok:
  assumes "wf_verifier vv" "qc_verify E qc vv = Ok u" "bi_round (certified_block qc) \<noteq> 0"
  shows "is_quorum vv (signer_set vv (liws_signatures (qc_signed_ledger_info qc)))"
    and "certifies (env_crypto E) vv (SLedgerInfo (qc_ledger_info qc))
           (liws_signatures (qc_signed_ledger_info qc))"
    and "vote_data_verify (qc_vote_data qc) = Ok ()"
proof -
  from assms(2,3) have "verify_signatures (env_crypto E) (qc_signed_ledger_info qc) vv = Ok ()"
    and vd: "vote_data_verify (qc_vote_data qc) = Ok ()"
    by (auto simp: qc_verify_def res_simps)
  then show "is_quorum vv (signer_set vv (liws_signatures (qc_signed_ledger_info qc)))"
    "certifies (env_crypto E) vv (SLedgerInfo (qc_ledger_info qc))
       (liws_signatures (qc_signed_ledger_info qc))"
    using verify_signatures_Ok [OF assms(1)] by (auto simp: qc_ledger_info_def)
  from vd show "vote_data_verify (qc_vote_data qc) = Ok ()" .
qed

lemma qc_verify_genesis:
  assumes "qc_verify E qc vv = Ok u" "bi_round (certified_block qc) = 0"
  shows "parent_block qc = certified_block qc" "certified_block qc = qc_commit_info qc"
  using assms by (auto simp: qc_verify_def res_simps)

lemma timeout_verify_Ok:
  "timeout_verify E t vv = Ok u \<longleftrightarrow>
     hqc_round t < to_round t \<and> qc_verify E (to_quorum_cert t) vv = Ok ()"
  by (auto simp: timeout_verify_def res_simps)

text \<open>
  The library rejects an aggregate signature for a list of messages and a list of keys of different
  lengths. What a timeout certificate says of each of its signers is \<open>tc_claims\<close>.
\<close>

definition aggregate_lengths :: "'m crypto \<Rightarrow> bool" where
  "aggregate_lengths C \<longleftrightarrow>
     (\<forall>sig messages keys. bls_verify_aggregate C sig messages keys \<longrightarrow> length messages = length keys)"

definition tc_claims ::
    "validator_verifier \<Rightarrow> two_chain_timeout_certificate \<Rightarrow> (account_address \<times> round) list" where
  "tc_claims vv tc =
     zip (aggregate_signature_authors vv (aswr_sig (tc_signatures_with_rounds tc)))
       (aswr_rounds (tc_signatures_with_rounds tc))"

lemma tc_verify_Ok:
  assumes wf: "wf_verifier vv" and ok: "tc_verify E tc vv = Ok u"
    and C: "aggregate_lengths (env_crypto E)"
  shows "timeout_verify E (tc_timeout tc) vv = Ok ()"
    and "is_quorum vv (fst ` set (tc_claims vv tc))"
    and "distinct (map fst (tc_claims vv tc))"
    and "\<forall>(a, r) \<in> set (tc_claims vv tc). r \<le> highest_hqc_round tc"
    and "\<exists>sig. agg_sig (aswr_sig (tc_signatures_with_rounds tc)) = Some sig \<and>
      bls_verify_aggregate (env_crypto E) sig
        (map (\<lambda>(a, r). STimeout (tc_epoch tc) (tc_round tc) r) (tc_claims vv tc))
        (map (\<lambda>(a, r). the (get_public_key vv a)) (tc_claims vv tc))"
proof -
  let ?s = "aswr_sig (tc_signatures_with_rounds tc)"
  let ?rs = "aswr_rounds (tc_signatures_with_rounds tc)"
  let ?voters = "get_signers_addresses ?s (get_ordered_account_addresses vv)"
  let ?authors = "aggregate_signature_authors vv ?s"
  let ?msgs = "map (\<lambda>(_, r). STimeout (tc_epoch tc) (tc_round tc) r) (zip ?voters ?rs)"
  from ok have t: "timeout_verify E (tc_timeout tc) vv = Ok ()"
    and agg: "verify_aggregate_signatures (env_crypto E) vv ?msgs ?s = Ok ()"
    and max: "?rs \<noteq> []" "hqc_round (tc_timeout tc) = Max (set ?rs)"
    by (auto simp: tc_verify_def Let_def get_voters_and_rounds_def res_simps split: if_splits)
  show "timeout_verify E (tc_timeout tc) vv = Ok ()" by (rule t)
  from agg obtain infos where num: "check_num_of_voters (word_of_nat (verifier_len vv))
      (validator_bitmask ?s) = Ok ()" and infos: "signer_infos vv (validator_bitmask ?s) = Ok infos"
    by (auto simp: verify_aggregate_signatures_def res_simps)
  note sel = infos [unfolded signer_infos_Ok]
  note authors = aggregate_signature_authors_eq [OF sel [THEN conjunct1]]
  note voters = signers_addresses_authors [OF wf num infos]
  let ?keys = "map (\<lambda>i. info_public_key (validator_infos vv ! i)) (iter_ones (validator_bitmask ?s))"
  obtain sig where sig: "agg_sig ?s = Some sig"
    and v: "bls_verify_aggregate (env_crypto E) sig ?msgs ?keys"
    using verify_aggregate_signatures_Ok(2) [OF wf agg] by blast
  have len: "length ?authors \<le> length ?rs"
    using C [unfolded aggregate_lengths_def, rule_format, OF v] by (simp add: voters authors)
  have fst: "map fst (tc_claims vv tc) = ?authors"
    using len by (simp add: tc_claims_def map_fst_zip_take)
  then have "fst ` set (tc_claims vv tc) = signer_set vv ?s"
    by (metis list.set_map signer_set_def)
  then show "is_quorum vv (fst ` set (tc_claims vv tc))"
    using verify_aggregate_signatures_Ok(1) [OF wf agg] by simp
  show "distinct (map fst (tc_claims vv tc))"
    using authors_distinct [OF wf] sel by (simp add: fst authors)
  show "\<forall>(a, r) \<in> set (tc_claims vv tc). r \<le> highest_hqc_round tc"
    using max by (auto simp: tc_claims_def highest_hqc_round_def dest: set_zip_rightD)
  have "?keys = map (\<lambda>a. the (get_public_key vv a)) ?authors"
    using sel wf_get_nth(2) [OF wf] by (auto simp: authors)
  also have "\<dots> = map (\<lambda>(a, r). the (get_public_key vv a)) (tc_claims vv tc)"
    by (simp add: fst [symmetric] split_def)
  finally show "\<exists>sig. agg_sig ?s = Some sig \<and>
      bls_verify_aggregate (env_crypto E) sig
        (map (\<lambda>(a, r). STimeout (tc_epoch tc) (tc_round tc) r) (tc_claims vv tc))
        (map (\<lambda>(a, r). the (get_public_key vv a)) (tc_claims vv tc))"
    using sig v by (auto simp: voters tc_claims_def)
qed

section \<open>Building a timeout certificate\<close>

text \<open>
  The partial certificate holds one share per author; its timeout carries the highest of the rounds
  the shares are for. The first author's timeout starts it.
\<close>

definition tps_inv :: "two_chain_timeout_with_partial_signatures \<Rightarrow> bool" where
  "tps_inv p \<longleftrightarrow>
     wf_btree (pswr_signatures (tps_signatures p)) \<and>
     (\<exists>a r s. (a, r, s) \<in> set (pswr_signatures (tps_signatures p)) \<and> r = hqc_round (tps_timeout p)) \<and>
     (\<forall>(a, r, s) \<in> set (pswr_signatures (tps_signatures p)). r \<le> hqc_round (tps_timeout p))"

lemma tps_inv_first: "tps_inv (tps_add (tps_new t) a t sig)"
  by (simp add: tps_inv_def tps_add_def tps_new_def pswr_add_signature_def contains_key_def
      wf_btree_def)

lemma set_btree_insert_fresh:
  "k \<notin> fst ` set m \<Longrightarrow> set (btree_insert k v m) = insert (k, v) (set m)"
  by (induction k v m rule: btree_insert.induct) auto

lemma tps_inv_add:
  assumes "tps_inv p" "a \<notin> set (tps_signers p)"
  shows "tps_inv (tps_add p a t sig)"
    and "set (tps_signers (tps_add p a t sig)) = insert a (set (tps_signers p))"
proof -
  let ?m = "pswr_signatures (tps_signatures p)"
  have fresh: "a \<notin> fst ` set ?m" using assms(2) by (simp add: tps_signers_def)
  then have "\<not> contains_key a ?m" by (simp add: contains_key_def map_of_eq_None_iff)
  then have m': "pswr_signatures (tps_signatures (tps_add p a t sig)) =
      btree_insert a (hqc_round t, sig) ?m"
    and t': "hqc_round (tps_timeout (tps_add p a t sig)) =
      max (hqc_round t) (hqc_round (tps_timeout p))"
    by (auto simp: tps_add_def pswr_add_signature_def Let_def max_def)
  show "tps_inv (tps_add p a t sig)"
    using assms(1) wf_btree_insert
    unfolding tps_inv_def m' t' set_btree_insert_fresh [OF fresh] by (fastforce simp: max_def)
  show "set (tps_signers (tps_add p a t sig)) = insert a (set (tps_signers p))"
    by (simp add: tps_signers_def m')
qed

text \<open>
  What BLS aggregation provides for shares on different messages.
\<close>

definition aggregation_complete_multi :: "'m crypto \<Rightarrow> bool" where
  "aggregation_complete_multi C \<longleftrightarrow>
     (\<forall>ps. ps \<noteq> [] \<longrightarrow> list_all (\<lambda>(key, message, sig). bls_verify C key message sig) ps \<longrightarrow>
        (\<exists>sig. bls_aggregate C (map (\<lambda>(_, _, s). s) ps) = Some sig \<and>
           (\<forall>qs. mset qs = mset (map (\<lambda>(key, message, _). (key, message)) ps) \<longrightarrow>
              bls_verify_aggregate C sig (map snd qs) (map fst qs))))"

lemma get_partial_sig_with_rounds_known:
  assumes wf: "wf_verifier vv" and sub: "fst ` set sigs \<subseteq> members vv" and b: "wf_btree sigs"
  shows "get_partial_sig_with_rounds \<lparr>pswr_signatures = sigs\<rparr> (address_to_validator_index vv) =
    (\<lparr>signatures = map (\<lambda>(a, r, s). (a, s)) sigs\<rparr>,
     map snd (btree_collect (map (\<lambda>(a, r, s). (index_of vv a, r)) sigs)))"
proof -
  have fold: "foldl (\<lambda>(partial_sig, index_to_rounds) (addr, r, sig).
          case map_of (address_to_validator_index vv) addr of
            Some index \<Rightarrow> (add_signature partial_sig addr sig, btree_insert index r index_to_rounds)
          | None \<Rightarrow> (partial_sig, index_to_rounds)) (\<lparr>signatures = m\<rparr>, ixs) sigs =
      (\<lparr>signatures = foldl (\<lambda>m (k, v). btree_insert k v m) m (map (\<lambda>(a, r, s). (a, s)) sigs)\<rparr>,
       foldl (\<lambda>m (k, v). btree_insert k v m) ixs (map (\<lambda>(a, r, s). (index_of vv a, r)) sigs))"
    for m ixs
    using sub
  proof (induction sigs arbitrary: m ixs)
    case (Cons p sigs)
    then show ?case
      using index_of_member(1) [OF wf, of "fst p"] by (cases p) (auto simp: add_signature_def)
  qed simp
  have "map fst (map (\<lambda>(a, r, s). (a, s)) sigs) = map fst sigs" by auto
  then have "wf_btree (map (\<lambda>(a, r, s). (a, s)) sigs)" using b unfolding wf_btree_def by metis
  from btree_collect_wf [OF this] fold [of "[]" "[]"] show ?thesis
    by (simp add: get_partial_sig_with_rounds_def partial_signatures_empty_def
        btree_collect_def [symmetric])
qed

text \<open>
  The rounds, listed by validator index, are in the order of the bits of the mask: the claims of the
  certificate are the shares' authors with their own rounds.
\<close>

lemma claims_by_index:
  assumes wf: "wf_verifier vv" and sub: "fst ` set sigs \<subseteq> members vv" and d: "distinct (map fst sigs)"
    and ones: "set (iter_ones (validator_bitmask s)) = index_of vv ` fst ` set sigs"
  defines "itr \<equiv> btree_collect (map (\<lambda>(a, r, sg :: signature). (index_of vv a, r :: round)) sigs)"
  shows "length itr = length (iter_ones (validator_bitmask s))"
    and "zip (aggregate_signature_authors vv s) (map snd itr) =
      map (\<lambda>(i, r). (info_address (validator_infos vv ! i), r)) itr"
    and "mset (zip (aggregate_signature_authors vv s) (map snd itr)) =
      mset (map (\<lambda>(a, r, sg). (a, r)) sigs)"
proof -
  let ?es = "map (\<lambda>(a, r, sg). (index_of vv a, r)) sigs" and ?ones = "iter_ones (validator_bitmask s)"
  have keys: "map fst ?es = map (index_of vv) (map fst sigs)" by auto
  have "set (map fst sigs) \<subseteq> members vv" "set ?ones = index_of vv ` set (map fst sigs)"
    using sub ones by simp_all
  note sel = mask_of_authors [OF wf this(1) d this(2)]
  have dk: "distinct (map fst ?es)"
    using sel(3) iter_ones_distinct [of "validator_bitmask s"]
    by (metis keys mset_eq_imp_distinct_iff)
  have set_itr: "set itr = set ?es" using set_btree_collect_distinct [OF dk] by (simp add: itr_def)
  have wfi: "wf_btree itr" by (simp add: itr_def wf_btree_collect)
  have "map fst itr = ?ones"
  proof (rule sorted_distinct_set_unique)
    show "sorted (map fst itr)" "distinct (map fst itr)"
      using wfi by (simp_all add: wf_btree_def strict_sorted_iff)
    show "sorted ?ones" using iter_ones_sorted [of "validator_bitmask s"]
      by (simp add: strict_sorted_iff)
    show "set (map fst itr) = set ?ones" using ones by (force simp: set_itr)
  qed (simp add: iter_ones_distinct)
  then show len: "length itr = length ?ones" by (metis length_map)
  have authors: "aggregate_signature_authors vv s =
      map (\<lambda>i. info_address (validator_infos vv ! i)) (map fst itr)"
    using sel(1) \<open>map fst itr = ?ones\<close> by (simp add: aggregate_signature_authors_eq)
  show zip: "zip (aggregate_signature_authors vv s) (map snd itr) =
      map (\<lambda>(i, r). (info_address (validator_infos vv ! i), r)) itr"
    unfolding authors by (simp add: zip_map_map zip_same_conv_map split_def)
  have "distinct itr" "distinct ?es"
    by (rule wf_btree_distinct [OF wfi, unfolded distinct_map, THEN conjunct1],
        rule dk [unfolded distinct_map [of fst], THEN conjunct1])
  from set_eq_iff_mset_eq_distinct [OF this, THEN iffD1, OF set_itr]
  have "mset (map (\<lambda>(i, r). (info_address (validator_infos vv ! i), r)) itr) =
      mset (map (\<lambda>(i, r). (info_address (validator_infos vv ! i), r)) ?es)" by (simp only: mset_map)
  moreover have "map (\<lambda>(i, r). (info_address (validator_infos vv ! i), r)) ?es =
      map (\<lambda>(a, r, sg). (a, r)) sigs"
    using index_of_member(3) [OF wf] sub by force
  ultimately show "mset (zip (aggregate_signature_authors vv s) (map snd itr)) =
      mset (map (\<lambda>(a, r, sg). (a, r)) sigs)"
    unfolding zip by (rule trans [OF _ arg_cong])
qed

lemma claims_rounds:
  assumes "zip as (map snd itr) = map (\<lambda>(i, r). (f i, r)) itr"
    and "mset (zip as (map snd itr)) = mset (map (\<lambda>(a, r, sg). (a, r)) sigs)"
  shows "set (map snd itr) = (\<lambda>(a, r, sg). r) ` set sigs"
proof -
  have "set (map (\<lambda>(i, r). (f i, r)) itr) = set (map (\<lambda>(a, r, sg). (a, r)) sigs)"
    using assms by (metis mset_eq_setD)
  then have "snd ` set (map (\<lambda>(i, r). (f i, r)) itr) = snd ` set (map (\<lambda>(a, r, sg). (a, r)) sigs)"
    by simp
  then show ?thesis by (simp add: image_image split_def)
qed

lemma tc_verify_intro:
  fixes tc :: two_chain_timeout_certificate
  defines "s \<equiv> aswr_sig (tc_signatures_with_rounds tc)"
    and "rounds \<equiv> aswr_rounds (tc_signatures_with_rounds tc)"
  assumes wf: "wf_verifier vv"
    and t: "timeout_verify E (tc_timeout tc) vv = Ok ()"
    and num: "check_num_of_voters (word_of_nat (verifier_len vv)) (validator_bitmask s) = Ok ()"
    and sel: "set (iter_ones (validator_bitmask s)) \<subseteq> {..<length (validator_infos vv)}"
    and sig: "agg_sig s = Some sig"
    and len: "length rounds = length (iter_ones (validator_bitmask s))"
    and q: "is_quorum vv (signer_set vv s)"
    and v: "bls_verify_aggregate (env_crypto E) sig
      (map (\<lambda>(a, r). STimeout (tc_epoch tc) (tc_round tc) r) (tc_claims vv tc))
      (map (\<lambda>(a, r). the (get_public_key vv a)) (tc_claims vv tc))"
    and max: "rounds \<noteq> []" "highest_hqc_round tc = Max (set rounds)"
  shows "tc_verify E tc vv = Ok ()"
proof -
  let ?ones = "iter_ones (validator_bitmask s)"
  have infos: "signer_infos vv (validator_bitmask s) = Ok (map (nth (validator_infos vv)) ?ones)"
    using sel by (simp add: signer_infos_Ok)
  note authors = aggregate_signature_authors_eq [OF sel]
  obtain w where "check_voting_power vv (aggregate_signature_authors vv s) True = Ok w"
    using check_voting_power_complete [of vv "aggregate_signature_authors vv s"] q
      authors_distinct [OF wf sel] by (auto simp: signer_set_def authors)
  then have w: "check_voting_power vv (map info_address (map (nth (validator_infos vv)) ?ones)) True
      = Ok w" by (simp add: authors comp_def)
  have fst: "map fst (tc_claims vv tc) = aggregate_signature_authors vv s"
    using len by (simp add: tc_claims_def authors s_def [symmetric] rounds_def [symmetric])
  have keys: "map (\<lambda>(a, r). the (get_public_key vv a)) (tc_claims vv tc) =
      map info_public_key (map (nth (validator_infos vv)) ?ones)"
  proof -
    have "map (\<lambda>(a, r). the (get_public_key vv a)) (tc_claims vv tc) =
        map (\<lambda>a. the (get_public_key vv a)) (map fst (tc_claims vv tc))" by (simp add: split_def)
    also have "\<dots> = map info_public_key (map (nth (validator_infos vv)) ?ones)"
      using sel wf_get_nth(2) [OF wf] by (auto simp: fst authors)
    finally show ?thesis .
  qed
  have "get_voters_and_rounds (tc_signatures_with_rounds tc) (get_ordered_account_addresses vv) =
      tc_claims vv tc"
    using signers_addresses_authors [OF wf num infos]
    by (simp add: get_voters_and_rounds_def tc_claims_def s_def)
  moreover have "verify_aggregate_signatures (env_crypto E) vv
      (map (\<lambda>(a, r). STimeout (tc_epoch tc) (tc_round tc) r) (tc_claims vv tc)) s = Ok ()"
    using v unfolding keys verify_aggregate_signatures_def num infos
    by (simp add: w [simplified] sig ok_or_def ensure_def)
  ultimately show ?thesis
    using max t
    by (simp add: tc_verify_def s_def rounds_def highest_hqc_round_def ensure_def)
qed

lemma aggregated_timeout_verifies:
  fixes E :: "('p, 'h) env"
  assumes inv: "tps_inv p" and q: "is_quorum vv (set (tps_signers p))"
    and shares: "\<forall>(a, r, sig) \<in> set (pswr_signatures (tps_signatures p)).
      vv_verify (env_crypto E) vv a (STimeout (to_epoch (tps_timeout p)) (to_round (tps_timeout p)) r)
        sig = Ok ()"
    and t: "timeout_verify E (tps_timeout p) vv = Ok ()"
    and bls: "aggregation_complete_multi (env_crypto E)"
  shows "\<exists>tc. tps_aggregate_signatures E p vv = Ok tc \<and> tc_verify E tc vv = Ok () \<and>
    mset (tc_claims vv tc) = mset (map (\<lambda>(a, r, _). (a, r)) (pswr_signatures (tps_signatures p)))"
proof -
  let ?C = "env_crypto E" and ?sigs = "pswr_signatures (tps_signatures p)"
  let ?msg = "\<lambda>r. STimeout (to_epoch (tps_timeout p)) (to_round (tps_timeout p)) r :: 'p signable"
  let ?key = "\<lambda>a. the (get_public_key vv a)"
  from q have wf: "wf_verifier vv" and sub: "fst ` set ?sigs \<subseteq> members vv"
    by (auto simp: is_quorum_def tps_signers_def)
  have b: "wf_btree ?sigs" and d: "distinct (map fst ?sigs)"
    using inv by (auto simp: tps_inv_def intro: wf_btree_distinct)
  let ?ps = "map (\<lambda>(a, r, sig). (?key a, ?msg r, sig)) ?sigs"
  have "bls_verify ?C (?key a) (?msg r) sig" if "(a, r, sig) \<in> set ?sigs" for a r sig
    using shares that by (fastforce simp: vv_verify_def res_simps split: option.splits)
  then have all: "list_all (\<lambda>(key, message, sig). bls_verify ?C key message sig) ?ps"
    by (auto simp: list_all_iff)
  have ne: "?ps \<noteq> []" using inv by (auto simp: tps_inv_def)
  from bls [unfolded aggregation_complete_multi_def, rule_format, OF ne all] obtain sig where agg: "bls_aggregate ?C (map (\<lambda>(_, _, s). s) ?ps) = Some sig"
    and v: "\<And>qs. mset qs = mset (map (\<lambda>(key, message, _). (key, message)) ?ps) \<Longrightarrow>
      bls_verify_aggregate ?C sig (map snd qs) (map fst qs)"
    by blast
  let ?shares = "map (\<lambda>(a, r, s). (a, s)) ?sigs"
  let ?itr = "btree_collect (map (\<lambda>(a, r, sg). (index_of vv a, r)) ?sigs)"
  have fst: "fst ` set ?shares = fst ` set ?sigs" by force
  have "map snd ?shares = map (\<lambda>(_, _, s). s) ?ps" by auto
  then obtain s where s: "aggregate_signatures ?C vv ?shares = Ok s" "agg_sig s = Some sig"
    and ones: "set (iter_ones (validator_bitmask s)) = index_of vv ` fst ` set ?sigs"
    and num: "check_num_of_voters (word_of_nat (verifier_len vv)) (validator_bitmask s) = Ok ()"
    using aggregate_signatures_Ok [OF wf _ , of ?shares ?C sig] sub agg by (auto simp only: fst)
  note claims = claims_by_index [OF wf sub d ones]
  have sel: "set (iter_ones (validator_bitmask s)) \<subseteq> {..<length (validator_infos vv)}"
    using ones index_of_member(2) [OF wf] sub by auto
  let ?tc = "\<lparr>tc_timeout = tps_timeout p,
      tc_signatures_with_rounds = \<lparr>aswr_sig = s, aswr_rounds = map snd ?itr\<rparr>\<rparr>"
  have "get_partial_sig_with_rounds (tps_signatures p) (address_to_validator_index vv) =
      (\<lparr>signatures = ?shares\<rparr>, map snd ?itr)"
    using get_partial_sig_with_rounds_known [OF wf sub b] by (cases "tps_signatures p") simp
  then have "tps_aggregate_signatures E p vv = Ok ?tc"
    using claims(1) count_ones_iter_ones [OF check_num_of_voters_wf [OF num]] s(1)
    by (simp add: tps_aggregate_signatures_def aswr_new_def assert_def get_num_voters_def)
  moreover have cl: "mset (tc_claims vv ?tc) = mset (map (\<lambda>(a, r, _). (a, r)) ?sigs)"
    using claims(3) by (simp add: tc_claims_def)
  moreover have "tc_verify E ?tc vv = Ok ()"
  proof (rule tc_verify_intro [where sig = sig, OF wf])
    show "is_quorum vv (signer_set vv (aswr_sig (tc_signatures_with_rounds ?tc)))"
      using q mask_of_authors(2) [OF wf _ d, of s] sub ones by (simp add: tps_signers_def)
    have "mset (map (\<lambda>(a, r). (?key a, ?msg r)) (tc_claims vv ?tc)) =
        mset (map (\<lambda>(key, message, _). (key, message)) ?ps)"
      using arg_cong [OF cl, of "image_mset (\<lambda>(a, r). (?key a, ?msg r))"]
      by (simp add: image_mset.compositionality comp_def split_def)
    from v [OF this] show "bls_verify_aggregate ?C sig
        (map (\<lambda>(a, r). STimeout (tc_epoch ?tc) (tc_round ?tc) r) (tc_claims vv ?tc))
        (map (\<lambda>(a, r). ?key a) (tc_claims vv ?tc))"
      by (simp add: tc_epoch_def tc_round_def comp_def split_def)
    have "set (map snd ?itr) = (\<lambda>(a, r, sg). r) ` set ?sigs" by (rule claims_rounds [OF claims(2,3)])
    then show "highest_hqc_round ?tc = Max (set (aswr_rounds (tc_signatures_with_rounds ?tc)))"
      using inv unfolding highest_hqc_round_def tps_inv_def
      by (intro Max_eqI [symmetric]) (force simp: image_iff)+
    show "aswr_rounds (tc_signatures_with_rounds ?tc) \<noteq> []"
      using \<open>set (map snd ?itr) = _\<close> inv by (auto simp: tps_inv_def)
  qed (use t num sel s(2) claims(1) in simp_all)
  ultimately show ?thesis by blast
qed

text \<open>Adding the timeouts of distinct authors one after the other.\<close>

definition tps_collect ::
    "(author \<times> two_chain_timeout \<times> signature) list \<Rightarrow> two_chain_timeout_with_partial_signatures" where
  "tps_collect ts =
     foldl (\<lambda>p (a, t, sig). tps_add p a t sig) (tps_new (fst (snd (hd ts)))) ts"

lemma tps_add_fresh:
  assumes "a \<notin> set (tps_signers p)"
  shows "set (pswr_signatures (tps_signatures (tps_add p a t sig))) =
      insert (a, hqc_round t, sig) (set (pswr_signatures (tps_signatures p)))"
    and "tps_timeout (tps_add p a t sig) \<in> {t, tps_timeout p}"
proof -
  let ?m = "pswr_signatures (tps_signatures p)"
  have fresh: "a \<notin> fst ` set ?m" using assms by (simp add: tps_signers_def)
  then have "\<not> contains_key a ?m" by (simp add: contains_key_def map_of_eq_None_iff)
  then show "set (pswr_signatures (tps_signatures (tps_add p a t sig))) =
      insert (a, hqc_round t, sig) (set ?m)"
    by (auto simp: tps_add_def pswr_add_signature_def Let_def set_btree_insert_fresh [OF fresh])
  show "tps_timeout (tps_add p a t sig) \<in> {t, tps_timeout p}" by (simp add: tps_add_def Let_def)
qed

lemma tps_collect_inv:
  assumes "ts \<noteq> []" "distinct (map fst ts)"
  shows "tps_inv (tps_collect ts) \<and>
    set (tps_signers (tps_collect ts)) = fst ` set ts \<and>
    tps_timeout (tps_collect ts) \<in> (fst \<circ> snd) ` set ts \<and>
    set (pswr_signatures (tps_signatures (tps_collect ts))) =
      (\<lambda>(a, t, sig). (a, hqc_round t, sig)) ` set ts"
  using assms
proof (induction ts rule: rev_nonempty_induct)
  case (single x)
  obtain a t sig where [simp]: "x = (a, t, sig)" by (cases x)
  have "a \<notin> set (tps_signers (tps_new t))" by (simp add: tps_signers_def tps_new_def)
  note fresh = tps_add_fresh [OF this, of t sig]
  then show ?case
    using tps_inv_first [of t a sig]
    by (simp add: tps_collect_def tps_signers_def) (simp add: tps_new_def)
next
  case (snoc x ts)
  obtain a t sig where [simp]: "x = (a, t, sig)" by (cases x)
  let ?p = "tps_collect ts"
  have IH: "tps_inv ?p" "set (tps_signers ?p) = fst ` set ts"
    "tps_timeout ?p \<in> (fst \<circ> snd) ` set ts"
    "set (pswr_signatures (tps_signatures ?p)) = (\<lambda>(a, t, sig). (a, hqc_round t, sig)) ` set ts"
    using snoc by auto
  have "tps_collect (ts @ [x]) = tps_add ?p a t sig"
    using snoc.hyps by (simp add: tps_collect_def)
  moreover have new: "a \<notin> set (tps_signers ?p)" using snoc.prems IH(2) by auto
  moreover have "tps_timeout (tps_add ?p a t sig) \<in> insert t ((fst \<circ> snd) ` set ts)"
    using tps_add_fresh(2) [OF new, of t sig] IH(3) by (metis insert_iff singletonD)
  ultimately show ?case
    using tps_inv_add [OF IH(1) new, of t sig] tps_add_fresh(1) [OF new, of t sig] IH(2,4) by simp
qed

section \<open>A concrete instance\<close>

lemma linear_crypto_lengths: "aggregate_lengths (linear_crypto h)"
  by (simp add: aggregate_lengths_def linear_crypto_def)

lemma linear_crypto_multi: "aggregation_complete_multi (linear_crypto h)"
proof -
  have lin: "sum_list (map (\<lambda>(_, _, s). signature_number s) ps) =
      sum_list (map (\<lambda>(key, message, _). key_number key * h message) ps)"
    if "list_all (\<lambda>(key, message, sig). signature_number sig = key_number key * h message) ps" for ps
    using that by (induction ps) auto
  have perm: "sum_list (map (\<lambda>(key, message). key_number key * h message) qs) =
      sum_list (map (\<lambda>(key, message, _). key_number key * h message) ps)"
    if "mset qs = mset (map (\<lambda>(key, message, _). (key, message)) ps)"
    for qs :: "(public_key \<times> 'a) list" and ps :: "(public_key \<times> 'a \<times> signature) list"
  proof -
    let ?f = "\<lambda>(key, message). key_number key * h message"
    have "sum_mset (image_mset ?f (mset qs)) =
        sum_mset (image_mset ?f (mset (map (\<lambda>(key, message, _). (key, message)) ps)))"
      by (simp only: that)
    then have "sum_list (map ?f qs) = sum_list (map ?f (map (\<lambda>(key, message, _). (key, message)) ps))"
      by (simp only: mset_map [symmetric] sum_mset_sum_list)
    then show ?thesis by (simp add: comp_def split_def)
  qed
  show ?thesis
    unfolding aggregation_complete_multi_def
  proof (intro allI impI exI conjI)
    fix ps :: "(public_key \<times> 'a \<times> signature) list" and qs
    assume ne: "ps \<noteq> []"
      and v: "list_all (\<lambda>(key, message, sig). bls_verify (linear_crypto h) key message sig) ps"
    let ?sig = "Signature [sum_list (map signature_number (map (\<lambda>(_, _, s). s) ps))]"
    show "bls_aggregate (linear_crypto h) (map (\<lambda>(_, _, s). s) ps) = Some ?sig"
      using ne by (simp add: linear_crypto_def)
    assume qs: "mset qs = mset (map (\<lambda>(key, message, _). (key, message)) ps)"
    have "sum_list (map signature_number (map (\<lambda>(_, _, s). s) ps)) =
        sum_list (map (\<lambda>(_, _, s). signature_number s) ps)" by (simp add: comp_def split_def)
    also have "\<dots> = sum_list (map (\<lambda>(key, message). key_number key * h message) qs)"
      using lin [of ps] v perm [OF qs] by (simp add: linear_crypto_def)
    finally show "bls_verify_aggregate (linear_crypto h) ?sig (map snd qs) (map fst qs)"
      by (simp add: linear_crypto_def zip_map_fst_snd)
  qed
qed

lemma quorum_sample: "is_quorum sample_verifier {1, 2, 3}"
proof -
  have "sum (weight sample_verifier) {1, 2, 3} = 3" by (simp add: weight_sample)
  moreover have "unat (quorum_voting_power sample_verifier) = 3"
    by (simp add: sample_verifier_def build_index_def)
  ultimately show ?thesis by (simp add: is_quorum_def wf_sample members_sample)
qed

text \<open>
  A scheme whose signatures tell timeouts with different QC rounds apart, and blocks and
  certificates of epoch 1 for the validators of \<^const>\<open>sample_verifier\<close>.
\<close>

fun sample_digest :: "'p signable \<Rightarrow> u8" where
  "sample_digest (STimeout e r q) = ucast q + 1"
| "sample_digest (SLedgerInfo li) = 7"
| "sample_digest (SConsensus p) = 9"

definition sample_env :: "('p, 'h) env" where
  "sample_env = \<lparr>env_crypto = linear_crypto sample_digest,
     hash_vote_data = (\<lambda>vd. ucast (bi_round (proposed vd))), hash_block = (\<lambda>_. 0)\<rparr>"

definition sample_block_info :: "u64 \<Rightarrow> block_info" where
  "sample_block_info r = \<lparr>bi_epoch = 1, bi_round = r, bi_id = ucast r, bi_executed_state_id = 0,
     bi_version = 0, bi_timestamp_usecs = r, bi_next_epoch_state = None\<rparr>"

definition sample_qc :: "u64 \<Rightarrow> quorum_cert" where
  "sample_qc r =
     (if r = 0 then
        \<lparr>qc_vote_data = \<lparr>proposed = sample_block_info 0, parent = sample_block_info 0\<rparr>,
         qc_signed_ledger_info = \<lparr>
           liws_ledger_info = \<lparr>li_commit_info = sample_block_info 0, li_consensus_data_hash = 0\<rparr>,
           liws_signatures = \<lparr>validator_bitmask = \<lparr>inner = [0]\<rparr>, agg_sig = None\<rparr>\<rparr>\<rparr>
      else
        \<lparr>qc_vote_data = \<lparr>proposed = sample_block_info r, parent = sample_block_info (r - 1)\<rparr>,
         qc_signed_ledger_info = \<lparr>
           liws_ledger_info =
             \<lparr>li_commit_info = sample_block_info (r - 1), li_consensus_data_hash = ucast r\<rparr>,
           liws_signatures =
             \<lparr>validator_bitmask = \<lparr>inner = [0xE0]\<rparr>, agg_sig = Some (Signature [42])\<rparr>\<rparr>\<rparr>)"

definition sample_timeout :: "u64 \<Rightarrow> u64 \<Rightarrow> two_chain_timeout" where
  "sample_timeout r q = \<lparr>to_epoch = 1, to_round = r, to_quorum_cert = sample_qc q\<rparr>"

definition sample_tc :: "u64 list \<Rightarrow> u8 \<Rightarrow> u64 \<Rightarrow> two_chain_timeout_certificate" where
  "sample_tc rounds sig q =
     \<lparr>tc_timeout = sample_timeout 4 q,
      tc_signatures_with_rounds =
        \<lparr>aswr_sig = \<lparr>validator_bitmask = \<lparr>inner = [0xE0]\<rparr>, agg_sig = Some (Signature [sig])\<rparr>,
         aswr_rounds = rounds\<rparr>\<rparr>"

section \<open>Properties\<close>

text \<open>
  C31. What a quorum certificate that verifies proves. Above round 0 a quorum of the validators has
  signed the ledger info, whose consensus data hash is that of the vote data; the parent is in the
  same epoch and in an earlier round. At round 0 the certified block, its parent and the committed
  block are one block.
\<close>

theorem quorum_cert_sound:
  assumes "wf_verifier vv" "qc_verify E qc vv = Ok u"
  shows "li_consensus_data_hash (qc_ledger_info qc) = hash_vote_data E (qc_vote_data qc) \<and>
    (if bi_round (certified_block qc) = 0
     then parent_block qc = certified_block qc \<and> certified_block qc = qc_commit_info qc
     else is_quorum vv (signer_set vv (liws_signatures (qc_signed_ledger_info qc))) \<and>
       certifies (env_crypto E) vv (SLedgerInfo (qc_ledger_info qc))
         (liws_signatures (qc_signed_ledger_info qc)) \<and>
       bi_epoch (parent_block qc) = bi_epoch (certified_block qc) \<and>
       bi_round (parent_block qc) < bi_round (certified_block qc))"
  using qc_verify_hash [OF assms(2)] qc_verify_genesis [OF assms(2)] qc_verify_Ok [OF assms]
  by (auto simp: vote_data_verify_Ok certified_block_def parent_block_def)

theorem quorum_cert_sound_witness:
  "qc_verify (sample_env :: (unit, unit) env) (sample_qc 2) sample_verifier = Ok () \<and>
   is_quorum sample_verifier (signer_set sample_verifier
     (liws_signatures (qc_signed_ledger_info (sample_qc 2))))"
proof -
  have ok: "qc_verify (sample_env :: (unit, unit) env) (sample_qc 2) sample_verifier = Ok ()"
    by code_simp
  have "bi_round (certified_block (sample_qc 2)) \<noteq> 0" by code_simp
  with quorum_cert_sound [OF wf_sample ok] ok show ?thesis by presburger
qed

text \<open>
  C30. What a timeout certificate that verifies proves: the claims it makes of its signers (one per
  signer, a quorum of them) are the messages the aggregate signature verifies for, each claimed
  round is at most the round of the carried quorum certificate, and that certificate verifies and is
  of an earlier round than the timeout.
\<close>

theorem timeout_certificate_sound:
  assumes "wf_verifier vv" "tc_verify E tc vv = Ok u" "aggregate_lengths (env_crypto E)"
  shows "is_quorum vv (fst ` set (tc_claims vv tc)) \<and> distinct (map fst (tc_claims vv tc)) \<and>
    list_all (\<lambda>(a, r). r \<le> highest_hqc_round tc) (tc_claims vv tc) \<and>
    highest_hqc_round tc < tc_round tc \<and>
    qc_verify E (to_quorum_cert (tc_timeout tc)) vv = Ok () \<and>
    (\<exists>sig. agg_sig (aswr_sig (tc_signatures_with_rounds tc)) = Some sig \<and>
      bls_verify_aggregate (env_crypto E) sig
        (map (\<lambda>(a, r). STimeout (tc_epoch tc) (tc_round tc) r) (tc_claims vv tc))
        (map (\<lambda>(a, r). the (get_public_key vv a)) (tc_claims vv tc)))"
  using tc_verify_Ok [OF assms] unfolding timeout_verify_Ok list_all_iff
  by (auto simp: highest_hqc_round_def tc_round_def)

theorem timeout_certificate_sound_witness:
  "tc_verify (sample_env :: (unit, unit) env) (sample_tc [1, 2, 0] 11 2) sample_verifier = Ok () \<and>
   tc_claims sample_verifier (sample_tc [1, 2, 0] 11 2) = [(1, 1), (2, 2), (3, 0)] \<and>
   is_quorum sample_verifier {1, 2, 3}"
proof -
  have ok: "tc_verify (sample_env :: (unit, unit) env) (sample_tc [1, 2, 0] 11 2) sample_verifier =
    Ok ()" by code_simp
  have claims: "tc_claims sample_verifier (sample_tc [1, 2, 0] 11 2) = [(1, 1), (2, 2), (3, 0)]"
    by code_simp
  have "aggregate_lengths (env_crypto (sample_env :: (unit, unit) env))"
    by (simp add: sample_env_def linear_crypto_lengths)
  from timeout_certificate_sound [OF wf_sample ok this] ok claims show ?thesis
    by (simp add: claims)
qed

text \<open>
  Timeout certificates can be built: when distinct authors that form a quorum have sent
  timeouts of one epoch and round, each with a quorum certificate that verifies and a signature that
  verifies, then the certificate aggregated from them verifies, and it claims of every author the
  round its own timeout has.
\<close>

theorem collected_timeouts_verify:
  fixes E :: "('p, 'h) env"
  assumes "is_quorum vv (fst ` set ts)" "distinct (map fst ts)"
    and ts: "list_all (\<lambda>(a, t, sig). to_epoch t = e \<and> to_round t = r \<and>
      timeout_verify E t vv = Ok () \<and>
      vv_verify (env_crypto E) vv a (signing_format t) sig = Ok ()) ts"
    and bls: "aggregation_complete_multi (env_crypto E)"
  shows "\<exists>tc. tps_aggregate_signatures E (tps_collect ts) vv = Ok tc \<and> tc_verify E tc vv = Ok () \<and>
    tc_epoch tc = e \<and> tc_round tc = r \<and>
    set (tc_claims vv tc) = (\<lambda>(a, t, _). (a, hqc_round t)) ` set ts"
proof -
  let ?p = "tps_collect ts"
  have "ts \<noteq> []" using assms(1) wf_quorum_power by (force simp: is_quorum_def)
  from tps_collect_inv [OF this assms(2)] have inv: "tps_inv ?p"
    and sg: "set (tps_signers ?p) = fst ` set ts"
    and t: "tps_timeout ?p \<in> (fst \<circ> snd) ` set ts"
    and sigs: "set (pswr_signatures (tps_signatures ?p)) = (\<lambda>(a, t, sig). (a, hqc_round t, sig)) ` set ts"
    by blast+
  have tv: "to_epoch (tps_timeout ?p) = e" "to_round (tps_timeout ?p) = r"
    "timeout_verify E (tps_timeout ?p) vv = Ok ()"
    using ts t by (auto simp: list_all_iff)
  have "\<forall>(a, q, sig) \<in> set (pswr_signatures (tps_signatures ?p)).
      vv_verify (env_crypto E) vv a (STimeout (to_epoch (tps_timeout ?p)) (to_round (tps_timeout ?p)) q)
        sig = Ok ()"
    using ts by (auto simp: sigs tv list_all_iff signing_format_def)
  from aggregated_timeout_verifies [OF inv _ this tv(3) bls] assms(1)
  obtain tc where tc: "tps_aggregate_signatures E ?p vv = Ok tc" "tc_verify E tc vv = Ok ()"
    and claims: "mset (tc_claims vv tc) =
      mset (map (\<lambda>(a, q, _). (a, q)) (pswr_signatures (tps_signatures ?p)))" by (auto simp: sg)
  have "tc_timeout tc = tps_timeout ?p"
    using tc(1) by (auto simp: tps_aggregate_signatures_def res_simps split: prod.splits)
  moreover have "set (tc_claims vv tc) = (\<lambda>(a, t, _). (a, hqc_round t)) ` set ts"
    using mset_eq_setD [OF claims] by (force simp: sigs)
  ultimately show ?thesis using tc tv by (auto simp: tc_epoch_def tc_round_def)
qed

theorem collected_timeouts_verify_witness:
  "\<exists>tc. tps_aggregate_signatures (sample_env :: (unit, unit) env)
        (tps_collect [(3, sample_timeout 4 0, Signature [3]), (1, sample_timeout 4 1, Signature [2]),
           (2, sample_timeout 4 2, Signature [6])]) sample_verifier = Ok tc \<and>
      tc_verify (sample_env :: (unit, unit) env) tc sample_verifier = Ok () \<and>
      set (tc_claims sample_verifier tc) = {(3, 0), (1, 1), (2, 2)}"
proof -
  let ?E = "sample_env :: (unit, unit) env"
  let ?ts = "[(3, sample_timeout 4 0, Signature [3]), (1, sample_timeout 4 1, Signature [2]),
    (2, sample_timeout 4 2, Signature [6])] :: (author \<times> two_chain_timeout \<times> signature) list"
  have q: "is_quorum sample_verifier (fst ` set ?ts)"
    using quorum_sample by (simp add: insert_commute)
  have v: "list_all (\<lambda>(a, t, sig). to_epoch t = 1 \<and> to_round t = 4 \<and>
      timeout_verify ?E t sample_verifier = Ok () \<and>
      vv_verify (env_crypto ?E) sample_verifier a (signing_format t) sig = Ok ()) ?ts" by code_simp
  have "aggregation_complete_multi (env_crypto ?E)" by (simp add: sample_env_def linear_crypto_multi)
  moreover have "distinct (map fst ?ts)" by simp
  moreover have "hqc_round (sample_timeout 4 0) = 0" "hqc_round (sample_timeout 4 1) = 1"
    "hqc_round (sample_timeout 4 2) = 2" by code_simp+
  ultimately show ?thesis using collected_timeouts_verify [OF q _ v] by auto
qed

text \<open>
  A repeated timeout breaks the certificate. The partial certificate takes over the quorum
  certificate of every timeout with a higher one, also when the author has a share already, and the
  share keeps its old round. After three timeouts that verify for round 4 and a second one of
  validator 3 with a higher quorum certificate, which verifies too, the aggregated certificate is
  rejected by \<^verbatim>\<open>TwoChainTimeoutCertificate::verify\<close>.
\<close>

theorem repeated_timeout_breaks_certificate:
  "\<exists>ts. list_all (\<lambda>(a, t, sig). to_epoch t = 1 \<and> to_round t = 4 \<and>
        timeout_verify (sample_env :: (unit, unit) env) t sample_verifier = Ok () \<and>
        vv_verify (env_crypto (sample_env :: (unit, unit) env)) sample_verifier a
          (signing_format t) sig = Ok ()) ts \<and>
      is_quorum sample_verifier (fst ` set ts) \<and>
      (\<exists>tc. tps_aggregate_signatures (sample_env :: (unit, unit) env) (tps_collect ts)
          sample_verifier = Ok tc \<and>
        tc_verify (sample_env :: (unit, unit) env) tc sample_verifier =
          Err (Msg ''Inconsistent hqc round''))"
proof (intro exI conjI)
  let ?ts = "[(3, sample_timeout 4 0, Signature [3]), (3, sample_timeout 4 2, Signature [9]),
    (1, sample_timeout 4 1, Signature [2]), (2, sample_timeout 4 1, Signature [4])]
    :: (author \<times> two_chain_timeout \<times> signature) list"
  let ?tc = "sample_tc [1, 1, 0] 9 2"
  show "list_all (\<lambda>(a, t, sig). to_epoch t = 1 \<and> to_round t = 4 \<and>
      timeout_verify (sample_env :: (unit, unit) env) t sample_verifier = Ok () \<and>
      vv_verify (env_crypto (sample_env :: (unit, unit) env)) sample_verifier a
        (signing_format t) sig = Ok ()) ?ts" by code_simp
  show "is_quorum sample_verifier (fst ` set ?ts)"
    using quorum_sample by (simp add: insert_commute)
  show "tps_aggregate_signatures (sample_env :: (unit, unit) env) (tps_collect ?ts)
      sample_verifier = Ok ?tc" by code_simp
  show "tc_verify (sample_env :: (unit, unit) env) ?tc sample_verifier =
    Err (Msg ''Inconsistent hqc round'')" by code_simp
qed

text \<open>
  The round a timeout certificate carries need not be a round that a signer has signed: entries
  of the list of rounds beyond the signers take part in the maximum and in no signature. The
  certificate below verifies and carries a quorum certificate of round 2, while all of its signers
  signed round 1.
\<close>

theorem timeout_certificate_round_unsigned:
  "\<exists>tc. tc_verify (sample_env :: (unit, unit) env) tc sample_verifier = Ok () \<and>
    list_all (\<lambda>(a, r). r < highest_hqc_round tc) (tc_claims sample_verifier tc)"
proof (intro exI conjI)
  let ?tc = "sample_tc [1, 1, 1, 2] 12 2"
  show "tc_verify (sample_env :: (unit, unit) env) ?tc sample_verifier = Ok ()" by code_simp
  show "list_all (\<lambda>(a, r). r < highest_hqc_round ?tc) (tc_claims sample_verifier ?tc)" by code_simp
qed

end
