(* ===== verification/Payload.thy ===== *)
theory Payload
  imports Signature_Aggregator
begin

text \<open>
  What a block carries: the batches and proofs of store of \<^verbatim>\<open>proof_of_store.rs\<close>, the optimistic
  quorum-store payload of \<^verbatim>\<open>payload.rs\<close> and the \<^verbatim>\<open>Payload\<close> of \<^verbatim>\<open>common.rs\<close> (all in
  \<^verbatim>\<open>consensus/consensus-types/src\<close>). Sums of \<^verbatim>\<open>usize\<close> (64 bits) are checked, as the release profile
  compiles them. The lemmas show that verification with the cache accepts only proofs that a quorum
  signed, how \<^verbatim>\<open>extend\<close> composes payloads, and that the declared sizes of unproven batches can make
  the length computation panic.
\<close>

section \<open>Batches and proofs of store\<close>

text \<open>A signed transaction is kept as its bytes.\<close>

datatype signed_transaction = SignedTransaction "u8 list"

record batch_info =
  b_author :: account_address
  b_batch_id :: "u64 \<times> u64"
  b_epoch :: u64
  b_expiration :: u64
  b_digest :: hash_value
  b_num_txns :: u64
  b_num_bytes :: u64
  b_gas_bucket_start :: u64

record proof_of_store =
  pos_info :: batch_info
  pos_multi_signature :: aggregate_signature

text \<open>
  The cache of verified proofs. An entry may be evicted at any moment, which only removes entries.
\<close>

type_synonym proof_cache = "batch_info \<rightharpoonup> aggregate_signature"

definition pos_verify ::
    "batch_info crypto \<Rightarrow> validator_verifier \<Rightarrow> proof_of_store
       \<Rightarrow> (proof_cache, anyhow_error, unit) method_res" where
  "pos_verify C validator p cache =
     (if cache (pos_info p) = Some (pos_multi_signature p) then (Ok (), cache)
      else
        let r = map_err (\<lambda>e. Context ''Failed to verify ProofOfStore for batch'' (VerifyErr e))
                  (verify_multi_signatures C validator (pos_info p) (pos_multi_signature p))
        in (r, if is_ok r then cache(pos_info p \<mapsto> pos_multi_signature p) else cache))"

fun m_iter :: "('a \<Rightarrow> ('s, 'e, unit) method_res) \<Rightarrow> 'a list \<Rightarrow> ('s, 'e, unit) method_res" where
  "m_iter f [] = m_return ()"
| "m_iter f (x # xs) = m_bind (f x) (\<lambda>_. m_iter f xs)"

definition pos_msg_verify ::
    "batch_info crypto \<Rightarrow> validator_verifier \<Rightarrow> nat \<Rightarrow> proof_of_store list
       \<Rightarrow> (proof_cache, anyhow_error, unit) method_res" where
  "pos_msg_verify C validator max_num_proofs ps =
     m_bind (m_lift (ensure (ps \<noteq> []) (Msg ''Empty message''))) (\<lambda>_.
     m_bind (m_lift (ensure (length ps \<le> max_num_proofs) (Msg ''Too many proofs''))) (\<lambda>_.
       m_iter (pos_verify C validator) ps))"

definition pos_msg_epoch :: "proof_of_store list \<Rightarrow> (anyhow_error, u64) res" where
  "pos_msg_epoch ps =
     bind (ensure (ps \<noteq> []) (Msg ''Empty message'')) (\<lambda>_.
     let e = b_epoch (pos_info (hd ps)) in
     bind (try_fold (\<lambda>_ p. ensure (b_epoch (pos_info p) = e) (Msg ''Epoch mismatch'')) () ps)
       (\<lambda>_. Ok e))"

record signed_batch_info =
  sbi_info :: batch_info
  sbi_signer :: account_address
  sbi_signature :: signature_with_status

definition sbi_verify ::
    "batch_info crypto \<Rightarrow> validator_verifier \<Rightarrow> verify_mode \<Rightarrow> u64 \<Rightarrow> account_address \<Rightarrow> u64
       \<Rightarrow> signed_batch_info \<Rightarrow> (anyhow_error, signed_batch_info) res" where
  "sbi_verify C validator mode now sender max_batch_expiry_gap_usecs s =
     bind (ensure (sender = sbi_signer s) (Msg ''Sender mismatch signer'')) (\<lambda>_.
     bind (unwrap (checked_add now max_batch_expiry_gap_usecs)) (\<lambda>bound.
     bind (ensure (b_expiration (sbi_info s) \<le> bound)
       (Msg ''Batch expiration too far in future'')) (\<lambda>_.
     bind (map_err VerifyErr
       (optimistic_verify C validator mode (sbi_signer s) (sbi_info s) (sbi_signature s))) (\<lambda>sig.
       Ok (s\<lparr>sbi_signature := sig\<rparr>)))))"

definition sbi_msg_verify ::
    "batch_info crypto \<Rightarrow> validator_verifier \<Rightarrow> verify_mode \<Rightarrow> u64 \<Rightarrow> account_address \<Rightarrow> nat \<Rightarrow> u64
       \<Rightarrow> signed_batch_info list \<Rightarrow> (anyhow_error, signed_batch_info list) res" where
  "sbi_msg_verify C validator mode now sender max_num_batches max_batch_expiry_gap_usecs ss =
     bind (ensure (ss \<noteq> []) (Msg ''Empty message'')) (\<lambda>_.
     bind (ensure (length ss \<le> max_num_batches) (Msg ''Too many batches'')) (\<lambda>_.
       try_map (sbi_verify C validator mode now sender max_batch_expiry_gap_usecs) ss))"

section \<open>Sizes\<close>

text \<open>\<^verbatim>\<open>Iterator::sum\<close> at \<^verbatim>\<open>usize\<close>; an overflow panics.\<close>

definition checked_sum :: "u64 list \<Rightarrow> ('e, u64) res" where
  "checked_sum xs = try_fold (\<lambda>acc x. unwrap (checked_add acc x)) 0 xs"

definition plus_checked :: "('e, u64) res \<Rightarrow> ('e, u64) res \<Rightarrow> ('e, u64) res" where
  "plus_checked a b = bind a (\<lambda>x. bind b (\<lambda>y. unwrap (checked_add x y)))"

definition proofs_num_txns :: "proof_of_store list \<Rightarrow> ('e, u64) res" where
  "proofs_num_txns ps = checked_sum (map (\<lambda>p. b_num_txns (pos_info p)) ps)"

definition proofs_num_bytes :: "proof_of_store list \<Rightarrow> ('e, u64) res" where
  "proofs_num_bytes ps = checked_sum (map (\<lambda>p. b_num_bytes (pos_info p)) ps)"

definition batches_num_txns :: "batch_info list \<Rightarrow> ('e, u64) res" where
  "batches_num_txns bs = checked_sum (map b_num_txns bs)"

definition batches_num_bytes :: "batch_info list \<Rightarrow> ('e, u64) res" where
  "batches_num_bytes bs = checked_sum (map b_num_bytes bs)"

section \<open>Execution limits\<close>

record txn_and_gas_limits =
  transaction_limit :: "u64 option"
  gas_limit :: "u64 option"

datatype payload_execution_limit =
    NoLimit
  | MaxTransactionsToExecute u64
  | TxnAndGasLimits txn_and_gas_limits

definition execution_limit_new :: "u64 option \<Rightarrow> u64 option \<Rightarrow> payload_execution_limit" where
  "execution_limit_new max_txns max_gas =
     (case max_txns of Some m \<Rightarrow> MaxTransactionsToExecute m | None \<Rightarrow> NoLimit)"

definition extend_options :: "u64 option \<Rightarrow> u64 option \<Rightarrow> ('e, u64 option) res" where
  "extend_options o1 o2 =
     (case (o1, o2) of
        (Some v1, Some v2) \<Rightarrow> bind (unwrap (checked_add v1 v2)) (\<lambda>v. Ok (Some v))
      | (Some v, None) \<Rightarrow> Ok (Some v)
      | (None, Some v) \<Rightarrow> Ok (Some v)
      | (None, None) \<Rightarrow> Ok None)"

fun extend_limit ::
    "payload_execution_limit \<Rightarrow> payload_execution_limit \<Rightarrow> ('e, payload_execution_limit) res" where
  "extend_limit NoLimit other = Ok other"
| "extend_limit l NoLimit = Ok l"
| "extend_limit (MaxTransactionsToExecute l1) (MaxTransactionsToExecute l2) =
     bind (unwrap (checked_add l1 l2)) (\<lambda>l. Ok (MaxTransactionsToExecute l))"
| "extend_limit (TxnAndGasLimits l1) (TxnAndGasLimits l2) =
     bind (extend_options (transaction_limit l1) (transaction_limit l2)) (\<lambda>t.
     bind (extend_options (gas_limit l1) (gas_limit l2)) (\<lambda>g.
       Ok (TxnAndGasLimits \<lparr>transaction_limit = t, gas_limit = g\<rparr>)))"
| "extend_limit (MaxTransactionsToExecute l1) (TxnAndGasLimits l2) =
     bind (unwrap (checked_add l1 (case transaction_limit l2 of Some t \<Rightarrow> t | None \<Rightarrow> 0))) (\<lambda>t.
       Ok (TxnAndGasLimits \<lparr>transaction_limit = Some t, gas_limit = gas_limit l2\<rparr>))"
| "extend_limit (TxnAndGasLimits l1) (MaxTransactionsToExecute l2) =
     bind (unwrap (checked_add l2 (case transaction_limit l1 of Some t \<Rightarrow> t | None \<Rightarrow> 0))) (\<lambda>t.
       Ok (TxnAndGasLimits \<lparr>transaction_limit = Some t, gas_limit = gas_limit l1\<rparr>))"

fun max_txns_to_execute :: "payload_execution_limit \<Rightarrow> u64 option" where
  "max_txns_to_execute NoLimit = None"
| "max_txns_to_execute (MaxTransactionsToExecute m) = Some m"
| "max_txns_to_execute (TxnAndGasLimits l) = transaction_limit l"

fun block_gas_limit :: "payload_execution_limit \<Rightarrow> u64 option" where
  "block_gas_limit NoLimit = None"
| "block_gas_limit (MaxTransactionsToExecute m) = None"
| "block_gas_limit (TxnAndGasLimits l) = gas_limit l"

definition sum_options :: "u64 option \<Rightarrow> u64 option \<Rightarrow> ('e, u64 option) res" where
  "sum_options o1 o2 =
     (case (o1, o2) of
        (None, _) \<Rightarrow> Ok o2
      | (_, None) \<Rightarrow> Ok o1
      | (Some v1, Some v2) \<Rightarrow> bind (unwrap (checked_add v1 v2)) (\<lambda>v. Ok (Some v)))"

section \<open>Payloads\<close>

record inline_batch =
  ib_batch_info :: batch_info
  ib_transactions :: "signed_transaction list"

record opt_quorum_store_payload =
  oqs_inline_batches :: "inline_batch list"
  oqs_opt_batches :: "batch_info list"
  oqs_proofs :: "proof_of_store list"
  oqs_execution_limits :: payload_execution_limit

definition oqs_num_txns :: "opt_quorum_store_payload \<Rightarrow> ('e, u64) res" where
  "oqs_num_txns p =
     plus_checked (plus_checked (batches_num_txns (oqs_opt_batches p)) (proofs_num_txns (oqs_proofs p)))
       (batches_num_txns (map ib_batch_info (oqs_inline_batches p)))"

definition oqs_num_bytes :: "opt_quorum_store_payload \<Rightarrow> ('e, u64) res" where
  "oqs_num_bytes p =
     plus_checked (plus_checked (batches_num_bytes (oqs_opt_batches p)) (proofs_num_bytes (oqs_proofs p)))
       (batches_num_bytes (map ib_batch_info (oqs_inline_batches p)))"

definition oqs_is_empty :: "opt_quorum_store_payload \<Rightarrow> bool" where
  "oqs_is_empty p \<longleftrightarrow> oqs_opt_batches p = [] \<and> oqs_proofs p = [] \<and> oqs_inline_batches p = []"

definition oqs_extend ::
    "opt_quorum_store_payload \<Rightarrow> opt_quorum_store_payload \<Rightarrow> ('e, opt_quorum_store_payload) res" where
  "oqs_extend p other =
     bind (extend_limit (oqs_execution_limits p) (oqs_execution_limits other)) (\<lambda>l. Ok
       \<lparr>oqs_inline_batches = oqs_inline_batches p @ oqs_inline_batches other,
        oqs_opt_batches = oqs_opt_batches p @ oqs_opt_batches other,
        oqs_proofs = oqs_proofs p @ oqs_proofs other,
        oqs_execution_limits = l\<rparr>)"

definition get_all_batch_infos :: "opt_quorum_store_payload \<Rightarrow> batch_info list" where
  "get_all_batch_infos p =
     map ib_batch_info (oqs_inline_batches p) @ oqs_opt_batches p @ map pos_info (oqs_proofs p)"

definition check_epoch :: "opt_quorum_store_payload \<Rightarrow> u64 \<Rightarrow> (anyhow_error, unit) res" where
  "check_epoch p e =
     bind (ensure (list_all (\<lambda>b. b_epoch (ib_batch_info b) = e) (oqs_inline_batches p))
       (Msg ''OptQS InlineBatch epoch doesn't match given epoch'')) (\<lambda>_.
     bind (ensure (list_all (\<lambda>b. b_epoch b = e) (oqs_opt_batches p))
       (Msg ''OptQS OptBatch epoch doesn't match given epoch'')) (\<lambda>_.
       ensure (list_all (\<lambda>b. b_epoch (pos_info b) = e) (oqs_proofs p))
         (Msg ''OptQS Proof epoch doesn't match given epoch'')))"

datatype payload =
    DirectMempool "signed_transaction list"
  | InQuorumStore "proof_of_store list"
  | InQuorumStoreWithLimit "proof_of_store list" "u64 option"
  | QuorumStoreInlineHybrid "(batch_info \<times> signed_transaction list) list" "proof_of_store list"
      "u64 option"
  | OptQuorumStore opt_quorum_store_payload
  | QuorumStoreInlineHybridV2 "(batch_info \<times> signed_transaction list) list" "proof_of_store list"
      payload_execution_limit

fun transform_to_quorum_store_v2 ::
    "payload \<Rightarrow> u64 option \<Rightarrow> u64 option \<Rightarrow> ('e, payload) res" where
  "transform_to_quorum_store_v2 (InQuorumStore ps) m g = Ok (InQuorumStoreWithLimit ps m)"
| "transform_to_quorum_store_v2 (QuorumStoreInlineHybrid bs ps _) m g =
     Ok (QuorumStoreInlineHybrid bs ps m)"
| "transform_to_quorum_store_v2 (InQuorumStoreWithLimit _ _) m g = Panic"
| "transform_to_quorum_store_v2 (DirectMempool _) m g = Panic"
| "transform_to_quorum_store_v2 (OptQuorumStore p) m g =
     Ok (OptQuorumStore (p\<lparr>oqs_execution_limits :=
       TxnAndGasLimits \<lparr>transaction_limit = m, gas_limit = g\<rparr>\<rparr>))"
| "transform_to_quorum_store_v2 (QuorumStoreInlineHybridV2 bs ps _) m g =
     Ok (QuorumStoreInlineHybridV2 bs ps
       (TxnAndGasLimits \<lparr>transaction_limit = m, gas_limit = g\<rparr>))"

definition payload_empty :: "bool \<Rightarrow> bool \<Rightarrow> payload" where
  "payload_empty quorum_store_enabled allow_batches_without_pos_in_proposal =
     (if quorum_store_enabled then
        if allow_batches_without_pos_in_proposal then QuorumStoreInlineHybrid [] [] None
        else InQuorumStore []
      else DirectMempool [])"

definition inline_num_txns :: "(batch_info \<times> signed_transaction list) list \<Rightarrow> ('e, u64) res" where
  "inline_num_txns bs = checked_sum (map (\<lambda>(_, txns). word_of_nat (length txns)) bs)"

fun payload_len :: "payload \<Rightarrow> ('e, u64) res" where
  "payload_len (DirectMempool txns) = Ok (word_of_nat (length txns))"
| "payload_len (InQuorumStore ps) = proofs_num_txns ps"
| "payload_len (InQuorumStoreWithLimit ps _) = proofs_num_txns ps"
| "payload_len (QuorumStoreInlineHybrid bs ps _) = plus_checked (proofs_num_txns ps) (inline_num_txns bs)"
| "payload_len (QuorumStoreInlineHybridV2 bs ps _) =
     plus_checked (proofs_num_txns ps) (inline_num_txns bs)"
| "payload_len (OptQuorumStore p) = oqs_num_txns p"

definition min_limit :: "('e, u64) res \<Rightarrow> u64 option \<Rightarrow> ('e, u64) res" where
  "min_limit r m = bind r (\<lambda>n. Ok (min n (case m of Some l \<Rightarrow> l | None \<Rightarrow> - 1)))"

fun len_for_execution :: "payload \<Rightarrow> ('e, u64) res" where
  "len_for_execution (DirectMempool txns) = Ok (word_of_nat (length txns))"
| "len_for_execution (InQuorumStore ps) = proofs_num_txns ps"
| "len_for_execution (InQuorumStoreWithLimit ps m) = min_limit (proofs_num_txns ps) m"
| "len_for_execution (QuorumStoreInlineHybrid bs ps m) =
     min_limit (plus_checked (proofs_num_txns ps) (inline_num_txns bs)) m"
| "len_for_execution (OptQuorumStore p) =
     min_limit (oqs_num_txns p) (max_txns_to_execute (oqs_execution_limits p))"
| "len_for_execution (QuorumStoreInlineHybridV2 bs ps l) =
     min_limit (plus_checked (proofs_num_txns ps) (inline_num_txns bs)) (max_txns_to_execute l)"

fun payload_is_empty :: "payload \<Rightarrow> bool" where
  "payload_is_empty (DirectMempool txns) \<longleftrightarrow> txns = []"
| "payload_is_empty (InQuorumStore ps) \<longleftrightarrow> ps = []"
| "payload_is_empty (InQuorumStoreWithLimit ps _) \<longleftrightarrow> ps = []"
| "payload_is_empty (QuorumStoreInlineHybrid bs ps _) \<longleftrightarrow> ps = [] \<and> bs = []"
| "payload_is_empty (QuorumStoreInlineHybridV2 bs ps _) \<longleftrightarrow> ps = [] \<and> bs = []"
| "payload_is_empty (OptQuorumStore p) \<longleftrightarrow> oqs_is_empty p"

fun payload_extend :: "payload \<Rightarrow> payload \<Rightarrow> ('e, payload) res" where
  "payload_extend (DirectMempool v1) (DirectMempool v2) = Ok (DirectMempool (v1 @ v2))"
| "payload_extend (InQuorumStore p1) (InQuorumStore p2) = Ok (InQuorumStore (p1 @ p2))"
| "payload_extend (InQuorumStoreWithLimit p1 m1) (InQuorumStoreWithLimit p2 m2) =
     Ok (InQuorumStoreWithLimit (p1 @ p2) (if m1 = None then m2 else m1))"
| "payload_extend (QuorumStoreInlineHybrid b1 p1 m1) (QuorumStoreInlineHybrid b2 p2 m2) =
     bind (sum_options m1 m2) (\<lambda>m3. Ok (QuorumStoreInlineHybrid (b1 @ b2) (p1 @ p2) m3))"
| "payload_extend (QuorumStoreInlineHybridV2 b1 p1 l1) (QuorumStoreInlineHybridV2 b2 p2 l2) =
     bind (extend_limit l1 l2) (\<lambda>l3. Ok (QuorumStoreInlineHybridV2 (b1 @ b2) (p1 @ p2) l3))"
| "payload_extend (QuorumStoreInlineHybrid b1 p1 m1) (InQuorumStore p2) =
     Ok (QuorumStoreInlineHybrid b1 (p1 @ p2) m1)"
| "payload_extend (QuorumStoreInlineHybridV2 b1 p1 l1) (InQuorumStore p2) =
     Ok (QuorumStoreInlineHybridV2 b1 (p1 @ p2) l1)"
| "payload_extend (QuorumStoreInlineHybrid b1 p1 m1) (InQuorumStoreWithLimit p2 m2) =
     bind (sum_options m1 m2) (\<lambda>m3. Ok (QuorumStoreInlineHybrid b1 (p1 @ p2) m3))"
| "payload_extend (QuorumStoreInlineHybridV2 b1 p1 l1) (InQuorumStoreWithLimit p2 m2) =
     bind (sum_options (max_txns_to_execute l1) m2) (\<lambda>m3. Ok (QuorumStoreInlineHybridV2 b1 (p1 @ p2)
       (TxnAndGasLimits \<lparr>transaction_limit = m3, gas_limit = block_gas_limit l1\<rparr>)))"
| "payload_extend (InQuorumStore p1) (QuorumStoreInlineHybrid b2 p2 m2) =
     Ok (QuorumStoreInlineHybrid b2 (p1 @ p2) m2)"
| "payload_extend (InQuorumStore p1) (QuorumStoreInlineHybridV2 b2 p2 l2) =
     Ok (QuorumStoreInlineHybridV2 b2 (p1 @ p2) l2)"
| "payload_extend (InQuorumStoreWithLimit p1 m1) (QuorumStoreInlineHybrid b2 p2 m2) =
     bind (sum_options m1 m2) (\<lambda>m3. Ok (QuorumStoreInlineHybrid b2 (p1 @ p2) m3))"
| "payload_extend (InQuorumStoreWithLimit p1 m1) (QuorumStoreInlineHybridV2 b2 p2 l2) =
     bind (sum_options m1 (max_txns_to_execute l2)) (\<lambda>m3. Ok (QuorumStoreInlineHybridV2 b2 (p1 @ p2)
       (TxnAndGasLimits \<lparr>transaction_limit = m3, gas_limit = block_gas_limit l2\<rparr>)))"
| "payload_extend (OptQuorumStore p1) (OptQuorumStore p2) =
     bind (oqs_extend p1 p2) (\<lambda>p3. Ok (OptQuorumStore p3))"
| "payload_extend _ _ = Panic"

fun is_direct :: "payload \<Rightarrow> bool" where
  "is_direct (DirectMempool _) = True"
| "is_direct _ = False"

definition verify_with_cache ::
    "batch_info crypto \<Rightarrow> validator_verifier \<Rightarrow> proof_of_store list
       \<Rightarrow> (proof_cache, anyhow_error, unit) method_res" where
  "verify_with_cache C validator ps cache =
     m_iter (pos_verify C validator)
       (filter (\<lambda>p. cache (pos_info p) \<noteq> Some (pos_multi_signature p)) ps) cache"

text \<open>The digest of a batch is the hash of its author and transactions.\<close>

type_synonym batch_hash = "account_address \<times> signed_transaction list \<Rightarrow> hash_value"

definition verify_inline_batches ::
    "batch_hash \<Rightarrow> (batch_info \<times> signed_transaction list) list \<Rightarrow> (anyhow_error, unit) res" where
  "verify_inline_batches H bs =
     try_fold (\<lambda>_ (batch, txns). ensure (H (b_author batch, txns) = b_digest batch)
       (Msg ''Hash of the received inline batch doesn't match the digest value for batch'')) () bs"

definition verify_opt_batches ::
    "validator_verifier \<Rightarrow> batch_info list \<Rightarrow> (anyhow_error, unit) res" where
  "verify_opt_batches verifier bs =
     try_fold (\<lambda>_ batch. ensure (contains_key (b_author batch) (address_to_validator_index verifier))
       (Msg ''Invalid author for batch'')) () bs"

fun payload_verify ::
    "batch_info crypto \<Rightarrow> batch_hash \<Rightarrow> validator_verifier \<Rightarrow> bool \<Rightarrow> payload
       \<Rightarrow> (proof_cache, anyhow_error, unit) method_res" where
  "payload_verify C H vv False (DirectMempool _) = m_return ()"
| "payload_verify C H vv True (InQuorumStore ps) = verify_with_cache C vv ps"
| "payload_verify C H vv True (InQuorumStoreWithLimit ps _) = verify_with_cache C vv ps"
| "payload_verify C H vv True (QuorumStoreInlineHybrid bs ps _) =
     m_bind (verify_with_cache C vv ps) (\<lambda>_. m_lift (verify_inline_batches H bs))"
| "payload_verify C H vv True (QuorumStoreInlineHybridV2 bs ps _) =
     m_bind (verify_with_cache C vv ps) (\<lambda>_. m_lift (verify_inline_batches H bs))"
| "payload_verify C H vv True (OptQuorumStore p) =
     m_bind (verify_with_cache C vv (oqs_proofs p)) (\<lambda>_.
     m_bind (m_lift (verify_inline_batches H
       (map (\<lambda>b. (ib_batch_info b, ib_transactions b)) (oqs_inline_batches p)))) (\<lambda>_.
       m_lift (verify_opt_batches vv (oqs_opt_batches p))))"
| "payload_verify C H vv _ _ =
     m_lift (Err (Msg ''Wrong payload type. Expected Payload::InQuorumStore''))"

fun payload_verify_epoch :: "payload \<Rightarrow> u64 \<Rightarrow> (anyhow_error, unit) res" where
  "payload_verify_epoch (DirectMempool _) e = Ok ()"
| "payload_verify_epoch (InQuorumStore ps) e =
     ensure (list_all (\<lambda>p. b_epoch (pos_info p) = e) ps)
       (Msg ''Payload epoch doesn't match given epoch'')"
| "payload_verify_epoch (InQuorumStoreWithLimit ps _) e =
     ensure (list_all (\<lambda>p. b_epoch (pos_info p) = e) ps)
       (Msg ''Payload epoch doesn't match given epoch'')"
| "payload_verify_epoch (QuorumStoreInlineHybrid bs ps _) e =
     bind (ensure (list_all (\<lambda>p. b_epoch (pos_info p) = e) ps)
       (Msg ''Payload proof epoch doesn't match given epoch'')) (\<lambda>_.
       ensure (list_all (\<lambda>b. b_epoch (fst b) = e) bs)
         (Msg ''Payload inline batch epoch doesn't match given epoch''))"
| "payload_verify_epoch (QuorumStoreInlineHybridV2 bs ps _) e =
     bind (ensure (list_all (\<lambda>p. b_epoch (pos_info p) = e) ps)
       (Msg ''Payload proof epoch doesn't match given epoch'')) (\<lambda>_.
       ensure (list_all (\<lambda>b. b_epoch (fst b) = e) bs)
         (Msg ''Payload inline batch epoch doesn't match given epoch''))"
| "payload_verify_epoch (OptQuorumStore p) e = check_epoch p e"

section \<open>Parts of a payload\<close>

fun payload_txns :: "payload \<Rightarrow> signed_transaction list" where
  "payload_txns (DirectMempool txns) = txns"
| "payload_txns _ = []"

fun payload_proofs :: "payload \<Rightarrow> proof_of_store list" where
  "payload_proofs (DirectMempool _) = []"
| "payload_proofs (InQuorumStore ps) = ps"
| "payload_proofs (InQuorumStoreWithLimit ps _) = ps"
| "payload_proofs (QuorumStoreInlineHybrid _ ps _) = ps"
| "payload_proofs (QuorumStoreInlineHybridV2 _ ps _) = ps"
| "payload_proofs (OptQuorumStore p) = oqs_proofs p"

fun payload_inline :: "payload \<Rightarrow> (batch_info \<times> signed_transaction list) list" where
  "payload_inline (QuorumStoreInlineHybrid bs _ _) = bs"
| "payload_inline (QuorumStoreInlineHybridV2 bs _ _) = bs"
| "payload_inline (OptQuorumStore p) =
     map (\<lambda>b. (ib_batch_info b, ib_transactions b)) (oqs_inline_batches p)"
| "payload_inline _ = []"

fun payload_opt :: "payload \<Rightarrow> batch_info list" where
  "payload_opt (OptQuorumStore p) = oqs_opt_batches p"
| "payload_opt _ = []"

lemma extend_parts:
  assumes "payload_extend a b = Ok c"
  shows "payload_txns c = payload_txns a @ payload_txns b \<and>
    payload_proofs c = payload_proofs a @ payload_proofs b \<and>
    payload_inline c = payload_inline a @ payload_inline b \<and>
    payload_opt c = payload_opt a @ payload_opt b"
  using assms
  by (cases a; cases b) (auto simp: bind_Ok oqs_extend_def)

lemma payload_is_empty_parts:
  "payload_is_empty p \<longleftrightarrow>
     payload_txns p = [] \<and> payload_proofs p = [] \<and> payload_inline p = [] \<and> payload_opt p = []"
  by (cases p) (auto simp: oqs_is_empty_def)

lemma payload_verify_epoch_parts:
  "payload_verify_epoch p e = Ok u \<longleftrightarrow>
     list_all (\<lambda>q. b_epoch (pos_info q) = e) (payload_proofs p) \<and>
     list_all (\<lambda>b. b_epoch (fst b) = e) (payload_inline p) \<and>
     list_all (\<lambda>b. b_epoch b = e) (payload_opt p)"
  by (cases p) (auto simp: res_simps check_epoch_def list_all_iff)

section \<open>Verification with the cache\<close>

definition cache_ok :: "batch_info crypto \<Rightarrow> validator_verifier \<Rightarrow> proof_cache \<Rightarrow> bool" where
  "cache_ok C vv cache \<longleftrightarrow>
     (\<forall>info sig. cache info = Some sig \<longrightarrow> verify_multi_signatures C vv info sig = Ok ())"

text \<open>Evicting entries keeps the cache good.\<close>

lemma cache_ok_evict: "cache_ok C vv cache \<Longrightarrow> cache' \<subseteq>\<^sub>m cache \<Longrightarrow> cache_ok C vv cache'"
  by (auto simp: cache_ok_def map_le_def dom_def)

lemma pos_verify_cache_ok:
  assumes "cache_ok C vv cache" "pos_verify C vv p cache = (r, cache')"
  shows "cache_ok C vv cache'"
    and "r = Ok u \<Longrightarrow> verify_multi_signatures C vv (pos_info p) (pos_multi_signature p) = Ok ()"
  using assms
  by (auto simp: pos_verify_def cache_ok_def Let_def is_ok_iff res_simps split: if_splits)

lemma m_iter_pos_verify:
  assumes "cache_ok C vv cache" "m_iter (pos_verify C vv) ps cache = (Ok u, cache')"
  shows "cache_ok C vv cache' \<and>
    (\<forall>p \<in> set ps. verify_multi_signatures C vv (pos_info p) (pos_multi_signature p) = Ok ())"
  using assms
proof (induction ps arbitrary: cache)
  case (Cons p ps)
  from Cons.prems(2) obtain v c where v: "pos_verify C vv p cache = (Ok v, c)"
    and rest: "m_iter (pos_verify C vv) ps c = (Ok u, cache')"
    by (auto simp: m_bind_Ok)
  from pos_verify_cache_ok [OF Cons.prems(1) v] Cons.IH [OF _ rest] show ?case by auto
qed (simp add: m_prims_Ok)

lemma verify_with_cache_Ok:
  assumes "cache_ok C vv cache" "verify_with_cache C vv ps cache = (Ok u, cache')"
  shows "cache_ok C vv cache' \<and>
    (\<forall>p \<in> set ps. verify_multi_signatures C vv (pos_info p) (pos_multi_signature p) = Ok ())"
  using m_iter_pos_verify [OF assms(1) assms(2) [unfolded verify_with_cache_def]] assms(1)
  by (fastforce simp: cache_ok_def)

lemma try_fold_ensure:
  "try_fold (\<lambda>_ x. ensure (P x) e) () xs = Ok u \<longleftrightarrow> (\<forall>x \<in> set xs. P x)"
  by (induction xs) (auto simp: res_simps)

lemma verify_inline_batches_Ok:
  "verify_inline_batches H bs = Ok u \<longleftrightarrow> (\<forall>(b, txns) \<in> set bs. H (b_author b, txns) = b_digest b)"
  using try_fold_ensure [of "\<lambda>(b, txns). H (b_author b, txns) = b_digest b" _ bs]
  by (simp add: verify_inline_batches_def split_def)

lemma payload_verify_Ok:
  assumes "cache_ok C vv cache" "payload_verify C H vv qs p cache = (Ok u, cache')"
  shows "cache_ok C vv cache'"
    and "\<forall>q \<in> set (payload_proofs p).
           verify_multi_signatures C vv (pos_info q) (pos_multi_signature q) = Ok ()"
    and "\<forall>(b, txns) \<in> set (payload_inline p). H (b_author b, txns) = b_digest b"
    and "\<forall>b \<in> set (payload_opt p). contains_key (b_author b) (address_to_validator_index vv)"
proof -
  have "cache_ok C vv cache' \<and> (\<forall>q \<in> set (payload_proofs p).
      verify_multi_signatures C vv (pos_info q) (pos_multi_signature q) = Ok ()) \<and>
    (\<forall>(b, txns) \<in> set (payload_inline p). H (b_author b, txns) = b_digest b) \<and>
    (\<forall>b \<in> set (payload_opt p). contains_key (b_author b) (address_to_validator_index vv))"
    using assms(2,1)
    by (cases qs; cases p)
      (auto simp: m_bind_Ok m_prims_Ok verify_inline_batches_Ok verify_opt_batches_def
        try_fold_ensure dest: verify_with_cache_Ok [OF assms(1)])
  then show "cache_ok C vv cache'" and "\<forall>q \<in> set (payload_proofs p).
      verify_multi_signatures C vv (pos_info q) (pos_multi_signature q) = Ok ()"
    and "\<forall>(b, txns) \<in> set (payload_inline p). H (b_author b, txns) = b_digest b"
    and "\<forall>b \<in> set (payload_opt p). contains_key (b_author b) (address_to_validator_index vv)"
    by blast+
qed

section \<open>Lengths\<close>

lemma checked_sum_Ok:
  assumes "checked_sum xs = Ok n"
  shows "unat n = sum_list (map unat xs)"
proof -
  have "unat n = unat acc + sum_list (map unat xs)"
    if "try_fold (\<lambda>acc x. unwrap (checked_add acc x)) acc xs = Ok n" for acc :: u64
    using that
  proof (induction xs arbitrary: acc)
    case (Cons x xs)
    then show ?case by (fastforce simp: res_simps dest: unat_checked_add)
  qed simp
  from this [of 0] assms show ?thesis by (simp add: checked_sum_def)
qed

lemma plus_checked_Ok:
  "plus_checked a b = Ok n \<Longrightarrow> \<exists>x y. a = Ok x \<and> b = Ok y \<and> unat n = unat x + unat y"
  by (auto simp: plus_checked_def res_simps dest: unat_checked_add)

lemma len_for_execution_le:
  assumes "payload_len p = (Ok n :: ('e, u64) res)" "len_for_execution p = (Ok m :: ('e, u64) res)"
  shows "m \<le> n"
  using assms by (cases p) (auto simp: min_limit_def res_simps)

section \<open>Concrete batches\<close>

definition sample_batch :: "account_address \<Rightarrow> u64 \<Rightarrow> batch_info" where
  "sample_batch a n =
     \<lparr>b_author = a, b_batch_id = (1, 0), b_epoch = 1, b_expiration = 0, b_digest = 0,
      b_num_txns = n, b_num_bytes = n, b_gas_bucket_start = 0\<rparr>"

definition sample_proof :: proof_of_store where
  "sample_proof =
     \<lparr>pos_info = sample_batch 1 10,
      pos_multi_signature =
        \<lparr>validator_bitmask = \<lparr>inner = [0xE0]\<rparr>, agg_sig = Some (Signature [30])\<rparr>\<rparr>"

section \<open>Properties\<close>

text \<open>
  C34. Verification with the cache is sound: starting from a cache that holds only signatures that
  verify, a payload that \<^verbatim>\<open>Payload::verify\<close> accepts has only proofs of store signed by a quorum of
  the validators, only inline batches whose transactions hash to their digest, and only optimistic
  batches of known authors; the cache afterwards again holds only signatures that verify, and so
  does the cache after evictions.
\<close>

theorem payload_verify_sound:
  assumes "wf_verifier vv" "cache_ok C vv cache"
    and "payload_verify C H vv quorum_store_enabled p cache = (Ok (), cache')"
    and "evicted \<subseteq>\<^sub>m cache'"
  shows "(\<forall>q \<in> set (payload_proofs p).
      is_quorum vv (signer_set vv (pos_multi_signature q)) \<and>
      certifies C vv (pos_info q) (pos_multi_signature q)) \<and>
    (\<forall>(b, txns) \<in> set (payload_inline p). H (b_author b, txns) = b_digest b) \<and>
    (\<forall>b \<in> set (payload_opt p). b_author b \<in> members vv) \<and>
    cache_ok C vv evicted"
proof -
  note ok = payload_verify_Ok [OF assms(2,3)]
  have "b_author b \<in> members vv" if "b \<in> set (payload_opt p)" for b
    using ok(4) that wf_get_None(1) [OF assms(1), of "b_author b"]
    by (auto simp: contains_key_def get_voting_power_def)
  moreover have "\<forall>q \<in> set (payload_proofs p).
      is_quorum vv (signer_set vv (pos_multi_signature q)) \<and>
      certifies C vv (pos_info q) (pos_multi_signature q)"
  proof
    fix q
    assume "q \<in> set (payload_proofs p)"
    from verify_multi_signatures_Ok [OF assms(1) ok(2) [rule_format, OF this]]
    show "is_quorum vv (signer_set vv (pos_multi_signature q)) \<and>
        certifies C vv (pos_info q) (pos_multi_signature q)" ..
  qed
  ultimately show ?thesis using ok(3) cache_ok_evict [OF ok(1) assms(4)] by simp
qed

theorem payload_verify_sound_witness:
  "\<exists>cache'. payload_verify (linear_crypto (\<lambda>_. 5)) (\<lambda>_. 0) sample_verifier True
      (InQuorumStore [sample_proof]) Map.empty = (Ok (), cache') \<and>
    is_quorum sample_verifier (signer_set sample_verifier (pos_multi_signature sample_proof))"
proof -
  let ?C = "linear_crypto (\<lambda>_ :: batch_info. 5)"
  have v: "verify_multi_signatures ?C sample_verifier (pos_info sample_proof)
      (pos_multi_signature sample_proof) = Ok ()" by code_simp
  have r: "payload_verify ?C (\<lambda>_. 0) sample_verifier True (InQuorumStore [sample_proof]) Map.empty =
      (Ok (), Map.empty(pos_info sample_proof \<mapsto> pos_multi_signature sample_proof))"
    by (simp add: verify_with_cache_def pos_verify_def v m_bind_def m_return_def)
  have "cache_ok ?C sample_verifier Map.empty" by (simp add: cache_ok_def)
  from payload_verify_sound [OF wf_sample this r map_le_refl] r show ?thesis by auto
qed

text \<open>
  \<^verbatim>\<open>Payload::extend\<close>, when it returns, concatenates the transactions, proofs, inline batches and
  optimistic batches of the two payloads in order. So the result is empty exactly when both are, and
  it belongs to an epoch exactly when both do.
\<close>

theorem payload_extend_concatenates:
  assumes "payload_extend a b = (Ok c :: (unit, payload) res)"
  shows "payload_txns c = payload_txns a @ payload_txns b \<and>
    payload_proofs c = payload_proofs a @ payload_proofs b \<and>
    payload_inline c = payload_inline a @ payload_inline b \<and>
    payload_opt c = payload_opt a @ payload_opt b \<and>
    (payload_is_empty c \<longleftrightarrow> payload_is_empty a \<and> payload_is_empty b) \<and>
    (is_ok (payload_verify_epoch c e) \<longleftrightarrow>
       is_ok (payload_verify_epoch a e) \<and> is_ok (payload_verify_epoch b e))"
  using extend_parts [OF assms]
  by (auto simp: payload_is_empty_parts is_ok_iff payload_verify_epoch_parts)

theorem payload_extend_concatenates_witness:
  "payload_extend (InQuorumStore [sample_proof]) (QuorumStoreInlineHybrid [(sample_batch 2 3, [])] [] (Some 4))
     = (Ok (QuorumStoreInlineHybrid [(sample_batch 2 3, [])] [sample_proof] (Some 4))
        :: (unit, payload) res) \<and>
   is_ok (payload_verify_epoch
     (QuorumStoreInlineHybrid [(sample_batch 2 3, [])] [sample_proof] (Some 4)) 1)"
proof -
  have r: "payload_extend (InQuorumStore [sample_proof])
      (QuorumStoreInlineHybrid [(sample_batch 2 3, [])] [] (Some 4)) =
      (Ok (QuorumStoreInlineHybrid [(sample_batch 2 3, [])] [sample_proof] (Some 4))
        :: (unit, payload) res)" by simp
  have "is_ok (payload_verify_epoch (InQuorumStore [sample_proof]) 1)"
    "is_ok (payload_verify_epoch (QuorumStoreInlineHybrid [(sample_batch 2 3, [])] [] (Some 4)) 1)"
    by code_simp+
  with payload_extend_concatenates [OF r, of 1] r show ?thesis by blast
qed

text \<open>
  The sizes a proposer declares for optimistic batches are not bounded by verification: there is
  a payload that \<^verbatim>\<open>Payload::verify\<close> and \<^verbatim>\<open>Payload::verify_epoch\<close> accept and whose \<^verbatim>\<open>len()\<close>, which the
  round manager computes for every received proposal, overflows \<^verbatim>\<open>usize\<close> and panics.
\<close>

theorem payload_len_can_panic:
  "\<exists>p. fst (payload_verify C H sample_verifier True p cache) = Ok () \<and>
       payload_verify_epoch p 1 = Ok () \<and>
       payload_len p = (Panic :: (unit, u64) res)"
proof -
  let ?p = "OptQuorumStore \<lparr>oqs_inline_batches = [],
    oqs_opt_batches = [sample_batch 1 (2 ^ 63), sample_batch 1 (2 ^ 63)],
    oqs_proofs = [], oqs_execution_limits = NoLimit\<rparr>"
  have "list_all (\<lambda>b. contains_key (b_author b) (address_to_validator_index sample_verifier))
      [sample_batch 1 (2 ^ 63), sample_batch 1 (2 ^ 63)]" by code_simp
  then have "fst (payload_verify C H sample_verifier True ?p cache) = Ok ()"
    by (simp add: verify_with_cache_def m_bind_def m_return_def m_lift_def verify_inline_batches_def
        verify_opt_batches_def ensure_def)
  moreover have "payload_verify_epoch ?p 1 = Ok ()"
    by (simp add: check_epoch_def ensure_def sample_batch_def)
  moreover have "payload_len ?p = (Panic :: (unit, u64) res)"
    by (simp add: oqs_num_txns_def batches_num_txns_def checked_sum_def sample_batch_def
        checked_add_def plus_checked_def unwrap_def)
  ultimately show ?thesis by blast
qed

end
