(* ===== verification/Accumulator.thy ===== *)
theory Accumulator
  imports Ledger_Types
begin

text \<open>
  The in-memory Merkle accumulator of \<^verbatim>\<open>types/src/proof/accumulator/mod.rs\<close> and the extension proof of
  \<^verbatim>\<open>types/src/proof/definition.rs\<close>. The hash of an internal node is a parameter. The implementation
  keeps the roots of the maximal full subtrees; it is shown to agree with the recursive definition
  of a Merkle tree padded with placeholders: appending leaves is appending to the list of leaves, and
  the root hash is the root of the padded tree of least depth.
\<close>

section \<open>Model\<close>

type_synonym node_hash = "hash_value \<Rightarrow> hash_value \<Rightarrow> hash_value"

definition MAX_ACCUMULATOR_LEAVES :: u64 where
  "MAX_ACCUMULATOR_LEAVES = 2 ^ 63"

record in_memory_accumulator =
  frozen_subtree_roots :: "hash_value list"
  num_leaves :: u64
  acc_root_hash :: hash_value

text \<open>The intrinsics \<^verbatim>\<open>u64::trailing_zeros\<close> and \<^verbatim>\<open>u64::count_ones\<close>.\<close>

definition u64_trailing_zeros :: "u64 \<Rightarrow> nat" where
  "u64_trailing_zeros w = length (takeWhile (\<lambda>i. \<not> bit w i) [0..<64])"

definition u64_count_ones :: "u64 \<Rightarrow> nat" where
  "u64_count_ones w = length (filter (bit w) [0..<64])"

text \<open>
  The loop of \<^verbatim>\<open>compute_root_hash\<close>. The last argument is the reversed iterator over the frozen
  roots; an exhausted iterator panics.
\<close>

function root_loop :: "node_hash \<Rightarrow> u64 \<Rightarrow> hash_value \<Rightarrow> hash_value list \<Rightarrow> ('e, hash_value) res" where
  "root_loop H bitmap current_hash iter =
     (if bitmap > 0 then
        if bitmap AND 1 \<noteq> 0 then
          (case iter of
             [] \<Rightarrow> Panic
           | r # rest \<Rightarrow> root_loop H (drop_bit 1 bitmap) (H r current_hash) rest)
        else root_loop H (drop_bit 1 bitmap) (H current_hash ACCUMULATOR_PLACEHOLDER_HASH) iter
      else Ok current_hash)"
  by pat_completeness auto

lemma unat_drop_bit_1: "unat (drop_bit 1 (w :: u64)) = unat w div 2"
  by (simp add: drop_bit_eq_div unat_div)

lemma unat_drop_bit_less: "0 < w \<Longrightarrow> unat (drop_bit 1 (w :: u64)) < unat w"
  by (simp only: unat_drop_bit_1) (simp add: unat_gt_0 word_gt_0)

termination root_loop
  by (relation "measure (\<lambda>(H, bitmap, c, it). unat bitmap)")
    (auto simp del: One_nat_def intro: unat_drop_bit_less)

declare root_loop.simps [simp del]

definition compute_root_hash :: "node_hash \<Rightarrow> hash_value list \<Rightarrow> u64 \<Rightarrow> ('e, hash_value) res" where
  "compute_root_hash H roots n =
     (case roots of
        [] \<Rightarrow> Ok ACCUMULATOR_PLACEHOLDER_HASH
      | [r] \<Rightarrow> Ok r
      | _ \<Rightarrow> root_loop H (drop_bit (u64_trailing_zeros n) n) ACCUMULATOR_PLACEHOLDER_HASH (rev roots))"

definition accumulator_new ::
    "node_hash \<Rightarrow> hash_value list \<Rightarrow> u64 \<Rightarrow> (anyhow_error, in_memory_accumulator) res" where
  "accumulator_new H roots n =
     bind (ensure (length roots = u64_count_ones n)
       (Msg ''The number of frozen subtrees does not match the number of leaves.'')) (\<lambda>_.
     bind (compute_root_hash H roots n) (\<lambda>root. Ok
       \<lparr>frozen_subtree_roots = roots, num_leaves = n, acc_root_hash = root\<rparr>))"

definition new_empty_with_root_hash :: "hash_value \<Rightarrow> in_memory_accumulator" where
  "new_empty_with_root_hash root =
     \<lparr>frozen_subtree_roots = [], num_leaves = 0, acc_root_hash = root\<rparr>"

definition accumulator_new_empty :: in_memory_accumulator where
  "accumulator_new_empty = new_empty_with_root_hash ACCUMULATOR_PLACEHOLDER_HASH"

text \<open>One pass of the merging loop: pop the two last roots, push their parent.\<close>

fun merge_last :: "node_hash \<Rightarrow> nat \<Rightarrow> hash_value list \<Rightarrow> ('e, hash_value list) res" where
  "merge_last H 0 roots = Ok roots"
| "merge_last H (Suc k) roots =
     (case rev roots of
        right # left # rest \<Rightarrow> merge_last H k (rev rest @ [H left right])
      | _ \<Rightarrow> Panic)"

definition append_one ::
    "node_hash \<Rightarrow> hash_value list \<Rightarrow> u64 \<Rightarrow> hash_value \<Rightarrow> ('e, hash_value list) res" where
  "append_one H roots num_existing_leaves leaf =
     merge_last H (u64_trailing_zeros (NOT num_existing_leaves)) (roots @ [leaf])"

definition acc_append ::
    "node_hash \<Rightarrow> in_memory_accumulator \<Rightarrow> hash_value list \<Rightarrow> ('e, in_memory_accumulator) res" where
  "acc_append H acc leaves =
     bind (try_fold (\<lambda>(roots, n) leaf.
             bind (append_one H roots n leaf) (\<lambda>roots'.
             bind (unwrap (checked_add n 1)) (\<lambda>n'. Ok (roots', n'))))
           (frozen_subtree_roots acc, num_leaves acc) leaves)
       (\<lambda>(roots, n).
          case accumulator_new H roots n of Ok a \<Rightarrow> Ok a | _ \<Rightarrow> Panic)"

definition accumulator_default :: "node_hash \<Rightarrow> ('e, in_memory_accumulator) res" where
  "accumulator_default H = (case accumulator_new H [] 0 of Ok a \<Rightarrow> Ok a | _ \<Rightarrow> Panic)"

definition from_leaves :: "node_hash \<Rightarrow> hash_value list \<Rightarrow> ('e, in_memory_accumulator) res" where
  "from_leaves H leaves = bind (accumulator_default H) (\<lambda>acc. acc_append H acc leaves)"

definition acc_version :: "in_memory_accumulator \<Rightarrow> u64" where
  "acc_version acc = (if num_leaves acc = 0 then 0 else num_leaves acc - 1)"

text \<open>\<^verbatim>\<open>AccumulatorExtensionProof\<close>.\<close>

record accumulator_extension_proof =
  aep_frozen_subtree_roots :: "hash_value list"
  aep_num_leaves :: u64
  aep_leaves :: "hash_value list"

definition aep_verify ::
    "node_hash \<Rightarrow> accumulator_extension_proof \<Rightarrow> hash_value
       \<Rightarrow> (anyhow_error, in_memory_accumulator) res" where
  "aep_verify H p original_root =
     bind (accumulator_new H (aep_frozen_subtree_roots p) (aep_num_leaves p)) (\<lambda>original_tree.
     bind (ensure (acc_root_hash original_tree = original_root)
       (Msg ''Root hashes do not match.'')) (\<lambda>_.
       acc_append H original_tree (aep_leaves p)))"

section \<open>Reference definition\<close>

text \<open>
  The padded tree over the leaves: the node at depth \<open>d\<close> and index \<open>i\<close> covers the leaves from
  \<open>i * 2 ^ d\<close> to \<open>(i + 1) * 2 ^ d - 1\<close>; a node that covers no leaf is a placeholder.
\<close>

fun pnode :: "node_hash \<Rightarrow> hash_value list \<Rightarrow> nat \<Rightarrow> nat \<Rightarrow> hash_value" where
  "pnode H xs 0 i = (if i < length xs then xs ! i else ACCUMULATOR_PLACEHOLDER_HASH)"
| "pnode H xs (Suc d) i =
     (if i * 2 ^ Suc d < length xs then H (pnode H xs d (2 * i)) (pnode H xs d (2 * i + 1))
      else ACCUMULATOR_PLACEHOLDER_HASH)"

text \<open>The least depth of a tree with room for \<open>n\<close> leaves.\<close>

definition tree_depth :: "nat \<Rightarrow> nat" where
  "tree_depth n = (LEAST d. n \<le> 2 ^ d)"

definition merkle_root :: "node_hash \<Rightarrow> hash_value list \<Rightarrow> hash_value" where
  "merkle_root H xs = pnode H xs (tree_depth (length xs)) 0"

text \<open>
  The roots of the maximal full subtrees, smallest first; \<open>n\<close> counts the nodes of depth \<open>d\<close> that
  cover only leaves.
\<close>

function full_roots :: "node_hash \<Rightarrow> hash_value list \<Rightarrow> nat \<Rightarrow> nat \<Rightarrow> hash_value list" where
  "full_roots H xs d n =
     (if n = 0 then []
      else if odd n then pnode H xs d (n - 1) # full_roots H xs (Suc d) (n div 2)
      else full_roots H xs (Suc d) (n div 2))"
  by pat_completeness auto

termination full_roots
  by (relation "measure (\<lambda>(H, xs, d, n). n)") auto

declare full_roots.simps [simp del]

definition represents :: "node_hash \<Rightarrow> in_memory_accumulator \<Rightarrow> hash_value list \<Rightarrow> bool" where
  "represents H acc xs \<longleftrightarrow>
     unat (num_leaves acc) = length xs \<and>
     frozen_subtree_roots acc = rev (full_roots H xs 0 (length xs)) \<and>
     acc_root_hash acc = merkle_root H xs"

section \<open>Bits of the number of leaves\<close>

function trailing_ones :: "nat \<Rightarrow> nat" where
  "trailing_ones n = (if odd n then Suc (trailing_ones (n div 2)) else 0)"
  by pat_completeness auto

termination trailing_ones
  by (relation "measure id") (auto simp: odd_pos)

declare trailing_ones.simps [simp del]

lemma takeWhile_upt_Suc:
  "takeWhile P [0..<Suc k] = (if P 0 then 0 # map Suc (takeWhile (\<lambda>i. P (Suc i)) [0..<k]) else [])"
proof -
  have "[0..<Suc k] = 0 # map Suc [0..<k]" by (simp add: upt_conv_Cons map_Suc_upt del: upt_Suc)
  then show ?thesis by (simp add: takeWhile_map comp_def)
qed

lemma takeWhile_bit_nat: "length (takeWhile (bit (n :: nat)) [0..<k]) = min k (trailing_ones n)"
proof (induction k arbitrary: n)
  case (Suc k)
  have "bit n (Suc i) = bit (n div 2) i" for i by (simp add: bit_Suc)
  then show ?case
    using Suc.IH [of "n div 2"]
    by (simp only: takeWhile_upt_Suc) (simp add: bit_0 trailing_ones.simps [of n])
qed simp

lemma trailing_ones_bound: "n < 2 ^ k \<Longrightarrow> trailing_ones n \<le> k"
proof (induction k arbitrary: n)
  case 0
  then show ?case by (simp add: trailing_ones.simps)
next
  case (Suc k)
  then show ?case by (subst trailing_ones.simps) auto
qed

lemma u64_trailing_zeros_not: "u64_trailing_zeros (NOT w) = trailing_ones (unat w)"
proof -
  have "takeWhile (\<lambda>i. \<not> bit (NOT w) i) [0..<64] = takeWhile (bit (unat w)) [0..<64]"
    by (rule takeWhile_cong) (auto simp: bit_not_iff bit_unsigned_iff)
  then have "u64_trailing_zeros (NOT w) = min 64 (trailing_ones (unat w))"
    by (simp add: u64_trailing_zeros_def takeWhile_bit_nat)
  moreover have "trailing_ones (unat w) \<le> 64"
    using unsigned_less [of w, where ?'a = nat] by (intro trailing_ones_bound) simp
  ultimately show ?thesis by simp
qed

function trailing_zeros :: "nat \<Rightarrow> nat" where
  "trailing_zeros n = (if n \<noteq> 0 \<and> even n then Suc (trailing_zeros (n div 2)) else 0)"
  by pat_completeness auto

termination trailing_zeros
  by (relation "measure id") auto

declare trailing_zeros.simps [simp del]

lemma takeWhile_not_bit_nat:
  "n \<noteq> 0 \<Longrightarrow> length (takeWhile (\<lambda>i. \<not> bit (n :: nat) i) [0..<k]) = min k (trailing_zeros n)"
proof (induction k arbitrary: n)
  case (Suc k)
  have "bit n (Suc i) = bit (n div 2) i" for i by (simp add: bit_Suc)
  moreover have "n div 2 \<noteq> 0" if "even n" using that Suc.prems by auto
  ultimately show ?case
    using Suc.IH [of "n div 2"] Suc.prems
    by (simp only: takeWhile_upt_Suc) (simp add: bit_0 trailing_zeros.simps [of n])
qed simp

lemma trailing_zeros_odd: "n \<noteq> 0 \<Longrightarrow> \<exists>m. odd m \<and> n = 2 ^ trailing_zeros n * m"
proof (induction n rule: trailing_zeros.induct)
  case (1 n)
  show ?case
  proof (cases "even n")
    case True
    then have "n div 2 \<noteq> 0" using 1(2) by auto
    then obtain m where "odd m" "n div 2 = 2 ^ trailing_zeros (n div 2) * m" using 1 True by blast
    moreover from this(2) have "n = 2 * (2 ^ trailing_zeros (n div 2) * m)"
      using True by (metis dvd_mult_div_cancel)
    moreover have "trailing_zeros n = Suc (trailing_zeros (n div 2))"
      using True 1(2) by (subst trailing_zeros.simps) simp
    ultimately show ?thesis by (intro exI [of _ m]) (metis mult.assoc power_Suc)
  qed (simp add: trailing_zeros.simps [of n])
qed

lemma drop_trailing_zeros:
  assumes "w \<noteq> 0"
  shows "\<exists>t m. odd m \<and> unat w = 2 ^ t * m \<and> unat (drop_bit (u64_trailing_zeros w) w) = m"
proof -
  let ?t = "trailing_zeros (unat w)"
  have "unat w \<noteq> 0" using assms by (simp add: unat_eq_0)
  then obtain m where m: "odd m" "unat w = 2 ^ ?t * m" using trailing_zeros_odd by blast
  then have "2 ^ ?t dvd unat w" by (metis dvd_triv_left)
  then have "2 ^ ?t \<le> unat w" using \<open>unat w \<noteq> 0\<close> by (intro dvd_imp_le) auto
  also have "unat w < 2 ^ 64" using unsigned_less [of w, where ?'a = nat] by simp
  finally have "?t < 64" by (rule power_less_imp_less_exp [rotated]) simp
  have "takeWhile (\<lambda>i. \<not> bit w i) [0..<64] = takeWhile (\<lambda>i. \<not> bit (unat w) i) [0..<64]"
    by (rule takeWhile_cong) (auto simp: bit_unsigned_iff)
  then have "u64_trailing_zeros w = ?t"
    using \<open>?t < 64\<close> takeWhile_not_bit_nat [OF \<open>unat w \<noteq> 0\<close>, of 64]
    by (simp add: u64_trailing_zeros_def)
  moreover have "unat (drop_bit ?t w) = unat w div 2 ^ ?t"
    using unat_drop_bit_eq [of ?t w] drop_bit_eq_div [of ?t "unat w"] by (rule trans)
  moreover have "unat w div 2 ^ ?t = m"
    by (subst m(2)) simp
  ultimately show ?thesis using m by metis
qed

fun bit_length :: "nat \<Rightarrow> nat" where
  "bit_length n = (if n = 0 then 0 else Suc (bit_length (n div 2)))"

declare bit_length.simps [simp del]

lemma bit_length_bounds: "n < 2 ^ bit_length n \<and> (n \<noteq> 0 \<longrightarrow> 2 ^ (bit_length n - 1) \<le> n)"
proof (induction n rule: bit_length.induct)
  case (1 n)
  show ?case
  proof (cases "n = 0")
    case False
    then have IH: "n div 2 < 2 ^ bit_length (n div 2)"
      "n div 2 \<noteq> 0 \<longrightarrow> 2 ^ (bit_length (n div 2) - 1) \<le> n div 2" using 1 by auto
    have "n < 2 * 2 ^ bit_length (n div 2)" using IH(1) by linarith
    moreover have "2 ^ bit_length (n div 2) \<le> n"
    proof (cases "n div 2 = 0")
      case True
      with False show ?thesis by (simp add: bit_length.simps)
    next
      case nz: False
      then have "(2 :: nat) ^ bit_length (n div 2) = 2 * 2 ^ (bit_length (n div 2) - 1)"
        by (subst (1) bit_length.simps) (simp add: bit_length.simps [of "n div 2"])
      with IH(2) nz show ?thesis by linarith
    qed
    ultimately show ?thesis using False by (simp add: bit_length.simps [of n])
  qed (simp add: bit_length.simps)
qed

lemma bit_length_shift: "m \<noteq> 0 \<Longrightarrow> bit_length (2 ^ t * m) = t + bit_length m"
proof (induction t)
  case (Suc t)
  have "2 ^ Suc t * m \<noteq> 0" "2 ^ Suc t * m div 2 = 2 ^ t * m" using Suc by auto
  with Suc show ?case by (subst bit_length.simps) simp
qed simp

lemma tree_depth_power: "tree_depth (2 ^ k) = k"
  unfolding tree_depth_def by (rule Least_equality) (auto intro: power_le_imp_le_exp [of 2])

lemma tree_depth_bit_length:
  assumes "n \<noteq> 0" "\<forall>k. n \<noteq> 2 ^ k"
  shows "tree_depth n = bit_length n"
  unfolding tree_depth_def
proof (rule Least_equality)
  show "n \<le> 2 ^ bit_length n" using bit_length_bounds [of n] by simp
  fix d
  assume d: "n \<le> 2 ^ d"
  show "bit_length n \<le> d"
  proof (rule ccontr)
    assume "\<not> ?thesis"
    then have "(2 :: nat) ^ d \<le> 2 ^ (bit_length n - 1)" by (intro power_increasing) auto
    also have "\<dots> \<le> n" using bit_length_bounds [of n] assms(1) by simp
    finally show False using d assms(2) by (metis le_antisym)
  qed
qed

fun ones :: "nat \<Rightarrow> nat" where
  "ones n = (if n = 0 then 0 else n mod 2 + ones (n div 2))"

declare ones.simps [simp del]

lemma filter_bit_nat: "n < 2 ^ k \<Longrightarrow> length (filter (bit (n :: nat)) [0..<k]) = ones n"
proof (induction k arbitrary: n)
  case 0
  then show ?case by (simp add: ones.simps)
next
  case (Suc k)
  have "[0..<Suc k] = 0 # map Suc [0..<k]" by (simp add: upt_conv_Cons map_Suc_upt del: upt_Suc)
  then have "length (filter (bit n) [0..<Suc k]) =
      n mod 2 + length (filter (bit (n div 2)) [0..<k])"
    by (simp add: filter_map comp_def bit_Suc bit_0 odd_iff_mod_2_eq_one)
  also have "\<dots> = n mod 2 + ones (n div 2)" using Suc by simp
  also have "\<dots> = ones n" by (simp add: ones.simps [of n]) (simp add: ones.simps)
  finally show ?case .
qed

lemma u64_count_ones: "u64_count_ones w = ones (unat w)"
proof -
  have "filter (bit w) [0..<64] = filter (bit (unat w)) [0..<64]"
    by (rule filter_cong) (auto simp: bit_unsigned_iff)
  then show ?thesis
    using unsigned_less [of w, where ?'a = nat] by (simp add: u64_count_ones_def filter_bit_nat)
qed

section \<open>Full subtrees\<close>

lemma length_full_roots: "length (full_roots H xs d n) = ones n"
proof (induction n arbitrary: d rule: less_induct)
  case (less n)
  show ?case
  proof (cases "n = 0")
    case False
    then have "length (full_roots H xs (Suc d) (n div 2)) = ones (n div 2)" using less by simp
    with False show ?thesis
      by (simp add: full_roots.simps [of H xs d n] ones.simps [of n] odd_iff_mod_2_eq_one)
  qed (simp add: full_roots.simps ones.simps)
qed

lemma pnode_append:
  "(i + 1) * 2 ^ d \<le> length xs \<Longrightarrow> pnode H (xs @ ys) d i = pnode H xs d i"
proof (induction d arbitrary: i)
  case 0
  then show ?case by (simp add: nth_append)
next
  case (Suc d)
  have "i * 2 ^ Suc d < length xs" by (rule less_le_trans [OF _ Suc.prems]) simp
  moreover have "(2 * i + 1) * 2 ^ d \<le> length xs" "(2 * i + 1 + 1) * 2 ^ d \<le> length xs"
    using Suc.prems by (simp_all add: algebra_simps)
  ultimately show ?case using Suc.IH [of "2 * i"] Suc.IH [of "2 * i + 1"] by simp
qed

lemma full_roots_append:
  "n * 2 ^ d \<le> length xs \<Longrightarrow> full_roots H (xs @ ys) d n = full_roots H xs d n"
proof (induction n arbitrary: d rule: less_induct)
  case (less n)
  show ?case
  proof (cases "n = 0")
    case False
    have "n div 2 * 2 ^ Suc d \<le> n * 2 ^ d" by simp
    then have "full_roots H (xs @ ys) (Suc d) (n div 2) = full_roots H xs (Suc d) (n div 2)"
      using less False by (metis div_less_dividend le_trans less_2_cases_iff nat_neq_iff not_gr0 one_less_numeral_iff semiring_norm(76))
    moreover have "pnode H (xs @ ys) d (n - 1) = pnode H xs d (n - 1)"
      using less.prems False by (intro pnode_append) simp
    ultimately show ?thesis by (simp add: full_roots.simps [of H _ d n])
  qed (simp add: full_roots.simps)
qed

lemma merge_full_roots:
  assumes "Suc n * 2 ^ d \<le> length xs"
  shows "merge_last H (trailing_ones n) (rev (pnode H xs d n # full_roots H xs d n)) =
    (Ok (rev (full_roots H xs d (Suc n))) :: ('e, hash_value list) res)"
  using assms
proof (induction n arbitrary: d rule: less_induct)
  case (less n)
  show ?case
  proof (cases "even n")
    case True
    then have "full_roots H xs d n = full_roots H xs (Suc d) (n div 2)"
      by (cases "n = 0") (simp_all add: full_roots.simps)
    moreover have "full_roots H xs d (Suc n) = pnode H xs d n # full_roots H xs (Suc d) (n div 2)"
      using True by (subst full_roots.simps) simp
    ultimately show ?thesis using True by (simp add: trailing_ones.simps [of n])
  next
    case False
    then obtain k where n: "n = 2 * k + 1" by (metis oddE)
    have "full_roots H xs d n = pnode H xs d (2 * k) # full_roots H xs (Suc d) k"
      by (subst full_roots.simps) (simp add: n)
    moreover have "H (pnode H xs d (2 * k)) (pnode H xs d n) = pnode H xs (Suc d) k"
    proof -
      have "k * 2 ^ Suc d < Suc n * 2 ^ d" by (simp add: n)
      with less.prems have "k * 2 ^ Suc d < length xs" by linarith
      then show ?thesis by (simp add: n)
    qed
    moreover have "full_roots H xs d (Suc n) = full_roots H xs (Suc d) (Suc k)"
      by (subst full_roots.simps) (simp add: n)
    moreover have "merge_last H (trailing_ones k) (rev (pnode H xs (Suc d) k # full_roots H xs (Suc d) k))
        = (Ok (rev (full_roots H xs (Suc d) (Suc k))) :: ('e, hash_value list) res)"
      using less.prems by (intro less.IH) (simp_all add: n algebra_simps)
    moreover have "trailing_ones n = Suc (trailing_ones k)"
      by (subst trailing_ones.simps) (simp add: n)
    ultimately show ?thesis by simp
  qed
qed

lemma append_one_full_roots:
  assumes "unat n = length xs"
  shows "append_one H (rev (full_roots H xs 0 (length xs))) n leaf =
    Ok (rev (full_roots H (xs @ [leaf]) 0 (Suc (length xs))))"
proof -
  have "full_roots H (xs @ [leaf]) 0 (length xs) = full_roots H xs 0 (length xs)"
    by (rule full_roots_append) simp
  moreover have "pnode H (xs @ [leaf]) 0 (length xs) = leaf" by simp
  ultimately show ?thesis
    using merge_full_roots [of "length xs" 0 "xs @ [leaf]" H]
    by (simp add: append_one_def u64_trailing_zeros_not assms)
qed

section \<open>The root hash\<close>

lemma pnode_placeholder: "length xs \<le> i * 2 ^ d \<Longrightarrow> pnode H xs d i = ACCUMULATOR_PLACEHOLDER_HASH"
  by (cases d) simp_all

lemma root_loop_step_odd:
  assumes "odd b" "b = length xs div 2 ^ d"
  shows "H (pnode H xs d (b - 1)) (pnode H xs d b) = pnode H xs (Suc d) (b div 2)"
proof -
  obtain k where b: "b = 2 * k + 1" using assms(1) by (metis oddE)
  have "b * 2 ^ d \<le> length xs" using assms(2) by simp
  moreover have "k * 2 ^ Suc d < b * 2 ^ d" by (simp add: b)
  ultimately have "k * 2 ^ Suc d < length xs" by linarith
  then show ?thesis by (simp add: b)
qed

lemma root_loop_step_even:
  assumes "even b" "b = length xs div 2 ^ d" "length xs mod 2 ^ d \<noteq> 0"
  shows "H (pnode H xs d b) ACCUMULATOR_PLACEHOLDER_HASH = pnode H xs (Suc d) (b div 2)"
proof -
  have len: "length xs = b * 2 ^ d + length xs mod 2 ^ d" by (simp add: assms(2) div_mult_mod_eq)
  have "length xs mod 2 ^ d < 2 ^ d" by simp
  then have "length xs \<le> b * 2 ^ d + 2 ^ d" using len by linarith
  then have "length xs \<le> (b + 1) * 2 ^ d" by simp
  then have "pnode H xs d (b + 1) = ACCUMULATOR_PLACEHOLDER_HASH" by (rule pnode_placeholder)
  moreover have "b div 2 * 2 ^ Suc d = b * 2 ^ d" using assms(1) by simp
  then have "b div 2 * 2 ^ Suc d < length xs" using len assms(3) by linarith
  ultimately show ?thesis using assms(1) by simp
qed

lemma mod_double_neq_0:
  assumes "odd (n div 2 ^ d) \<or> n mod 2 ^ d \<noteq> 0"
  shows "n mod 2 ^ Suc d \<noteq> (0 :: nat)"
proof
  assume "n mod 2 ^ Suc d = 0"
  then obtain k where "n = 2 ^ Suc d * k" by (auto simp: mod_eq_0_iff_dvd)
  then have "n = 2 ^ d * (2 * k)" by simp
  then have "n div 2 ^ d = 2 * k" "n mod 2 ^ d = 0" by simp_all
  with assms show False by simp
qed

lemma and_1_odd: "(b :: u64) AND 1 \<noteq> 0 \<longleftrightarrow> odd (unat b)"
proof -
  have "bit (unat b) 0 \<longleftrightarrow> bit b 0" by (simp only: bit_unsigned_iff) simp
  then have "odd (unat b) \<longleftrightarrow> odd b" by (simp only: bit_0)
  then show ?thesis by (simp add: and_one_eq bit_0 odd_iff_mod_2_eq_one)
qed

lemma root_loop_pnode:
  assumes "unat b = length xs div 2 ^ d" "odd (unat b) \<or> length xs mod 2 ^ d \<noteq> 0"
  shows "root_loop H b (pnode H xs d (unat b)) (full_roots H xs d (unat b)) =
    (Ok (pnode H xs (d + bit_length (unat b)) 0) :: ('e, hash_value) res)"
  using assms
proof (induction "unat b" arbitrary: b d rule: less_induct)
  case less
  let ?b' = "drop_bit 1 b"
  show ?case
  proof (cases "b = 0")
    case True
    then show ?thesis by (simp add: root_loop.simps bit_length.simps)
  next
    case False
    then have pos: "0 < b" by (simp add: word_gt_0)
    have b': "unat ?b' = unat b div 2" by (rule unat_drop_bit_1)
    have "unat ?b' = length xs div 2 ^ Suc d"
      using less.prems(1) b' by (metis div_mult2_eq power_Suc2)
    note IH = less.hyps [OF unat_drop_bit_less [OF pos] this]
      and md = mod_double_neq_0 [of "length xs" d]
    have bl: "bit_length (unat b) = Suc (bit_length (unat b div 2))"
      using False by (subst bit_length.simps) (simp add: unat_eq_0)
    have "length xs mod 2 ^ Suc d \<noteq> 0" using less.prems md by simp
    then have IH': "root_loop H ?b' (pnode H xs (Suc d) (unat b div 2))
        (full_roots H xs (Suc d) (unat b div 2)) =
        (Ok (pnode H xs (d + bit_length (unat b)) 0) :: ('e, hash_value) res)"
      using IH [OF disjI2] bl by (simp only: b' add_Suc_right add_Suc simp_thms)
    have bit0: "b AND 1 \<noteq> 0 \<longleftrightarrow> odd (unat b)"
      by (rule and_1_odd)
    show ?thesis
    proof (cases "odd (unat b)")
      case True
      then have "full_roots H xs d (unat b) =
          pnode H xs d (unat b - 1) # full_roots H xs (Suc d) (unat b div 2)"
        by (subst full_roots.simps) (auto simp: odd_pos)
      with True IH' pos show ?thesis
        using root_loop_step_odd [OF True less.prems(1), of H]
        by (subst root_loop.simps) (simp add: bit0 del: pnode.simps)
    next
      case even: False
      then have "full_roots H xs d (unat b) = full_roots H xs (Suc d) (unat b div 2)"
        using False by (subst full_roots.simps) (simp add: unat_eq_0)
      with even IH' pos show ?thesis
        using root_loop_step_even [OF _ less.prems(1), of H] less.prems(2)
        by (subst root_loop.simps) (simp add: bit0 del: pnode.simps)
    qed
  qed
qed

lemma full_roots_shift: "full_roots H xs d (2 ^ t * m) = full_roots H xs (d + t) m"
proof (induction t arbitrary: d)
  case (Suc t)
  have "full_roots H xs d (2 ^ Suc t * m) = full_roots H xs (Suc d) (2 ^ t * m)"
    by (cases "m = 0") (simp_all add: full_roots.simps [of H xs d] full_roots.simps [of H xs "Suc d" 0])
  with Suc show ?case by simp
qed simp

lemma full_roots_power: "full_roots H xs d (2 ^ k) = [pnode H xs (d + k) 0]"
  using full_roots_shift [of H xs d k 1] by (simp add: full_roots.simps del: pnode.simps)

lemma ones_0: "ones n = 0 \<longleftrightarrow> n = 0"
proof (induction n rule: ones.induct)
  case (1 n)
  show ?case
  proof (cases "n = 0")
    case False
    then have "ones n = n mod 2 + ones (n div 2)" by (subst ones.simps) simp
    moreover have "n mod 2 \<noteq> 0 \<or> n div 2 \<noteq> 0" using False by presburger
    ultimately show ?thesis using 1 False by auto
  qed (simp add: ones.simps)
qed

lemma ones_one: "ones n = 1 \<Longrightarrow> \<exists>k. n = 2 ^ k"
proof (induction n rule: ones.induct)
  case (1 n)
  have "n \<noteq> 0" using 1(2) ones_0 [of n] by linarith
  then have rec: "n mod 2 + ones (n div 2) = 1" using 1(2) by (subst (asm) ones.simps) simp
  show ?case
  proof (cases "odd n")
    case True
    then have "n div 2 = 0" using rec ones_0 [of "n div 2"] by presburger
    with True have "n = 1" by presburger
    then have "n = 2 ^ 0" by simp
    then show ?thesis ..
  next
    case False
    then have "ones (n div 2) = 1" using rec by presburger
    then obtain k where "n div 2 = 2 ^ k" using 1(1) \<open>n \<noteq> 0\<close> by blast
    with False have "n = 2 ^ Suc k" by (metis dvd_mult_div_cancel power_Suc)
    then show ?thesis ..
  qed
qed

lemma compute_root_hash_merkle:
  assumes n: "unat n = length xs"
  shows "compute_root_hash H (rev (full_roots H xs 0 (length xs))) n =
    (Ok (merkle_root H xs) :: ('e, hash_value) res)"
proof -
  let ?L = "length xs" and ?roots = "full_roots H xs 0 (length xs)"
  have len: "length ?roots = ones ?L" by (rule length_full_roots)
  consider "ones ?L = 0" | "ones ?L = 1" | "ones ?L \<ge> 2" by linarith
  then show ?thesis
  proof cases
    case 1
    then have "?roots = []" using len by simp
    moreover have "?L = 0"
      using 1 ones_0 by blast
    ultimately show ?thesis
      by (simp add: compute_root_hash_def merkle_root_def pnode_placeholder)
  next
    case 2
    then obtain k where k: "?L = 2 ^ k" using ones_one by blast
    then show ?thesis
      using full_roots_power [of H xs 0 k]
      by (simp add: compute_root_hash_def merkle_root_def tree_depth_power del: pnode.simps)
  next
    case 3
    have np: "?L \<noteq> 2 ^ k" for k using 3 len full_roots_power [of H xs 0 k] by auto
    have "?L \<noteq> 0" using 3 ones_0 [of ?L] by linarith
    then have "n \<noteq> 0" using n by (auto simp: unat_eq_0)
    then obtain t m where m: "odd m" "unat n = 2 ^ t * m"
      and b: "unat (drop_bit (u64_trailing_zeros n) n) = m" using drop_trailing_zeros by blast
    let ?b = "drop_bit (u64_trailing_zeros n) n"
    have mt: "m = ?L div 2 ^ t" using m(2) n by simp
    have "pnode H xs t m = ACCUMULATOR_PLACEHOLDER_HASH"
      using m(2) n by (intro pnode_placeholder) (simp add: mult.commute)
    moreover have "?roots = full_roots H xs t m" using full_roots_shift [of H xs 0 t m] m(2) n by simp
    moreover have "t + bit_length m = tree_depth ?L"
      using tree_depth_bit_length [OF \<open>?L \<noteq> 0\<close>] np bit_length_shift [of m t] m n
      by (metis odd_pos neq0_conv)
    ultimately have "root_loop H ?b ACCUMULATOR_PLACEHOLDER_HASH ?roots =
        (Ok (merkle_root H xs) :: ('e, hash_value) res)"
      using root_loop_pnode [of ?b xs t H] m(1) mt by (simp add: b merkle_root_def del: pnode.simps)
    moreover obtain r1 r2 rs where "rev ?roots = r1 # r2 # rs"
      using 3 len by (metis (no_types) Suc_le_length_iff length_rev numeral_2_eq_2)
    ultimately show ?thesis
      by (simp add: compute_root_hash_def)
  qed
qed

section \<open>Appending leaves\<close>

lemma accumulator_new_represents:
  assumes "unat n = length xs"
  shows "\<exists>acc. accumulator_new H (rev (full_roots H xs 0 (length xs))) n = Ok acc \<and>
    represents H acc xs"
  by (simp add: accumulator_new_def ensure_def u64_count_ones assms length_full_roots
      represents_def compute_root_hash_merkle [OF assms])

lemma append_loop:
  assumes "unat n = length xs" "length xs + length ys < 2 ^ 64"
  shows "\<exists>n'. try_fold (\<lambda>(roots, n) leaf.
      bind (append_one H roots n leaf) (\<lambda>roots'.
      bind (unwrap (checked_add n 1)) (\<lambda>n'. Ok (roots', n'))))
      (rev (full_roots H xs 0 (length xs)), n) ys =
      Ok (rev (full_roots H (xs @ ys) 0 (length (xs @ ys))), n') \<and>
    unat n' = length (xs @ ys)"
  using assms
proof (induction ys arbitrary: xs n)
  case (Cons y ys)
  then have "unat n + unat (1 :: u64) < 2 ^ 64" by simp
  then obtain n1 where n1: "checked_add n 1 = Some n1" by (simp add: checked_add_def)
  then have "unat n1 = length (xs @ [y])" using unat_checked_add [OF n1] Cons.prems(1) by simp
  with Cons.IH [of n1 "xs @ [y]"] Cons.prems n1 show ?case
    by (simp add: append_one_full_roots [OF Cons.prems(1)] unwrap_def)
qed simp

lemma acc_append_represents:
  assumes "represents H acc xs" "length xs + length ys < 2 ^ 64"
  shows "\<exists>acc'. acc_append H acc ys = (Ok acc' :: ('e, in_memory_accumulator) res) \<and>
    represents H acc' (xs @ ys)"
proof -
  let ?n = "num_leaves acc"
  have n: "unat ?n = length xs" and r: "frozen_subtree_roots acc = rev (full_roots H xs 0 (length xs))"
    using assms(1) by (simp_all add: represents_def)
  obtain n' where loop: "try_fold (\<lambda>(roots, n) leaf.
      bind (append_one H roots n leaf) (\<lambda>roots'.
      bind (unwrap (checked_add n 1)) (\<lambda>n'. Ok (roots', n'))))
      (frozen_subtree_roots acc, ?n) ys =
      (Ok (rev (full_roots H (xs @ ys) 0 (length (xs @ ys))), n') :: ('e, _) res)"
    and n': "unat n' = length (xs @ ys)"
    using append_loop [OF n assms(2), of H] by (metis r)
  obtain acc' where "accumulator_new H (rev (full_roots H (xs @ ys) 0 (length (xs @ ys)))) n' = Ok acc'"
    "represents H acc' (xs @ ys)"
    using accumulator_new_represents [OF n', of H] by blast
  then show ?thesis unfolding acc_append_def loop by simp
qed

lemma represents_default:
  "\<exists>acc. accumulator_default H = (Ok acc :: ('e, in_memory_accumulator) res) \<and> represents H acc []"
  using accumulator_new_represents [of 0 "[]" H]
  by (auto simp: accumulator_default_def full_roots.simps)

lemma represents_version:
  assumes "represents H acc xs" "xs \<noteq> []"
  shows "unat (acc_version acc) = length xs - 1"
proof -
  have n: "unat (num_leaves acc) = length xs" using assms(1) by (simp add: represents_def)
  then have "num_leaves acc \<noteq> 0" using assms(2) by auto
  then have "1 \<le> num_leaves acc" by (simp add: word_le_nat_alt n Suc_le_eq)
       (use assms(2) in simp)
  with n \<open>num_leaves acc \<noteq> 0\<close> show ?thesis by (simp add: acc_version_def unat_sub)
qed

section \<open>Properties\<close>

text \<open>
  C32. The accumulator computes the Merkle root: \<^verbatim>\<open>InMemoryAccumulator::from_leaves\<close> returns, for fewer
  than \<^verbatim>\<open>2^64\<close> leaves, an accumulator whose root hash is the root of the least tree over the leaves
  padded with placeholders, whose frozen subtree roots are the roots of the maximal full subtrees,
  and whose number of leaves is that of the list.
\<close>

theorem from_leaves_merkle_root:
  assumes "length xs < 2 ^ 64"
  shows "\<exists>acc. from_leaves H xs = (Ok acc :: (unit, in_memory_accumulator) res) \<and>
    represents H acc xs"
proof -
  obtain acc where "accumulator_default H = (Ok acc :: (unit, in_memory_accumulator) res)"
    "represents H acc []" using represents_default by blast
  with acc_append_represents [of H acc "[]" xs] assms show ?thesis
    by (auto simp: from_leaves_def)
qed

theorem from_leaves_merkle_root_witness:
  "\<exists>acc. from_leaves (\<lambda>l r. 3 * l + 5 * r) [1, 2, 3] =
      (Ok acc :: (unit, in_memory_accumulator) res) \<and>
    acc_root_hash acc = 3 * (3 * 1 + 5 * 2) + 5 * (3 * 3 + 5 * ACCUMULATOR_PLACEHOLDER_HASH)"
proof -
  let ?H = "\<lambda>l r :: hash_value. 3 * l + 5 * r"
  have "(2::nat) \<le> d" if "3 \<le> (2 :: nat) ^ d" for d
    using that by (cases d; cases "d - 1") auto
  then have "tree_depth 3 = 2" unfolding tree_depth_def by (intro Least_equality) simp_all
  then have d: "tree_depth (Suc (Suc (Suc 0))) = Suc (Suc 0)" by (simp add: numeral_eq_Suc)
  obtain acc where "from_leaves ?H [1, 2, 3] = (Ok acc :: (unit, in_memory_accumulator) res)"
    "represents ?H acc [1, 2, 3]"
    using from_leaves_merkle_root [of "[1, 2, 3]" ?H] by auto
  then show ?thesis by (auto simp: represents_def merkle_root_def d)
qed

text \<open>
  C33. An honest extension proof verifies: when the proof carries the frozen roots and the number of
  leaves of an accumulator over \<^verbatim>\<open>xs\<close>, then \<^verbatim>\<open>AccumulatorExtensionProof::verify\<close> accepts the root of
  \<^verbatim>\<open>xs\<close>, rejects every other root, and returns the accumulator over \<^verbatim>\<open>xs\<close> followed by the new leaves,
  whose version is the number of all leaves less one.
\<close>

theorem extension_proof_verifies:
  assumes "represents H acc xs" "length xs + length ys < 2 ^ 64" "xs @ ys \<noteq> []"
  shows "\<exists>acc'. aep_verify H \<lparr>aep_frozen_subtree_roots = frozen_subtree_roots acc,
        aep_num_leaves = num_leaves acc, aep_leaves = ys\<rparr> root =
      (if root = merkle_root H xs then Ok acc' else Err (Msg ''Root hashes do not match.'')) \<and>
    acc_root_hash acc' = merkle_root H (xs @ ys) \<and>
    unat (acc_version acc') = length (xs @ ys) - 1"
proof -
  have n: "unat (num_leaves acc) = length xs" and
    r: "frozen_subtree_roots acc = rev (full_roots H xs 0 (length xs))"
    using assms(1) by (simp_all add: represents_def)
  obtain a where a: "accumulator_new H (frozen_subtree_roots acc) (num_leaves acc) = Ok a"
    "represents H a xs" using accumulator_new_represents [OF n, of H] r by auto
  obtain acc' where app: "acc_append H a ys = (Ok acc' :: (anyhow_error, in_memory_accumulator) res)"
    "represents H acc' (xs @ ys)" using acc_append_represents [OF a(2) assms(2)] by blast
  have "acc_root_hash a = merkle_root H xs" "acc_root_hash acc' = merkle_root H (xs @ ys)"
    using a(2) app(2) by (simp_all add: represents_def)
  then show ?thesis
    using represents_version [OF app(2) assms(3)] a(1) app(1)
    by (intro exI [of _ acc']) (auto simp: aep_verify_def ensure_def)
qed

theorem extension_proof_verifies_witness:
  "\<exists>acc acc'. from_leaves (\<lambda>l r. 3 * l + 5 * r) [1, 2] =
      (Ok acc :: (unit, in_memory_accumulator) res) \<and>
    aep_verify (\<lambda>l r. 3 * l + 5 * r) \<lparr>aep_frozen_subtree_roots = frozen_subtree_roots acc,
        aep_num_leaves = num_leaves acc, aep_leaves = [7]\<rparr> (acc_root_hash acc) = Ok acc' \<and>
    acc_root_hash acc' = merkle_root (\<lambda>l r. 3 * l + 5 * r) [1, 2, 7] \<and> unat (acc_version acc') = 2"
proof -
  let ?H = "\<lambda>l r :: hash_value. 3 * l + 5 * r"
  obtain a0 where "accumulator_default ?H = (Ok a0 :: (unit, in_memory_accumulator) res)"
    "represents ?H a0 []" using represents_default by blast
  then obtain acc where acc: "from_leaves ?H [1, 2] = (Ok acc :: (unit, in_memory_accumulator) res)"
    "represents ?H acc [1, 2]"
    using acc_append_represents [of ?H a0 "[]" "[1, 2]"] by (auto simp: from_leaves_def)
  then have "acc_root_hash acc = merkle_root ?H [1, 2]" by (simp add: represents_def)
  with extension_proof_verifies [OF acc(2), of "[7]" "acc_root_hash acc"] acc(1) show ?thesis
    by auto
qed

end
