(* ===== verification/Blocks.thy ===== *)
theory Blocks
  imports Quorum_Certs Payload Accumulator
begin

text \<open>
  Blocks and the data that is proposed: \<^verbatim>\<open>block_data.rs\<close>, \<^verbatim>\<open>proposal_ext.rs\<close>, \<^verbatim>\<open>opt_block_data.rs\<close>,
  \<^verbatim>\<open>block.rs\<close> and \<^verbatim>\<open>block_retrieval.rs\<close> of \<^verbatim>\<open>consensus/consensus-types/src\<close>, with the signer of
  \<^verbatim>\<open>types/src/validator_signer.rs\<close> and \<^verbatim>\<open>types/src/block_metadata.rs\<close>. The wall clock that the
  well-formedness checks read is the argument \<open>now\<close>, in microseconds. \<^verbatim>\<open>assume!\<close> and
  \<^verbatim>\<open>debug_checked_verify_eq!\<close> produce no code in a release build.
\<close>

section \<open>Block data\<close>

datatype validator_transaction = ValidatorTransaction "u8 list"

datatype opt_block_body =
  OptBlockBodyV0
    (obb_txns: "validator_transaction list") (obb_payload: payload) (obb_author: author)
    (obb_grandparent_qc: quorum_cert)

datatype proposal_ext =
  ProposalExtV0
    (pe_txns: "validator_transaction list") (pe_payload: payload) (pe_author: author)
    (pe_failed_authors: "(round \<times> author) list")

datatype block_type =
    Proposal payload author "(round \<times> author) list"
  | NilBlock "(round \<times> author) list"
  | Genesis
  | ProposalExt proposal_ext
  | OptimisticProposal opt_block_body
  | DAGBlock author "(round \<times> author) list" "validator_transaction list" payload
      "hash_value list" hash_value bit_vec

record block_data =
  bd_epoch :: u64
  bd_round :: round
  bd_timestamp_usecs :: u64
  bd_quorum_cert :: quorum_cert
  bd_block_type :: block_type

text \<open>What is serialized into the hasher.\<close>

datatype block_preimage =
    FullBlockData block_data
  | OptBlockDataForHash u64 round u64 vote_data block_type

text \<open>The messages that consensus signs beside ledger infos and timeouts.\<close>

datatype consensus_message = MBlockData block_data | MBatchInfo batch_info

type_synonym consensus_env = "(consensus_message, block_preimage) env"

fun is_opt_type :: "block_type \<Rightarrow> bool" where
  "is_opt_type (OptimisticProposal _) = True"
| "is_opt_type _ = False"

fun is_nil_type :: "block_type \<Rightarrow> bool" where
  "is_nil_type (NilBlock _) = True"
| "is_nil_type _ = False"

definition bd_is_genesis_block :: "block_data \<Rightarrow> bool" where
  "bd_is_genesis_block bd \<longleftrightarrow> bd_block_type bd = Genesis"

definition bd_is_nil_block :: "block_data \<Rightarrow> bool" where
  "bd_is_nil_block bd \<longleftrightarrow> is_nil_type (bd_block_type bd)"

definition bd_is_opt_block :: "block_data \<Rightarrow> bool" where
  "bd_is_opt_block bd \<longleftrightarrow> is_opt_type (bd_block_type bd)"

definition bd_preimage :: "block_data \<Rightarrow> block_preimage" where
  "bd_preimage bd =
     (if bd_is_opt_block bd then
        OptBlockDataForHash (bd_epoch bd) (bd_round bd) (bd_timestamp_usecs bd)
          (qc_vote_data (bd_quorum_cert bd)) (bd_block_type bd)
      else FullBlockData bd)"

definition bd_hash :: "consensus_env \<Rightarrow> block_data \<Rightarrow> hash_value" where
  "bd_hash E bd = hash_block E (bd_preimage bd)"

definition bd_author :: "block_data \<Rightarrow> author option" where
  "bd_author bd =
     (case bd_block_type bd of
        Proposal _ auth _ \<Rightarrow> Some auth
      | DAGBlock auth _ _ _ _ _ _ \<Rightarrow> Some auth
      | ProposalExt p \<Rightarrow> Some (pe_author p)
      | OptimisticProposal p \<Rightarrow> Some (obb_author p)
      | _ \<Rightarrow> None)"

definition bd_parent_id :: "block_data \<Rightarrow> hash_value" where
  "bd_parent_id bd =
     (case bd_block_type bd of
        DAGBlock _ _ _ _ _ parent_block_id _ \<Rightarrow> parent_block_id
      | _ \<Rightarrow> bi_id (certified_block (bd_quorum_cert bd)))"

definition bd_payload :: "block_data \<Rightarrow> payload option" where
  "bd_payload bd =
     (case bd_block_type bd of
        Proposal p _ _ \<Rightarrow> Some p
      | DAGBlock _ _ _ p _ _ _ \<Rightarrow> Some p
      | ProposalExt p \<Rightarrow> Some (pe_payload p)
      | OptimisticProposal p \<Rightarrow> Some (obb_payload p)
      | _ \<Rightarrow> None)"

definition bd_validator_txns :: "block_data \<Rightarrow> validator_transaction list option" where
  "bd_validator_txns bd =
     (case bd_block_type bd of
        ProposalExt p \<Rightarrow> Some (pe_txns p)
      | OptimisticProposal p \<Rightarrow> Some (obb_txns p)
      | DAGBlock _ _ txns _ _ _ _ \<Rightarrow> Some txns
      | _ \<Rightarrow> None)"

definition bd_dag_nodes :: "block_data \<Rightarrow> hash_value list option" where
  "bd_dag_nodes bd =
     (case bd_block_type bd of
        DAGBlock _ _ _ _ node_digests _ _ \<Rightarrow> Some node_digests
      | _ \<Rightarrow> None)"

definition bd_failed_authors :: "block_data \<Rightarrow> (round \<times> author) list option" where
  "bd_failed_authors bd =
     (case bd_block_type bd of
        Proposal _ _ fa \<Rightarrow> Some fa
      | NilBlock fa \<Rightarrow> Some fa
      | DAGBlock _ fa _ _ _ _ _ \<Rightarrow> Some fa
      | ProposalExt p \<Rightarrow> Some (pe_failed_authors p)
      | _ \<Rightarrow> None)"

definition bd_new_genesis :: "u64 \<Rightarrow> quorum_cert \<Rightarrow> ('e, block_data) res" where
  "bd_new_genesis timestamp qc =
     bind (unwrap (checked_add (bi_epoch (certified_block qc)) 1)) (\<lambda>next_epoch. Ok
       \<lparr>bd_epoch = next_epoch, bd_round = 0, bd_timestamp_usecs = timestamp, bd_quorum_cert = qc,
        bd_block_type = Genesis\<rparr>)"

definition new_genesis_from_ledger_info :: "ledger_info \<Rightarrow> ('e, block_data) res" where
  "new_genesis_from_ledger_info li =
     bind (assert (li_ends_epoch li)) (\<lambda>_.
     let ancestor =
           \<lparr>bi_epoch = li_epoch li, bi_round = 0, bi_id = 0,
            bi_executed_state_id = li_transaction_accumulator_hash li,
            bi_version = li_version li, bi_timestamp_usecs = li_timestamp_usecs li,
            bi_next_epoch_state = None\<rparr>
     in bd_new_genesis (li_timestamp_usecs li)
          \<lparr>qc_vote_data = \<lparr>proposed = ancestor, parent = ancestor\<rparr>,
           qc_signed_ledger_info =
             \<lparr>liws_ledger_info = \<lparr>li_commit_info = ancestor, li_consensus_data_hash = 0\<rparr>,
              liws_signatures = agg_sig_empty\<rparr>\<rparr>)"

definition bd_new_nil :: "round \<Rightarrow> quorum_cert \<Rightarrow> (round \<times> author) list \<Rightarrow> block_data" where
  "bd_new_nil r qc failed =
     \<lparr>bd_epoch = bi_epoch (certified_block qc), bd_round = r,
      bd_timestamp_usecs = bi_timestamp_usecs (certified_block qc), bd_quorum_cert = qc,
      bd_block_type = NilBlock failed\<rparr>"

definition bd_new_for_dag ::
    "u64 \<Rightarrow> round \<Rightarrow> u64 \<Rightarrow> validator_transaction list \<Rightarrow> payload \<Rightarrow> author \<Rightarrow> (round \<times> author) list
       \<Rightarrow> hash_value \<Rightarrow> bit_vec \<Rightarrow> hash_value list \<Rightarrow> block_data" where
  "bd_new_for_dag epoch r timestamp txns p auth failed parent_block_id parents_bitvec node_digests =
     \<lparr>bd_epoch = epoch, bd_round = r, bd_timestamp_usecs = timestamp,
      bd_quorum_cert =
        \<lparr>qc_vote_data = \<lparr>proposed = block_info_empty, parent = block_info_empty\<rparr>,
         qc_signed_ledger_info =
           \<lparr>liws_ledger_info = \<lparr>li_commit_info = block_info_empty, li_consensus_data_hash = 0\<rparr>,
            liws_signatures = \<lparr>validator_bitmask = bv_default, agg_sig = None\<rparr>\<rparr>\<rparr>,
      bd_block_type = DAGBlock auth failed txns p node_digests parent_block_id parents_bitvec\<rparr>"

definition bd_new_proposal ::
    "payload \<Rightarrow> author \<Rightarrow> (round \<times> author) list \<Rightarrow> round \<Rightarrow> u64 \<Rightarrow> quorum_cert \<Rightarrow> block_data" where
  "bd_new_proposal p auth failed r timestamp qc =
     \<lparr>bd_epoch = bi_epoch (certified_block qc), bd_round = r, bd_timestamp_usecs = timestamp,
      bd_quorum_cert = qc, bd_block_type = Proposal p auth failed\<rparr>"

definition bd_new_proposal_ext ::
    "validator_transaction list \<Rightarrow> payload \<Rightarrow> author \<Rightarrow> (round \<times> author) list \<Rightarrow> round \<Rightarrow> u64
       \<Rightarrow> quorum_cert \<Rightarrow> block_data" where
  "bd_new_proposal_ext txns p auth failed r timestamp qc =
     \<lparr>bd_epoch = bi_epoch (certified_block qc), bd_round = r, bd_timestamp_usecs = timestamp,
      bd_quorum_cert = qc, bd_block_type = ProposalExt (ProposalExtV0 txns p auth failed)\<rparr>"

definition is_reconfiguration_suffix :: "block_data \<Rightarrow> bool" where
  "is_reconfiguration_suffix bd \<longleftrightarrow> has_reconfiguration (certified_block (bd_quorum_cert bd))"

text \<open>\<^verbatim>\<open>OptBlockData\<close>: the proposal of a block whose parent has no certificate yet.\<close>

record opt_block_data =
  obd_epoch :: u64
  obd_round :: round
  obd_timestamp_usecs :: u64
  obd_parent :: block_info
  obd_block_body :: opt_block_body

definition opt_block_data_new ::
    "validator_transaction list \<Rightarrow> payload \<Rightarrow> author \<Rightarrow> u64 \<Rightarrow> round \<Rightarrow> u64 \<Rightarrow> block_info \<Rightarrow> quorum_cert
       \<Rightarrow> opt_block_data" where
  "opt_block_data_new txns p auth epoch r timestamp parent_info grandparent_qc =
     \<lparr>obd_epoch = epoch, obd_round = r, obd_timestamp_usecs = timestamp, obd_parent = parent_info,
      obd_block_body = OptBlockBodyV0 txns p auth grandparent_qc\<rparr>"

definition TIMEBOUND :: u64 where
  "TIMEBOUND = 300000000"

definition obd_verify_well_formed :: "u64 \<Rightarrow> opt_block_data \<Rightarrow> (anyhow_error, unit) res" where
  "obd_verify_well_formed now d =
     (let par = obd_parent d;
          grandparent = certified_block (obb_grandparent_qc (obd_block_body d))
      in bind (unwrap (checked_add (bi_round grandparent) 1)) (\<lambda>r1.
         bind (ensure (r1 = bi_round par)
           (Msg ''Block's parent's round must be one more than grandparent's round'')) (\<lambda>_.
         bind (unwrap (checked_add (bi_round par) 1)) (\<lambda>r2.
         bind (ensure (r2 = obd_round d)
           (Msg ''Block's round must be one more than parent's round'')) (\<lambda>_.
         bind (ensure (bi_epoch grandparent = obd_epoch d \<and> bi_epoch par = obd_epoch d)
           (Msg ''Block's parent and grantparent should be in the same epoch'')) (\<lambda>_.
         bind (ensure (\<not> has_reconfiguration grandparent)
           (Msg ''Optimistic proposals are disallowed after the reconfiguration block'')) (\<lambda>_.
         bind (payload_verify_epoch (obb_payload (obd_block_body d)) (obd_epoch d)) (\<lambda>_.
         bind (ensure (obd_timestamp_usecs d > bi_timestamp_usecs par \<and>
                       bi_timestamp_usecs par > bi_timestamp_usecs grandparent)
           (Msg ''Blocks must have strictly increasing timestamps'')) (\<lambda>_.
           ensure (obd_timestamp_usecs d \<le> saturating_add now TIMEBOUND)
             (Msg ''Blocks must not be too far in the future''))))))))))"

definition bd_new_from_opt :: "opt_block_data \<Rightarrow> quorum_cert \<Rightarrow> block_data" where
  "bd_new_from_opt d qc =
     \<lparr>bd_epoch = obd_epoch d, bd_round = obd_round d, bd_timestamp_usecs = obd_timestamp_usecs d,
      bd_quorum_cert = qc, bd_block_type = OptimisticProposal (obd_block_body d)\<rparr>"

section \<open>Blocks\<close>

record validator_signer =
  vs_author :: account_address
  vs_private_key :: private_key

text \<open>The signature library fails only when the message cannot be serialized.\<close>

definition signer_sign :: "'m crypto \<Rightarrow> validator_signer \<Rightarrow> 'm \<Rightarrow> (anyhow_error, signature) res" where
  "signer_sign C signer message =
     ok_or (Msg ''SerializationError'') (bls_sign C (vs_private_key signer) message)"

record block =
  blk_id :: hash_value
  blk_block_data :: block_data
  blk_signature :: "signature option"

definition blk_of :: "consensus_env \<Rightarrow> block_data \<Rightarrow> signature option \<Rightarrow> block" where
  "blk_of E bd sig = \<lparr>blk_id = bd_hash E bd, blk_block_data = bd, blk_signature = sig\<rparr>"

definition blk_epoch :: "block \<Rightarrow> u64" where
  "blk_epoch b = bd_epoch (blk_block_data b)"

definition blk_round :: "block \<Rightarrow> round" where
  "blk_round b = bd_round (blk_block_data b)"

definition blk_quorum_cert :: "block \<Rightarrow> quorum_cert" where
  "blk_quorum_cert b = bd_quorum_cert (blk_block_data b)"

definition blk_timestamp_usecs :: "block \<Rightarrow> u64" where
  "blk_timestamp_usecs b = bd_timestamp_usecs (blk_block_data b)"

definition blk_author :: "block \<Rightarrow> author option" where
  "blk_author b = bd_author (blk_block_data b)"

definition blk_payload :: "block \<Rightarrow> payload option" where
  "blk_payload b = bd_payload (blk_block_data b)"

definition blk_parent_id :: "block \<Rightarrow> hash_value" where
  "blk_parent_id b = bd_parent_id (blk_block_data b)"

definition gen_block_info ::
    "block \<Rightarrow> hash_value \<Rightarrow> version \<Rightarrow> epoch_state option \<Rightarrow> block_info" where
  "gen_block_info b executed_state_id ver next_epoch_state =
     \<lparr>bi_epoch = blk_epoch b, bi_round = blk_round b, bi_id = blk_id b,
      bi_executed_state_id = executed_state_id, bi_version = ver,
      bi_timestamp_usecs = blk_timestamp_usecs b, bi_next_epoch_state = next_epoch_state\<rparr>"

definition make_genesis_block_from_ledger_info :: "consensus_env \<Rightarrow> ledger_info \<Rightarrow> ('e, block) res" where
  "make_genesis_block_from_ledger_info E li =
     bind (new_genesis_from_ledger_info li) (\<lambda>bd. Ok (blk_of E bd None))"

definition blk_new_nil ::
    "consensus_env \<Rightarrow> round \<Rightarrow> quorum_cert \<Rightarrow> (round \<times> author) list \<Rightarrow> block" where
  "blk_new_nil E r qc failed = blk_of E (bd_new_nil r qc failed) None"

definition blk_new_for_dag ::
    "consensus_env \<Rightarrow> u64 \<Rightarrow> round \<Rightarrow> u64 \<Rightarrow> validator_transaction list \<Rightarrow> payload \<Rightarrow> author
       \<Rightarrow> (round \<times> author) list \<Rightarrow> hash_value \<Rightarrow> bit_vec \<Rightarrow> hash_value list \<Rightarrow> block" where
  "blk_new_for_dag E epoch r timestamp txns p auth failed parent_block_id parents_bitvec node_digests =
     blk_of E (bd_new_for_dag epoch r timestamp txns p auth failed parent_block_id parents_bitvec
       node_digests) None"

definition new_proposal_from_block_data_and_signature ::
    "consensus_env \<Rightarrow> block_data \<Rightarrow> signature \<Rightarrow> block" where
  "new_proposal_from_block_data_and_signature E bd sig = blk_of E bd (Some sig)"

definition new_proposal_from_block_data ::
    "consensus_env \<Rightarrow> block_data \<Rightarrow> validator_signer \<Rightarrow> (anyhow_error, block) res" where
  "new_proposal_from_block_data E bd signer =
     bind (signer_sign (env_crypto E) signer (SConsensus (MBlockData bd))) (\<lambda>sig.
       Ok (new_proposal_from_block_data_and_signature E bd sig))"

definition blk_new_proposal ::
    "consensus_env \<Rightarrow> payload \<Rightarrow> round \<Rightarrow> u64 \<Rightarrow> quorum_cert \<Rightarrow> validator_signer
       \<Rightarrow> (round \<times> author) list \<Rightarrow> (anyhow_error, block) res" where
  "blk_new_proposal E p r timestamp qc signer failed =
     new_proposal_from_block_data E
       (bd_new_proposal p (vs_author signer) failed r timestamp qc) signer"

definition blk_new_proposal_ext ::
    "consensus_env \<Rightarrow> validator_transaction list \<Rightarrow> payload \<Rightarrow> round \<Rightarrow> u64 \<Rightarrow> quorum_cert
       \<Rightarrow> validator_signer \<Rightarrow> (round \<times> author) list \<Rightarrow> (anyhow_error, block) res" where
  "blk_new_proposal_ext E txns p r timestamp qc signer failed =
     new_proposal_from_block_data E
       (bd_new_proposal_ext txns p (vs_author signer) failed r timestamp qc) signer"

definition blk_new_from_opt :: "consensus_env \<Rightarrow> opt_block_data \<Rightarrow> quorum_cert \<Rightarrow> block" where
  "blk_new_from_opt E d qc = blk_of E (bd_new_from_opt d qc) None"

text \<open>\<^verbatim>\<open>Block::deserialize\<close>: the id is not on the wire, it is computed.\<close>

definition blk_deserialize :: "consensus_env \<Rightarrow> block_data \<times> signature option \<Rightarrow> block" where
  "blk_deserialize E w = (case w of (bd, sig) \<Rightarrow> blk_of E bd sig)"

definition validate_signature ::
    "consensus_env \<Rightarrow> block \<Rightarrow> validator_verifier \<Rightarrow> (anyhow_error, unit) res" where
  "validate_signature E b validator =
     (let signed_by = (\<lambda>auth.
        bind (ok_or (Msg ''Missing signature in Proposal'') (blk_signature b)) (\<lambda>sig.
        bind (map_err VerifyErr (vv_verify (env_crypto E) validator auth
                (SConsensus (MBlockData (blk_block_data b))) sig)) (\<lambda>_.
          qc_verify E (blk_quorum_cert b) validator)))
      in case bd_block_type (blk_block_data b) of
           Genesis \<Rightarrow> Err (Msg ''We should not accept genesis from others'')
         | NilBlock _ \<Rightarrow> qc_verify E (blk_quorum_cert b) validator
         | Proposal _ auth _ \<Rightarrow> signed_by auth
         | ProposalExt p \<Rightarrow> signed_by (pe_author p)
         | OptimisticProposal p \<Rightarrow>
             bind (qc_verify E (obb_grandparent_qc p) validator) (\<lambda>_.
               qc_verify E (blk_quorum_cert b) validator)
         | DAGBlock _ _ _ _ _ _ _ \<Rightarrow> Err (Msg ''We should not accept DAG block from others''))"

text \<open>The loop over the failed authors in \<^verbatim>\<open>verify_well_formed\<close>.\<close>

fun check_failed_rounds ::
    "round \<Rightarrow> round \<Rightarrow> (round \<times> author) list \<Rightarrow> (anyhow_error, unit) res" where
  "check_failed_rounds succ_round bound [] = Ok ()"
| "check_failed_rounds succ_round bound ((r, _) # failed) =
     bind (ensure (bound < r \<and> r < succ_round) (Msg ''Incorrect round in failed authors'')) (\<lambda>_.
       check_failed_rounds succ_round r failed)"

definition check_failed_authors ::
    "block \<Rightarrow> block_info \<Rightarrow> (round \<times> author) list \<Rightarrow> (anyhow_error, unit) res" where
  "check_failed_authors b par failed =
     bind (unwrap (checked_add (blk_round b) (if bd_is_nil_block (blk_block_data b) then 1 else 0)))
       (\<lambda>succ_round.
     bind (unwrap (checked_add (bi_round par) 1)) (\<lambda>first_round.
     bind (ok_or (Msg ''Block round is smaller than block's parent round'')
             (checked_sub succ_round first_round)) (\<lambda>skipped_rounds.
     bind (ensure (length failed \<le> unat skipped_rounds)
       (Msg ''Block has more failed authors than missed rounds'')) (\<lambda>_.
       check_failed_rounds succ_round (bi_round par) failed))))"

definition blk_verify_well_formed :: "u64 \<Rightarrow> block \<Rightarrow> (anyhow_error, unit) res" where
  "blk_verify_well_formed now b =
     bind (ensure (\<not> bd_is_genesis_block (blk_block_data b))
       (Msg ''We must not accept genesis from others'')) (\<lambda>_.
     let par = certified_block (blk_quorum_cert b)
     in bind (ensure (bi_round par < blk_round b)
          (Msg ''Block must have a greater round than parent's block'')) (\<lambda>_.
        bind (ensure (bi_epoch par = blk_epoch b)
          (Msg ''block's parent should be in the same epoch'')) (\<lambda>_.
        bind (ensure (has_reconfiguration par \<longrightarrow>
                (case blk_payload b of None \<Rightarrow> True | Some p \<Rightarrow> payload_is_empty p))
          (Msg ''Reconfiguration suffix should not carry payload'')) (\<lambda>_.
        bind (case blk_payload b of None \<Rightarrow> Ok () | Some p \<Rightarrow> payload_verify_epoch p (blk_epoch b)) (\<lambda>_.
        bind (case bd_failed_authors (blk_block_data b) of
                None \<Rightarrow> Ok ()
              | Some failed \<Rightarrow> check_failed_authors b par failed) (\<lambda>_.
        bind (if bd_is_nil_block (blk_block_data b) \<or> has_reconfiguration par then
                ensure (blk_timestamp_usecs b = bi_timestamp_usecs par)
                  (Msg ''Nil/reconfig suffix block must have same timestamp as parent'')
              else
                bind (ensure (blk_timestamp_usecs b > bi_timestamp_usecs par)
                  (Msg ''Blocks must have strictly increasing timestamps'')) (\<lambda>_.
                  ensure (blk_timestamp_usecs b \<le> saturating_add now TIMEBOUND)
                    (Msg ''Blocks must not be too far in the future''))) (\<lambda>_.
          ensure (\<not> qc_ends_epoch (blk_quorum_cert b))
            (Msg ''Block cannot be proposed in an epoch that has ended''))))))))"

text \<open>The statistics of a block: batches, transactions and bytes; sums are of type \<^verbatim>\<open>usize\<close>.\<close>

definition payload_size :: "block \<Rightarrow> ('e, u64) res" where
  "payload_size b =
     (case blk_payload b of
        None \<Rightarrow> Ok 0
      | Some p \<Rightarrow>
          (case p of
             InQuorumStore proofs \<Rightarrow> Ok (word_of_nat (length proofs))
           | DirectMempool _ \<Rightarrow> Ok 0
           | InQuorumStoreWithLimit proofs _ \<Rightarrow> Ok (word_of_nat (length proofs))
           | QuorumStoreInlineHybrid inline proofs _ \<Rightarrow> Ok (word_of_nat (length inline + length proofs))
           | QuorumStoreInlineHybridV2 inline proofs _ \<Rightarrow> Ok (word_of_nat (length inline + length proofs))
           | OptQuorumStore oqs \<Rightarrow> oqs_num_txns oqs))"

definition batch_stats ::
    "nat \<Rightarrow> ('e, u64) res \<Rightarrow> ('e, u64) res \<Rightarrow> ('e, u64 \<times> u64 \<times> u64) res" where
  "batch_stats n txns bytes = bind txns (\<lambda>t. bind bytes (\<lambda>b. Ok (word_of_nat n, t, b)))"

definition proof_stats :: "block \<Rightarrow> ('e, u64 \<times> u64 \<times> u64) res" where
  "proof_stats b =
     (let stats = (\<lambda>proofs. batch_stats (length proofs) (proofs_num_txns proofs) (proofs_num_bytes proofs))
      in case blk_payload b of
           None \<Rightarrow> Ok (0, 0, 0)
         | Some p \<Rightarrow>
             (case p of
                InQuorumStore proofs \<Rightarrow> stats proofs
              | DirectMempool _ \<Rightarrow> Ok (0, 0, 0)
              | InQuorumStoreWithLimit proofs _ \<Rightarrow> stats proofs
              | QuorumStoreInlineHybrid _ proofs _ \<Rightarrow> stats proofs
              | QuorumStoreInlineHybridV2 _ proofs _ \<Rightarrow> stats proofs
              | OptQuorumStore oqs \<Rightarrow> stats (oqs_proofs oqs)))"

definition inline_batch_stats :: "block \<Rightarrow> ('e, u64 \<times> u64 \<times> u64) res" where
  "inline_batch_stats b =
     (let stats = (\<lambda>infos. batch_stats (length infos) (batches_num_txns infos) (batches_num_bytes infos))
      in case blk_payload b of
           Some (QuorumStoreInlineHybrid inline _ _) \<Rightarrow> stats (map fst inline)
         | Some (QuorumStoreInlineHybridV2 inline _ _) \<Rightarrow> stats (map fst inline)
         | Some (OptQuorumStore oqs) \<Rightarrow> stats (map ib_batch_info (oqs_inline_batches oqs))
         | _ \<Rightarrow> Ok (0, 0, 0))"

definition opt_batch_stats :: "block \<Rightarrow> ('e, u64 \<times> u64 \<times> u64) res" where
  "opt_batch_stats b =
     (case blk_payload b of
        Some (OptQuorumStore oqs) \<Rightarrow>
          batch_stats (length (oqs_opt_batches oqs)) (batches_num_txns (oqs_opt_batches oqs))
            (batches_num_bytes (oqs_opt_batches oqs))
      | _ \<Rightarrow> Ok (0, 0, 0))"

record block_metadata =
  bm_id :: hash_value
  bm_epoch :: u64
  bm_round :: u64
  bm_proposer :: account_address
  bm_previous_block_votes_bitvec :: "u8 list"
  bm_failed_proposer_indices :: "32 word list"
  bm_timestamp_usecs :: u64

definition previous_bitvec :: "block \<Rightarrow> bit_vec" where
  "previous_bitvec b =
     (case bd_block_type (blk_block_data b) of
        DAGBlock _ _ _ _ _ _ parents_bitvec \<Rightarrow> parents_bitvec
      | OptimisticProposal p \<Rightarrow>
          validator_bitmask (liws_signatures (qc_signed_ledger_info (obb_grandparent_qc p)))
      | _ \<Rightarrow> validator_bitmask (liws_signatures (qc_signed_ledger_info (blk_quorum_cert b))))"

text \<open>\<^verbatim>\<open>Iterator::position\<close>.\<close>

definition position :: "'a \<Rightarrow> 'a list \<Rightarrow> nat option" where
  "position x xs =
     (let i = length (takeWhile (\<lambda>y. y \<noteq> x) xs) in if i < length xs then Some i else None)"

definition failed_authors_to_indices ::
    "account_address list \<Rightarrow> (round \<times> author) list \<Rightarrow> ('e, 32 word list) res" where
  "failed_authors_to_indices validators failed =
     try_map (\<lambda>(_, failed_author).
       bind (unwrap (position failed_author validators)) (\<lambda>index.
       bind (assert (index < 2 ^ 32)) (\<lambda>_. Ok (word_of_nat index)))) failed"

definition new_block_metadata :: "block \<Rightarrow> account_address list \<Rightarrow> ('e, block_metadata) res" where
  "new_block_metadata b validators =
     bind (case bd_failed_authors (blk_block_data b) of
             None \<Rightarrow> Ok []
           | Some failed \<Rightarrow> failed_authors_to_indices validators failed) (\<lambda>failed_indices. Ok
       \<lparr>bm_id = blk_id b, bm_epoch = blk_epoch b, bm_round = blk_round b,
        bm_proposer = (case blk_author b of None \<Rightarrow> 0 | Some auth \<Rightarrow> auth),
        bm_previous_block_votes_bitvec = inner (previous_bitvec b),
        bm_failed_proposer_indices = failed_indices,
        bm_timestamp_usecs = blk_timestamp_usecs b\<rparr>)"

section \<open>Block retrieval\<close>

datatype block_retrieval_request =
    RetrievalV1 hash_value u64 "hash_value option"
  | RetrievalV2 hash_value u64 u64

datatype block_retrieval_status = Succeeded | IdNotFound | NotEnoughBlocks | SucceededWithTarget

record block_retrieval_response =
  brr_status :: block_retrieval_status
  brr_blocks :: "block list"

fun request_block_id :: "block_retrieval_request \<Rightarrow> hash_value" where
  "request_block_id (RetrievalV1 block_id _ _) = block_id"
| "request_block_id (RetrievalV2 block_id _ _) = block_id"

definition is_window_start_block :: "u64 \<Rightarrow> block \<Rightarrow> bool" where
  "is_window_start_block target_round b \<longleftrightarrow>
     blk_round b = target_round \<or>
     (blk_round b > target_round \<and> bi_round (certified_block (blk_quorum_cert b)) < target_round)"

definition last_is :: "('a \<Rightarrow> bool) \<Rightarrow> 'a list \<Rightarrow> bool" where
  "last_is P xs \<longleftrightarrow> xs \<noteq> [] \<and> P (last xs)"

fun verify_inner ::
    "block_retrieval_response \<Rightarrow> block_retrieval_request \<Rightarrow> (anyhow_error, unit) res" where
  "verify_inner resp (RetrievalV1 block_id num_blocks target_block_id) =
     bind (ensure (brr_status resp \<noteq> Succeeded \<or>
                   word_of_nat (length (brr_blocks resp)) = num_blocks)
       (Msg ''not enough blocks returned'')) (\<lambda>_.
     bind (ensure (brr_status resp = SucceededWithTarget \<or>
                   \<not> list_ex (\<lambda>b. target_block_id = Some (blk_id b)) (brr_blocks resp))
       (Msg ''target was found, but response is not marked as SucceededWithTarget'')) (\<lambda>_.
       ensure (brr_status resp \<noteq> SucceededWithTarget \<or>
               last_is (\<lambda>b. target_block_id = Some (blk_id b)) (brr_blocks resp))
         (Msg ''target not found in blocks returned'')))"
| "verify_inner resp (RetrievalV2 block_id num_blocks target_round) =
     bind (ensure (brr_status resp \<noteq> Succeeded \<or>
                   word_of_nat (length (brr_blocks resp)) = num_blocks)
       (Msg ''not enough blocks returned'')) (\<lambda>_.
     bind (ensure (brr_status resp = SucceededWithTarget \<or>
                   \<not> last_is (\<lambda>b. blk_round b < target_round \<or> is_window_start_block target_round b)
                       (brr_blocks resp))
       (Msg ''smaller than target round or window start block was found, but response is not marked as SucceededWithTarget'')) (\<lambda>_.
       ensure (brr_status resp \<noteq> SucceededWithTarget \<or>
               last_is (is_window_start_block target_round) (brr_blocks resp))
         (Msg ''target not found in blocks returned'')))"

text \<open>The closure of the \<^verbatim>\<open>try_fold\<close> in \<^verbatim>\<open>BlockRetrievalResponse::verify\<close>.\<close>

definition brr_step ::
    "consensus_env \<Rightarrow> u64 \<Rightarrow> validator_verifier \<Rightarrow> hash_value \<Rightarrow> block
       \<Rightarrow> (anyhow_error, hash_value) res" where
  "brr_step E now sig_verifier expected_id b =
     bind (validate_signature E b sig_verifier) (\<lambda>_.
     bind (blk_verify_well_formed now b) (\<lambda>_.
     bind (ensure (blk_id b = expected_id) (Msg ''blocks doesn't form a chain'')) (\<lambda>_.
       Ok (blk_parent_id b))))"

definition brr_verify ::
    "consensus_env \<Rightarrow> u64 \<Rightarrow> block_retrieval_response \<Rightarrow> block_retrieval_request \<Rightarrow> validator_verifier
       \<Rightarrow> (anyhow_error, unit) res" where
  "brr_verify E now resp req sig_verifier =
     bind (verify_inner resp req) (\<lambda>_.
     bind (try_fold (brr_step E now sig_verifier) (request_block_id req) (brr_blocks resp)) (\<lambda>_. Ok ()))"

section \<open>Well-formed blocks\<close>

lemma check_failed_rounds_Ok:
  "check_failed_rounds succ_round bound failed = Ok u \<longleftrightarrow>
     sorted_wrt (<) (bound # map fst failed) \<and> list_all (\<lambda>(r, _). r < succ_round) failed"
proof (induction failed arbitrary: bound)
  case (Cons p failed)
  obtain r a where [simp]: "p = (r, a)" by (cases p)
  show ?case using Cons by (auto simp: res_simps list_all_iff)
qed simp

lemma bd_preimage_round:
  "bd_preimage bd = bd_preimage bd' \<Longrightarrow>
     bd_epoch bd = bd_epoch bd' \<and> bd_round bd = bd_round bd' \<and>
     bd_timestamp_usecs bd = bd_timestamp_usecs bd' \<and> bd_block_type bd = bd_block_type bd' \<and>
     qc_vote_data (bd_quorum_cert bd) = qc_vote_data (bd_quorum_cert bd')"
  by (auto simp: bd_preimage_def split: if_splits)

lemma blk_verify_well_formed_Ok:
  assumes "blk_verify_well_formed now b = Ok u"
  shows "bi_round (certified_block (blk_quorum_cert b)) < blk_round b"
    and "bi_epoch (certified_block (blk_quorum_cert b)) = blk_epoch b"
    and "\<not> qc_ends_epoch (blk_quorum_cert b)"
    and "bi_timestamp_usecs (certified_block (blk_quorum_cert b)) \<le> blk_timestamp_usecs b"
    and "\<not> bd_is_genesis_block (blk_block_data b)"
  using assms by (auto simp: blk_verify_well_formed_def Let_def res_simps split: if_splits)

lemma validate_signature_qc:
  "validate_signature E b vv = Ok u \<Longrightarrow> qc_verify E (blk_quorum_cert b) vv = Ok ()"
  by (auto simp: validate_signature_def Let_def res_simps split: block_type.splits)

lemma retrieval_fold:
  "try_fold (brr_step E now vv) start bs = Ok final \<Longrightarrow>
     map blk_id bs @ [final] = start # map blk_parent_id bs \<and>
     list_all (\<lambda>b. validate_signature E b vv = Ok () \<and> blk_verify_well_formed now b = Ok ()) bs"
  by (induction bs arbitrary: start) (auto simp: brr_step_def res_simps)

lemma count_ones_with_num_bits: "count_ones (with_num_bits n) = 0"
proof -
  have "byte_count_ones 0 = 0" by code_simp
  then show ?thesis by (simp add: count_ones_def with_num_bits_def)
qed

lemma check_failed_authors_none:
  assumes "bi_round par < r" "blk_round b = r" "\<not> bd_is_nil_block (blk_block_data b)"
  shows "check_failed_authors b par [] = Ok ()"
proof -
  have lt: "unat (bi_round par) < unat r" "unat r < 2 ^ 64"
    using assms(1) unsigned_less [of r] by (simp_all add: word_less_nat_alt)
  then have "checked_add (bi_round par) 1 = Some (bi_round par + 1)" "checked_add r 0 = Some r"
    by (simp_all add: checked_add_def)
  moreover have "unat (bi_round par + 1) = unat (bi_round par) + 1"
    using lt by (simp add: unat_word_ariths)
  then have "bi_round par + 1 \<le> r" using lt by (simp add: word_le_nat_alt)
  ultimately show ?thesis
    using assms(2,3) by (simp add: check_failed_authors_def unwrap_def ok_or_def checked_sub_def ensure_def)
qed

section \<open>Properties\<close>

definition sign_correct :: "'m crypto \<Rightarrow> bool" where
  "sign_correct C \<longleftrightarrow>
     (\<forall>key message sig. bls_sign C key message = Some sig \<longrightarrow>
        bls_verify C (bls_public_key C key) message sig)"

lemma linear_crypto_sign_correct: "sign_correct (linear_crypto h)"
  by (simp add: sign_correct_def linear_crypto_def)

text \<open>
  C35. A block retrieval response that verifies is a chain from the requested block: the first block
  has the requested id, every following block is the parent named by the one before it, every block
  carries a quorum certificate that verifies, for a block of an earlier round of the same epoch.
\<close>

theorem retrieved_blocks_form_chain:
  assumes "brr_verify E now resp req vv = Ok u"
  shows "(\<exists>last_parent. map blk_id (brr_blocks resp) @ [last_parent] =
        request_block_id req # map blk_parent_id (brr_blocks resp)) \<and>
    list_all (\<lambda>b. qc_verify E (blk_quorum_cert b) vv = Ok () \<and>
        bi_round (certified_block (blk_quorum_cert b)) < blk_round b \<and>
        bi_epoch (certified_block (blk_quorum_cert b)) = blk_epoch b) (brr_blocks resp)"
proof -
  obtain final where "map blk_id (brr_blocks resp) @ [final] =
      request_block_id req # map blk_parent_id (brr_blocks resp)"
    and all: "list_all (\<lambda>b. validate_signature E b vv = Ok () \<and> blk_verify_well_formed now b = Ok ())
      (brr_blocks resp)"
    using assms retrieval_fold [of E now vv] by (auto simp: brr_verify_def bind_Ok)
  moreover have "list_all (\<lambda>b. qc_verify E (blk_quorum_cert b) vv = Ok () \<and>
      bi_round (certified_block (blk_quorum_cert b)) < blk_round b \<and>
      bi_epoch (certified_block (blk_quorum_cert b)) = blk_epoch b) (brr_blocks resp)"
    using all by (auto simp: list_all_iff dest: validate_signature_qc blk_verify_well_formed_Ok(1,2))
  ultimately show ?thesis by blast
qed

definition sample_block :: "u64 \<Rightarrow> block" where
  "sample_block r = blk_of sample_env
     (bd_new_proposal (DirectMempool []) 1 [] r r (sample_qc (r - 1))) (Some (Signature [9]))"

theorem retrieved_blocks_form_chain_witness:
  "brr_verify sample_env 0 \<lparr>brr_status = Succeeded, brr_blocks = [sample_block 3]\<rparr>
      (RetrievalV1 0 1 None) sample_verifier = Ok () \<and>
   map blk_id [sample_block 3] @ [2] = 0 # map blk_parent_id [sample_block 3] \<and>
   bi_round (certified_block (blk_quorum_cert (sample_block 3))) < blk_round (sample_block 3)"
proof -
  let ?resp = "\<lparr>brr_status = Succeeded, brr_blocks = [sample_block 3]\<rparr>"
  have ok: "brr_verify sample_env 0 ?resp (RetrievalV1 0 1 None) sample_verifier = Ok ()"
    by code_simp
  have "map blk_id [sample_block 3] @ [2] = 0 # map blk_parent_id [sample_block 3]" by code_simp
  with retrieved_blocks_form_chain [OF ok] ok show ?thesis by simp
qed



text \<open>
  The genesis block of the next epoch and the certificate made for it fit together: for a ledger
  info that ends an epoch, \<^verbatim>\<open>make_genesis_block_from_ledger_info\<close> and
  \<^verbatim>\<open>certificate_for_genesis_from_ledger_info\<close> succeed, the certificate certifies the block in the next
  epoch with the state and the timestamp of the ledger info, and it verifies for every validator set.
\<close>

theorem genesis_certificate_verifies:
  assumes "li_ends_epoch li" "li_epoch li < - 1"
  shows "\<exists>b qc. make_genesis_block_from_ledger_info E li = (Ok b :: (unit, block) res) \<and>
    certificate_for_genesis_from_ledger_info E li (blk_id b) = (Ok qc :: (unit, quorum_cert) res) \<and>
    certified_block qc = gen_block_info b (li_transaction_accumulator_hash li) (li_version li) None \<and>
    blk_epoch b = li_epoch li + 1 \<and> blk_round b = 0 \<and>
    qc_verify E qc vv = Ok ()"
proof -
  have "unat (li_epoch li) < unat (- 1 :: u64)" using assms(2) by (simp only: word_less_nat_alt)
  moreover have "unat (- 1 :: u64) = 2 ^ 64 - 1"
    by (simp add: unsigned_minus_1_eq_mask mask_eq_exp_minus_1)
  ultimately have add: "checked_add (li_epoch li) 1 = Some (li_epoch li + 1)"
    by (simp add: checked_add_def)
  obtain es where es: "li_next_epoch_state li = Some es"
    using assms(1) by (auto simp: li_ends_epoch_def)
  show ?thesis
    by (simp add: make_genesis_block_from_ledger_info_def new_genesis_from_ledger_info_def
        bd_new_genesis_def certificate_for_genesis_from_ledger_info_def es add assms(1) assert_def
        unwrap_def certified_block_def blk_of_def gen_block_info_def blk_epoch_def blk_round_def
        blk_timestamp_usecs_def qc_verify_def ensure_def parent_block_def qc_commit_info_def
        qc_ledger_info_def get_num_voters_def count_ones_with_num_bits Let_def)
qed

theorem genesis_certificate_verifies_witness:
  "\<exists>b qc. make_genesis_block_from_ledger_info sample_env
        \<lparr>li_commit_info = (sample_block_info 9)\<lparr>bi_next_epoch_state :=
           Some \<lparr>es_epoch = 2, es_verifier = sample_verifier\<rparr>\<rparr>, li_consensus_data_hash = 0\<rparr> =
        (Ok b :: (unit, block) res) \<and>
      blk_epoch b = 2 \<and> bi_id (certified_block qc) = blk_id b \<and>
      qc_verify (sample_env :: consensus_env) qc sample_verifier = Ok ()"
proof -
  let ?li = "\<lparr>li_commit_info = (sample_block_info 9)\<lparr>bi_next_epoch_state :=
      Some \<lparr>es_epoch = 2, es_verifier = sample_verifier\<rparr>\<rparr>, li_consensus_data_hash = 0\<rparr>"
  have "li_ends_epoch ?li" by (simp add: li_ends_epoch_def li_next_epoch_state_def)
  moreover have "li_epoch ?li = 1" by (simp add: li_epoch_def sample_block_info_def)
  moreover have "(1 :: u64) < - 1" by code_simp
  ultimately obtain b qc where "make_genesis_block_from_ledger_info sample_env ?li =
      (Ok b :: (unit, block) res)" "blk_epoch b = li_epoch ?li + 1"
    "certified_block qc =
      gen_block_info b (li_transaction_accumulator_hash ?li) (li_version ?li) None"
    "qc_verify (sample_env :: consensus_env) qc sample_verifier = Ok ()"
    using genesis_certificate_verifies [of ?li sample_env sample_verifier] by auto
  with \<open>li_epoch ?li = 1\<close> show ?thesis
    by (intro exI [of _ b] exI [of _ qc]) (simp add: gen_block_info_def)
qed


definition sample_signer :: validator_signer where
  "sample_signer = \<lparr>vs_author = 1, vs_private_key = PrivateKey [1]\<rparr>"


text \<open>
  The optimistic path leads to well-formed blocks: when the data of an optimistic proposal is
  well formed and a quorum certificate for its parent arrives, then the block made from the two is
  well formed, provided that neither the parent nor the certificate ends the epoch.
\<close>

theorem opt_block_well_formed:
  assumes "obd_verify_well_formed now d = Ok u" "certified_block qc = obd_parent d"
    and "\<not> has_reconfiguration (obd_parent d)" "\<not> qc_ends_epoch qc"
  shows "blk_verify_well_formed now (blk_new_from_opt E d qc) = Ok ()"
proof -
  from assms(1) have "checked_add (bi_round (obd_parent d)) 1 = Some (obd_round d)"
    and "bi_epoch (obd_parent d) = obd_epoch d"
    and "payload_verify_epoch (obb_payload (obd_block_body d)) (obd_epoch d) = Ok ()"
    and "bi_timestamp_usecs (obd_parent d) < obd_timestamp_usecs d"
    and "obd_timestamp_usecs d \<le> saturating_add now TIMEBOUND"
    by (auto simp: obd_verify_well_formed_def Let_def res_simps)
  moreover from this(1) have "bi_round (obd_parent d) < obd_round d"
    using unat_checked_add by (fastforce simp: word_less_nat_alt)
  ultimately show ?thesis
    using assms(2-4)
    by (simp add: blk_verify_well_formed_def blk_new_from_opt_def bd_new_from_opt_def blk_of_def
        bd_is_genesis_block_def bd_is_nil_block_def blk_quorum_cert_def blk_round_def blk_epoch_def
        blk_payload_def bd_payload_def bd_failed_authors_def blk_timestamp_usecs_def ensure_def)
qed

definition sample_opt_data :: opt_block_data where
  "sample_opt_data = opt_block_data_new [] (DirectMempool []) 1 1 3 3 (sample_block_info 2) (sample_qc 1)"

theorem opt_block_well_formed_witness:
  "obd_verify_well_formed 5 sample_opt_data = Ok () \<and>
   blk_verify_well_formed 5 (blk_new_from_opt sample_env sample_opt_data (sample_qc 2)) = Ok ()"
proof -
  have ok: "obd_verify_well_formed 5 sample_opt_data = Ok ()" by code_simp
  have "certified_block (sample_qc 2) = obd_parent sample_opt_data"
    "\<not> has_reconfiguration (obd_parent sample_opt_data)" "\<not> qc_ends_epoch (sample_qc 2)"
    by code_simp+
  from opt_block_well_formed [OF ok this] ok show ?thesis by blast
qed

end
