(* ===== verification/Votes.thy ===== *)
theory Votes
  imports Blocks
begin

text \<open>
  Votes and the messages that carry them: \<^verbatim>\<open>vote.rs\<close>, \<^verbatim>\<open>vote_proposal.rs\<close>, \<^verbatim>\<open>order_vote.rs\<close>,
  \<^verbatim>\<open>order_vote_proposal.rs\<close>, \<^verbatim>\<open>round_timeout.rs\<close>, \<^verbatim>\<open>sync_info.rs\<close>, \<^verbatim>\<open>vote_msg.rs\<close>, \<^verbatim>\<open>order_vote_msg.rs\<close>,
  \<^verbatim>\<open>proposal_msg.rs\<close> and \<^verbatim>\<open>opt_proposal_msg.rs\<close> of \<^verbatim>\<open>consensus/consensus-types/src\<close>. A check that marks a
  signature as verified returns the marked vote.
\<close>

section \<open>Votes\<close>

record vote =
  vote_vote_data :: vote_data
  vote_author :: author
  vote_ledger_info :: ledger_info
  vote_signature :: signature_with_status
  vote_two_chain_timeout :: "(two_chain_timeout \<times> signature) option"

definition vote_new_with_signature ::
    "vote_data \<Rightarrow> author \<Rightarrow> ledger_info \<Rightarrow> signature \<Rightarrow> vote" where
  "vote_new_with_signature vd auth li sig =
     \<lparr>vote_vote_data = vd, vote_author = auth, vote_ledger_info = li,
      vote_signature = sws_from sig, vote_two_chain_timeout = None\<rparr>"

definition vote_new ::
    "consensus_env \<Rightarrow> vote_data \<Rightarrow> author \<Rightarrow> ledger_info \<Rightarrow> validator_signer \<Rightarrow> (anyhow_error, vote) res"
where
  "vote_new E vd auth li signer =
     (let li' = li\<lparr>li_consensus_data_hash := hash_vote_data E vd\<rparr>
      in bind (signer_sign (env_crypto E) signer (SLedgerInfo li')) (\<lambda>sig.
           Ok (vote_new_with_signature vd auth li' sig)))"

definition add_2chain_timeout :: "vote \<Rightarrow> two_chain_timeout \<Rightarrow> signature \<Rightarrow> vote" where
  "add_2chain_timeout v t sig = v\<lparr>vote_two_chain_timeout := Some (t, sig)\<rparr>"

definition generate_2chain_timeout :: "vote \<Rightarrow> quorum_cert \<Rightarrow> two_chain_timeout" where
  "generate_2chain_timeout v qc =
     \<lparr>to_epoch = bi_epoch (proposed (vote_vote_data v)),
      to_round = bi_round (proposed (vote_vote_data v)), to_quorum_cert = qc\<rparr>"

definition vote_epoch :: "vote \<Rightarrow> u64" where
  "vote_epoch v = bi_epoch (proposed (vote_vote_data v))"

definition vote_is_timeout :: "vote \<Rightarrow> bool" where
  "vote_is_timeout v \<longleftrightarrow> vote_two_chain_timeout v \<noteq> None"

definition vote_verify ::
    "consensus_env \<Rightarrow> validator_verifier \<Rightarrow> verify_mode \<Rightarrow> vote \<Rightarrow> (anyhow_error, vote) res" where
  "vote_verify E validator mode v =
     bind (ensure (li_consensus_data_hash (vote_ledger_info v) = hash_vote_data E (vote_vote_data v))
       (Msg ''Vote's hash mismatch with LedgerInfo'')) (\<lambda>_.
     bind (map_err (\<lambda>e. Context ''Failed to verify Vote'' (VerifyErr e))
             (optimistic_verify (env_crypto E) validator mode (vote_author v)
                (SLedgerInfo (vote_ledger_info v)) (vote_signature v))) (\<lambda>s.
     bind (case vote_two_chain_timeout v of
             None \<Rightarrow> Ok ()
           | Some (t, sig) \<Rightarrow>
               bind (ensure (to_epoch t = vote_epoch v \<and> to_round t = bi_round (proposed (vote_vote_data v)))
                 (Msg ''2-chain timeout has different (epoch, round) than Vote'')) (\<lambda>_.
               bind (timeout_verify E t validator) (\<lambda>_.
                 map_err (\<lambda>e. Context ''Failed to verify 2-chain timeout signature'' (VerifyErr e))
                   (vv_verify (env_crypto E) validator (vote_author v) (signing_format t) sig)))) (\<lambda>_.
     bind (vote_data_verify (vote_vote_data v)) (\<lambda>_.
       Ok (v\<lparr>vote_signature := s\<rparr>)))))"

text \<open>\<^verbatim>\<open>VoteProposal\<close>: a block with what is needed to compute the state it leads to.\<close>

record vote_proposal =
  vp_accumulator_extension_proof :: accumulator_extension_proof
  vp_block :: block
  vp_next_epoch_state :: "epoch_state option"
  vp_decoupled_execution :: bool

definition vote_data_ordering_only :: "vote_proposal \<Rightarrow> vote_data" where
  "vote_data_ordering_only vp =
     \<lparr>proposed = gen_block_info (vp_block vp) ACCUMULATOR_PLACEHOLDER_HASH 0 (vp_next_epoch_state vp),
      parent = certified_block (blk_quorum_cert (vp_block vp))\<rparr>"

definition vote_data_with_extension_proof :: "vote_proposal \<Rightarrow> in_memory_accumulator \<Rightarrow> vote_data" where
  "vote_data_with_extension_proof vp new_tree =
     \<lparr>proposed = gen_block_info (vp_block vp) (acc_root_hash new_tree) (acc_version new_tree)
        (vp_next_epoch_state vp),
      parent = certified_block (blk_quorum_cert (vp_block vp))\<rparr>"

definition gen_vote_data :: "node_hash \<Rightarrow> vote_proposal \<Rightarrow> (anyhow_error, vote_data) res" where
  "gen_vote_data H vp =
     (if vp_decoupled_execution vp then Ok (vote_data_ordering_only vp)
      else bind (aep_verify H (vp_accumulator_extension_proof vp)
                   (bi_executed_state_id (certified_block (blk_quorum_cert (vp_block vp)))))
             (\<lambda>new_tree. Ok (vote_data_with_extension_proof vp new_tree)))"

section \<open>Order votes\<close>

record order_vote =
  ov_author :: author
  ov_ledger_info :: ledger_info
  ov_signature :: signature_with_status

definition order_vote_new_with_signature :: "author \<Rightarrow> ledger_info \<Rightarrow> signature \<Rightarrow> order_vote" where
  "order_vote_new_with_signature auth li sig =
     \<lparr>ov_author = auth, ov_ledger_info = li, ov_signature = sws_from sig\<rparr>"

definition order_vote_verify ::
    "consensus_env \<Rightarrow> validator_verifier \<Rightarrow> verify_mode \<Rightarrow> order_vote \<Rightarrow> (anyhow_error, order_vote) res"
where
  "order_vote_verify E validator mode v =
     bind (ensure (li_consensus_data_hash (ov_ledger_info v) = 0)
       (Msg ''Failed to verify OrderVote. Consensus data hash is not Zero'')) (\<lambda>_.
     bind (map_err (\<lambda>e. Context ''Failed to verify OrderVote'' (VerifyErr e))
             (optimistic_verify (env_crypto E) validator mode (ov_author v)
                (SLedgerInfo (ov_ledger_info v)) (ov_signature v))) (\<lambda>s.
       Ok (v\<lparr>ov_signature := s\<rparr>)))"

record order_vote_proposal =
  ovp_block :: block
  ovp_block_info :: block_info
  ovp_quorum_cert :: quorum_cert

section \<open>Round timeouts\<close>

datatype round_timeout_reason =
  Unknown | ProposalNotReceived | PayloadUnavailable bit_vec | NoQC

record round_timeout =
  rt_timeout :: two_chain_timeout
  rt_author :: author
  rt_reason :: round_timeout_reason
  rt_signature :: signature

definition round_timeout_verify ::
    "consensus_env \<Rightarrow> validator_verifier \<Rightarrow> round_timeout \<Rightarrow> (anyhow_error, unit) res" where
  "round_timeout_verify E validator t =
     bind (timeout_verify E (rt_timeout t) validator) (\<lambda>_.
       map_err (\<lambda>e. Context ''Failed to verify 2-chain timeout signature'' (VerifyErr e))
         (vv_verify (env_crypto E) validator (rt_author t) (signing_format (rt_timeout t))
            (rt_signature t)))"

section \<open>Synchronization info\<close>

record sync_info =
  si_highest_quorum_cert :: quorum_cert
  si_highest_ordered_cert :: "wrapped_ledger_info option"
  si_highest_commit_cert :: wrapped_ledger_info
  si_highest_2chain_timeout_cert :: "two_chain_timeout_certificate option"

definition sync_info_new_decoupled ::
    "quorum_cert \<Rightarrow> wrapped_ledger_info \<Rightarrow> wrapped_ledger_info \<Rightarrow> two_chain_timeout_certificate option
       \<Rightarrow> sync_info" where
  "sync_info_new_decoupled hqc hoc hcc htc =
     \<lparr>si_highest_quorum_cert = hqc, si_highest_ordered_cert = Some hoc, si_highest_commit_cert = hcc,
      si_highest_2chain_timeout_cert =
        (case htc of
           Some tc \<Rightarrow> if tc_round tc > bi_round (certified_block hqc) then Some tc else None
         | None \<Rightarrow> None)\<rparr>"

definition sync_info_new ::
    "quorum_cert \<Rightarrow> wrapped_ledger_info \<Rightarrow> two_chain_timeout_certificate option \<Rightarrow> sync_info" where
  "sync_info_new hqc hoc htc = sync_info_new_decoupled hqc hoc hoc htc"

definition highest_ordered_cert :: "sync_info \<Rightarrow> wrapped_ledger_info" where
  "highest_ordered_cert si =
     (case si_highest_ordered_cert si of
        Some cert \<Rightarrow> cert
      | None \<Rightarrow> into_wrapped_ledger_info (si_highest_quorum_cert si))"

definition highest_certified_round :: "sync_info \<Rightarrow> round" where
  "highest_certified_round si = bi_round (certified_block (si_highest_quorum_cert si))"

definition highest_timeout_round :: "sync_info \<Rightarrow> round" where
  "highest_timeout_round si =
     (case si_highest_2chain_timeout_cert si of None \<Rightarrow> 0 | Some tc \<Rightarrow> tc_round tc)"

definition highest_ordered_round :: "sync_info \<Rightarrow> round" where
  "highest_ordered_round si = bi_round (wli_commit_info (highest_ordered_cert si))"

definition highest_commit_round :: "sync_info \<Rightarrow> round" where
  "highest_commit_round si = bi_round (wli_commit_info (si_highest_commit_cert si))"

definition highest_round :: "sync_info \<Rightarrow> round" where
  "highest_round si = max (highest_certified_round si) (highest_timeout_round si)"

definition si_epoch :: "sync_info \<Rightarrow> u64" where
  "si_epoch si = bi_epoch (certified_block (si_highest_quorum_cert si))"

definition has_newer_certificates :: "sync_info \<Rightarrow> sync_info \<Rightarrow> bool" where
  "has_newer_certificates si other \<longleftrightarrow>
     highest_certified_round si > highest_certified_round other \<or>
     highest_timeout_round si > highest_timeout_round other \<or>
     highest_ordered_round si > highest_ordered_round other \<or>
     highest_commit_round si > highest_commit_round other"

definition sync_info_verify ::
    "consensus_env \<Rightarrow> sync_info \<Rightarrow> validator_verifier \<Rightarrow> (anyhow_error, unit) res" where
  "sync_info_verify E si validator =
     (let epoch = bi_epoch (certified_block (si_highest_quorum_cert si));
          hoc_info = wli_commit_info (highest_ordered_cert si);
          hcc_info = wli_commit_info (si_highest_commit_cert si)
      in bind (ensure (epoch = bi_epoch hoc_info) (Msg ''Multi epoch in SyncInfo - HOC and HQC'')) (\<lambda>_.
         bind (ensure (epoch = bi_epoch hcc_info) (Msg ''Multi epoch in SyncInfo - HOC and HCC'')) (\<lambda>_.
         bind (case si_highest_2chain_timeout_cert si of
                 None \<Rightarrow> Ok ()
               | Some tc \<Rightarrow> ensure (epoch = tc_epoch tc) (Msg ''Multi epoch in SyncInfo - TC and HQC'')) (\<lambda>_.
         bind (ensure (bi_round (certified_block (si_highest_quorum_cert si)) \<ge> bi_round hoc_info)
           (Msg ''HQC has lower round than HOC'')) (\<lambda>_.
         bind (ensure (highest_ordered_round si \<ge> highest_commit_round si)
           (Msg ''HOC has lower round than HLI'')) (\<lambda>_.
         bind (ensure (hoc_info \<noteq> block_info_empty) (Msg ''HOC has no committed block'')) (\<lambda>_.
         bind (ensure (hcc_info \<noteq> block_info_empty) (Msg ''HLI has empty commit info'')) (\<lambda>_.
         bind (ensure (\<not> is_ordered_only hcc_info) (Msg ''HLI has ordered only commit info'')) (\<lambda>_.
           map_err (Context ''Fail to verify SyncInfo'')
             (bind (qc_verify E (si_highest_quorum_cert si) validator) (\<lambda>_.
              bind (case si_highest_ordered_cert si of
                      None \<Rightarrow> Ok ()
                    | Some cert \<Rightarrow> map_err (Context ''Fail to verify ordered certificate'')
                        (wli_verify E cert validator)) (\<lambda>_.
              bind (if bi_round hcc_info > 0 then
                      map_err (Context ''Fail to verify commit certificate'')
                        (wli_verify E (si_highest_commit_cert si) validator)
                    else Ok ()) (\<lambda>_.
                case si_highest_2chain_timeout_cert si of
                  None \<Rightarrow> Ok ()
                | Some tc \<Rightarrow> tc_verify E tc validator)))))))))))))"

section \<open>Messages\<close>

definition vote_msg_verify ::
    "consensus_env \<Rightarrow> validator_verifier \<Rightarrow> verify_mode \<Rightarrow> author \<Rightarrow> vote \<Rightarrow> sync_info
       \<Rightarrow> (anyhow_error, vote) res" where
  "vote_msg_verify E validator mode sender v si =
     bind (ensure (vote_author v = sender) (Msg ''Vote author is different from the sender'')) (\<lambda>_.
     bind (ensure (vote_epoch v = si_epoch si) (Msg ''VoteMsg has different epoch'')) (\<lambda>_.
     bind (ensure (bi_round (proposed (vote_vote_data v)) > highest_round si)
       (Msg ''Vote Round should be higher than SyncInfo'')) (\<lambda>_.
     bind (case vote_two_chain_timeout v of
             None \<Rightarrow> Ok ()
           | Some (t, _) \<Rightarrow> ensure (hqc_round t \<le> highest_certified_round si)
               (Msg ''2-chain Timeout hqc should be less or equal than the sync info hqc'')) (\<lambda>_.
       vote_verify E validator mode v))))"

definition verify_order_vote ::
    "consensus_env \<Rightarrow> validator_verifier \<Rightarrow> verify_mode \<Rightarrow> author \<Rightarrow> order_vote \<Rightarrow> quorum_cert
       \<Rightarrow> (anyhow_error, order_vote) res" where
  "verify_order_vote E validator mode sender v qc =
     bind (ensure (ov_author v = sender) (Msg ''Order vote author is different from the sender'')) (\<lambda>_.
     bind (ensure (certified_block qc = li_commit_info (ov_ledger_info v))
       (Msg ''QuorumCert and OrderVote do not match'')) (\<lambda>_.
       map_err (Context ''[OrderVoteMsg] OrderVote verification failed'')
         (order_vote_verify E validator mode v)))"

definition round_timeout_msg_verify ::
    "consensus_env \<Rightarrow> validator_verifier \<Rightarrow> round_timeout \<Rightarrow> sync_info \<Rightarrow> (anyhow_error, unit) res" where
  "round_timeout_msg_verify E validator t si =
     bind (ensure (to_epoch (rt_timeout t) = si_epoch si)
       (Msg ''RoundTimeoutV2Msg has different epoch'')) (\<lambda>_.
     bind (ensure (to_round (rt_timeout t) > highest_round si)
       (Msg ''Timeout Round should be higher than SyncInfo'')) (\<lambda>_.
     bind (ensure (hqc_round (rt_timeout t) \<le> highest_certified_round si)
       (Msg ''2-chain Timeout hqc should be less or equal than the sync info hqc'')) (\<lambda>_.
       round_timeout_verify E validator t)))"

definition proposal_msg_verify_well_formed ::
    "u64 \<Rightarrow> block \<Rightarrow> sync_info \<Rightarrow> (anyhow_error, unit) res" where
  "proposal_msg_verify_well_formed now b si =
     bind (ensure (\<not> bd_is_nil_block (blk_block_data b)) (Msg ''Proposal for a NIL block'')) (\<lambda>_.
     bind (map_err (Context ''Fail to verify ProposalMsg's block'') (blk_verify_well_formed now b)) (\<lambda>_.
     bind (ensure (blk_round b > 0) (Msg ''Proposal has an incorrect round of 0'')) (\<lambda>_.
     bind (ensure (blk_epoch b = si_epoch si)
       (Msg ''ProposalMsg has different epoch number from SyncInfo'')) (\<lambda>_.
     bind (ensure (blk_parent_id b = bi_id (certified_block (si_highest_quorum_cert si)))
       (Msg ''Proposal HQC in SyncInfo certifies another block than the parent'')) (\<lambda>_.
     bind (ok_or (Msg ''proposal round overflowed!'') (checked_sub (blk_round b) 1)) (\<lambda>previous_round.
     bind (ensure (previous_round =
             max (bi_round (certified_block (blk_quorum_cert b))) (highest_timeout_round si))
       (Msg ''Proposal does not have a certified round'')) (\<lambda>_.
       ensure (blk_author b \<noteq> None) (Msg ''Proposal does not define an author''))))))))"

definition batch_crypto :: "consensus_env \<Rightarrow> batch_info crypto" where
  "batch_crypto E = crypto_at (\<lambda>info. SConsensus (MBatchInfo info)) (env_crypto E)"

definition proposal_msg_verify ::
    "consensus_env \<Rightarrow> batch_hash \<Rightarrow> u64 \<Rightarrow> validator_verifier \<Rightarrow> author \<Rightarrow> bool \<Rightarrow> block \<Rightarrow> sync_info
       \<Rightarrow> (proof_cache, anyhow_error, unit) method_res" where
  "proposal_msg_verify E H now validator sender quorum_store_enabled b si =
     m_bind (m_lift (case blk_author b of
               None \<Rightarrow> Ok ()
             | Some auth \<Rightarrow> ensure (auth = sender) (Msg ''Proposal author doesn't match sender''))) (\<lambda>_.
     m_bind (case blk_payload b of
               None \<Rightarrow> m_return ()
             | Some p \<Rightarrow> payload_verify (batch_crypto E) H validator quorum_store_enabled p) (\<lambda>_.
     m_bind (m_lift (validate_signature E b validator)) (\<lambda>_.
     m_bind (m_lift (case si_highest_2chain_timeout_cert si of
               None \<Rightarrow> Ok ()
             | Some tc \<Rightarrow> tc_verify E tc validator)) (\<lambda>_.
       m_lift (proposal_msg_verify_well_formed now b si)))))"

definition opt_proposal_msg_verify_well_formed ::
    "u64 \<Rightarrow> opt_block_data \<Rightarrow> sync_info \<Rightarrow> (anyhow_error, unit) res" where
  "opt_proposal_msg_verify_well_formed now d si =
     (let grandparent = certified_block (obb_grandparent_qc (obd_block_body d))
      in bind (map_err (Context ''Fail to verify OptProposalMsg's data'')
                 (obd_verify_well_formed now d)) (\<lambda>_.
         bind (ensure (obd_round d > 1) (Msg ''Proposal has round <= 1'')) (\<lambda>_.
         bind (ensure (obd_epoch d = si_epoch si)
           (Msg ''ProposalMsg has different epoch number from SyncInfo'')) (\<lambda>_.
         bind (ensure (bi_id grandparent = bi_id (certified_block (si_highest_quorum_cert si)))
           (Msg ''Proposal HQC in SyncInfo certifies another block than the grandparent'')) (\<lambda>_.
         bind (ok_or (Msg ''proposal round overflowed!'') (checked_sub (obd_round d) 2))
           (\<lambda>grandparent_round.
         bind (ensure (grandparent_round = bi_round grandparent)
           (Msg ''Proposal does not have a certified round'')) (\<lambda>_.
           ensure (si_highest_2chain_timeout_cert si = None)
             (Msg ''Optimistic proposal shouldn't have a timeout certificate''))))))))"

definition opt_proposal_msg_verify ::
    "consensus_env \<Rightarrow> batch_hash \<Rightarrow> u64 \<Rightarrow> validator_verifier \<Rightarrow> author \<Rightarrow> bool \<Rightarrow> opt_block_data \<Rightarrow> sync_info
       \<Rightarrow> (proof_cache, anyhow_error, unit) method_res" where
  "opt_proposal_msg_verify E H now validator sender quorum_store_enabled d si =
     m_bind (m_lift (ensure (obb_author (obd_block_body d) = sender)
               (Msg ''OptProposal author doesn't match sender''))) (\<lambda>_.
     m_bind (payload_verify (batch_crypto E) H validator quorum_store_enabled
               (obb_payload (obd_block_body d))) (\<lambda>_.
     m_bind (m_lift (qc_verify E (obb_grandparent_qc (obd_block_body d)) validator)) (\<lambda>_.
       m_lift (obd_verify_well_formed now d))))"

section \<open>Votes that verify\<close>

lemma gen_vote_data_Ok:
  assumes "gen_vote_data H vp = Ok vd"
  shows "parent vd = certified_block (blk_quorum_cert (vp_block vp))"
    and "bi_epoch (proposed vd) = blk_epoch (vp_block vp)"
    and "bi_round (proposed vd) = blk_round (vp_block vp)"
    and "bi_id (proposed vd) = blk_id (vp_block vp)"
    and "bi_timestamp_usecs (proposed vd) = blk_timestamp_usecs (vp_block vp)"
    and "bi_next_epoch_state (proposed vd) = vp_next_epoch_state vp"
  using assms
  by (auto simp: gen_vote_data_def vote_data_ordering_only_def vote_data_with_extension_proof_def
      gen_block_info_def res_simps split: if_splits)

lemma vote_verify_Ok:
  assumes "vote_verify E vv mode v = Ok v'"
  shows "li_consensus_data_hash (vote_ledger_info v) = hash_vote_data E (vote_vote_data v)"
    and "vote_data_verify (vote_vote_data v) = Ok ()"
    and "v' = v\<lparr>vote_signature := vote_signature v'\<rparr>"
    and "vote_two_chain_timeout v = Some (t, sig) \<Longrightarrow>
      to_epoch t = vote_epoch v \<and> to_round t = bi_round (proposed (vote_vote_data v)) \<and>
      timeout_verify E t vv = Ok () \<and>
      vv_verify (env_crypto E) vv (vote_author v) (signing_format t) sig = Ok ()"
  using assms by (auto simp: vote_verify_def res_simps split: option.splits)

lemma optimistic_verify_verified:
  assumes "optimistic_verify C vv mode a m s = Ok s'" "sws_verified s'" "\<not> sws_verified s"
  shows "vv_verify C vv a m (sws_signature s) = Ok ()"
  using assms
  by (auto simp: optimistic_verify_def res_simps set_verified_def split: if_splits)

section \<open>Properties\<close>


definition sample_commit_cert :: "u64 \<Rightarrow> wrapped_ledger_info" where
  "sample_commit_cert r =
     \<lparr>wli_vote_data = vote_data_dummy,
      wli_signed_ledger_info = \<lparr>
        liws_ledger_info =
          \<lparr>li_commit_info = (sample_block_info r)\<lparr>bi_executed_state_id := 5, bi_version := 8\<rparr>,
           li_consensus_data_hash = 0\<rparr>,
        liws_signatures =
          \<lparr>validator_bitmask = \<lparr>inner = [0xE0]\<rparr>, agg_sig = Some (Signature [42])\<rparr>\<rparr>\<rparr>"

definition sample_sync_info :: sync_info where
  "sample_sync_info =
     sync_info_new_decoupled (sample_qc 2) (sample_commit_cert 2) (sample_commit_cert 1)
       (Some (sample_tc [1, 2, 0] 11 2))"


text \<open>
  A vote that an honest validator makes with \<^verbatim>\<open>Vote::new\<close> passes \<^verbatim>\<open>Vote::verify\<close> at every
  receiver; it is marked as verified, unless the receiver verifies signatures optimistically.
\<close>

theorem honest_vote_verifies:
  assumes "vote_new E vd (vs_author signer) li signer = Ok v"
    and "sign_correct (env_crypto E)"
    and "get_public_key vv (vs_author signer) =
      Some (bls_public_key (env_crypto E) (vs_private_key signer))"
    and "vote_data_verify vd = Ok ()"
  shows "\<exists>v'. vote_verify E vv mode v = Ok v' \<and>
    v' = v\<lparr>vote_signature := vote_signature v'\<rparr> \<and>
    (optimistic_sig_verification mode \<or> sws_verified (vote_signature v'))"
proof -
  let ?li = "li\<lparr>li_consensus_data_hash := hash_vote_data E vd\<rparr>"
  obtain sig where v: "v = vote_new_with_signature vd (vs_author signer) ?li sig"
    and sig: "bls_sign (env_crypto E) (vs_private_key signer) (SLedgerInfo ?li) = Some sig"
    using assms(1) by (auto simp: vote_new_def Let_def signer_sign_def res_simps)
  have "vv_verify (env_crypto E) vv (vs_author signer) (SLedgerInfo ?li) sig = Ok ()"
    using assms(2,3) sig by (simp add: vv_verify_def sign_correct_def ensure_def)
  then have "\<exists>s. optimistic_verify (env_crypto E) vv mode (vs_author signer) (SLedgerInfo ?li)
      (sws_from sig) = Ok s \<and> (optimistic_sig_verification mode \<or> sws_verified s)"
    using assms(3)
    by (cases "optimistic_sig_verification mode \<and> vs_author signer \<notin> pessimistic_verify_set mode")
      (auto simp: optimistic_verify_def sws_from_def set_verified_def)
  then show ?thesis
    using assms(4) by (auto simp: vote_verify_def v vote_new_with_signature_def ensure_def)
qed

theorem honest_vote_verifies_witness:
  "\<exists>v v'. vote_new sample_env (qc_vote_data (sample_qc 2)) 1 ledger_info_dummy sample_signer = Ok v \<and>
     vote_verify sample_env sample_verifier
       \<lparr>optimistic_sig_verification = False, pessimistic_verify_set = {}\<rparr> v = Ok v' \<and>
     sws_verified (vote_signature v')"
proof -
  let ?v = "vote_new_with_signature (qc_vote_data (sample_qc 2)) 1
    (ledger_info_dummy\<lparr>li_consensus_data_hash := 2\<rparr>) (Signature [7])"
  have "vote_new sample_env (qc_vote_data (sample_qc 2)) 1 ledger_info_dummy sample_signer = Ok ?v"
    by code_simp
  then have new: "vote_new sample_env (qc_vote_data (sample_qc 2)) (vs_author sample_signer)
      ledger_info_dummy sample_signer = Ok ?v" by (simp add: sample_signer_def)
  have sc: "sign_correct (env_crypto (sample_env :: consensus_env))"
    by (simp add: sample_env_def linear_crypto_sign_correct)
  have key: "get_public_key sample_verifier (vs_author sample_signer) =
      Some (bls_public_key (env_crypto (sample_env :: consensus_env)) (vs_private_key sample_signer))"
    by code_simp
  have "vote_data_verify (qc_vote_data (sample_qc 2)) = Ok ()" by code_simp
  from honest_vote_verifies [OF new sc key this,
      of "\<lparr>optimistic_sig_verification = False, pessimistic_verify_set = {}\<rparr>"] new
  show ?thesis by (auto simp: sample_signer_def)
qed

text \<open>
  C39. What a proposal message that verifies proves: the sender is the author of the block, the block
  has a signature of the sender (unless it is an optimistic block), its quorum certificate verifies,
  and its round follows immediately the higher of the certified round and the timeout round.
\<close>

theorem proposal_msg_sound:
  assumes "proposal_msg_verify E H now vv sender qs b si cache = (Ok u, cache')"
  shows "blk_author b = Some sender \<and> qc_verify E (blk_quorum_cert b) vv = Ok () \<and>
    bi_epoch (certified_block (blk_quorum_cert b)) = blk_epoch b \<and> blk_epoch b = si_epoch si \<and>
    unat (blk_round b) =
      Suc (unat (max (bi_round (certified_block (blk_quorum_cert b))) (highest_timeout_round si))) \<and>
    (bd_is_opt_block (blk_block_data b) \<or>
       (\<exists>sig. blk_signature b = Some sig \<and>
          vv_verify (env_crypto E) vv sender (SConsensus (MBlockData (blk_block_data b))) sig = Ok ()))"
proof -
  let ?qc_round = "bi_round (certified_block (blk_quorum_cert b))"
  from assms have wfm: "proposal_msg_verify_well_formed now b si = Ok ()"
    and val: "validate_signature E b vv = Ok ()"
    and auth: "blk_author b = None \<or> blk_author b = Some sender"
    by (auto simp: proposal_msg_verify_def res_simps split: option.splits)
  from wfm have wf: "blk_verify_well_formed now b = Ok ()" and nil: "\<not> bd_is_nil_block (blk_block_data b)"
    and e: "blk_epoch b = si_epoch si" and some: "blk_author b \<noteq> None"
    and r: "checked_sub (blk_round b) 1 = Some (max ?qc_round (highest_timeout_round si))"
    by (auto simp: proposal_msg_verify_well_formed_def res_simps)
  have sender: "blk_author b = Some sender" using auth some by simp
  have "blk_round b \<noteq> 0" using blk_verify_well_formed_Ok(1) [OF wf] by auto
  then have "unat (blk_round b) = Suc (unat (max ?qc_round (highest_timeout_round si)))"
    using unat_checked_sub [OF r] by (simp add: unat_gt_0)
  moreover have "bd_is_opt_block (blk_block_data b) \<or>
      (\<exists>sig. blk_signature b = Some sig \<and>
        vv_verify (env_crypto E) vv sender (SConsensus (MBlockData (blk_block_data b))) sig = Ok ())"
    using val sender nil
    by (auto simp: validate_signature_def Let_def res_simps blk_author_def bd_author_def
        bd_is_opt_block_def bd_is_nil_block_def split: block_type.splits)
  ultimately show ?thesis
    using sender validate_signature_qc [OF val] blk_verify_well_formed_Ok(2) [OF wf] e by simp
qed

theorem proposal_msg_sound_witness:
  "\<exists>cache'. proposal_msg_verify sample_env (\<lambda>_. 0) 5 sample_verifier 1 False (sample_block 3)
       (sync_info_new (sample_qc 2) (sample_commit_cert 1) None) Map.empty = (Ok (), cache') \<and>
     blk_author (sample_block 3) = Some 1 \<and>
     unat (blk_round (sample_block 3)) = Suc (unat (max (2 :: u64) 0))"
proof -
  let ?si = "sync_info_new (sample_qc 2) (sample_commit_cert 1) None"
  have "fst (proposal_msg_verify sample_env (\<lambda>_. 0) 5 sample_verifier 1 False (sample_block 3)
      ?si Map.empty) = Ok ()" by code_simp
  then obtain cache' where ok: "proposal_msg_verify sample_env (\<lambda>_. 0) 5 sample_verifier 1 False
      (sample_block 3) ?si Map.empty = (Ok (), cache')" by (metis prod.collapse)
  have "bi_round (certified_block (blk_quorum_cert (sample_block 3))) = 2"
    "highest_timeout_round ?si = 0" by code_simp+
  with proposal_msg_sound [OF ok] ok show ?thesis by auto
qed

text \<open>
  The checks of \<^verbatim>\<open>OptProposalMsg::verify_well_formed\<close> are not made: \<^verbatim>\<open>OptProposalMsg::verify\<close> calls
  \<^verbatim>\<open>verify_well_formed\<close> of the block data instead of that of the message. There is a message that
  \<^verbatim>\<open>verify\<close> accepts although it carries a timeout certificate and another highest quorum certificate
  than the grandparent's, and \<^verbatim>\<open>verify_well_formed\<close> rejects it.
\<close>

theorem opt_proposal_msg_unchecked:
  "\<exists>d si. fst (opt_proposal_msg_verify sample_env (\<lambda>_. 0) 5 sample_verifier 1 False d si Map.empty) =
       Ok () \<and>
     si_highest_2chain_timeout_cert si \<noteq> None \<and>
     bi_id (certified_block (si_highest_quorum_cert si)) \<noteq>
       bi_id (certified_block (obb_grandparent_qc (obd_block_body d))) \<and>
     \<not> is_ok (opt_proposal_msg_verify_well_formed 5 d si)"
proof (intro exI conjI)
  show "fst (opt_proposal_msg_verify sample_env (\<lambda>_. 0) 5 sample_verifier 1 False sample_opt_data
    sample_sync_info Map.empty) = Ok ()" by code_simp
  show "si_highest_2chain_timeout_cert sample_sync_info \<noteq> None" by code_simp
  show "bi_id (certified_block (si_highest_quorum_cert sample_sync_info)) \<noteq>
    bi_id (certified_block (obb_grandparent_qc (obd_block_body sample_opt_data)))" by code_simp
  show "\<not> is_ok (opt_proposal_msg_verify_well_formed 5 sample_opt_data sample_sync_info)" by code_simp
qed

end
