(* ===== verification/Epoch_Change.thy ===== *)
theory Epoch_Change
  imports Accumulator "HOL-Library.Sublist"
begin

text \<open>
  Trust across epochs: \<^verbatim>\<open>types/src/waypoint.rs\<close>, \<^verbatim>\<open>types/src/epoch_change.rs\<close> and
  \<^verbatim>\<open>types/src/trusted_state.rs\<close>. The hash of the fields a waypoint commits to is the argument \<open>HW\<close>; the
  decoder of the \<^verbatim>\<open>hex\<close> crate is the argument \<open>decode\<close> of the parser. The lemmas show that what a proof
  of epoch changes leads to is reached by a chain of ledger infos, each signed by a quorum of the
  validator set that the one before it names.
\<close>

section \<open>Waypoints\<close>

record ledger2waypoint_converter =
  lwc_epoch :: u64
  lwc_root_hash :: hash_value
  lwc_version :: version
  lwc_timestamp_usecs :: u64
  lwc_next_epoch_state :: "epoch_state option"

type_synonym waypoint_hash = "ledger2waypoint_converter \<Rightarrow> hash_value"

definition converter_new :: "ledger_info \<Rightarrow> ledger2waypoint_converter" where
  "converter_new li =
     \<lparr>lwc_epoch = li_epoch li, lwc_root_hash = li_transaction_accumulator_hash li,
      lwc_version = li_version li, lwc_timestamp_usecs = li_timestamp_usecs li,
      lwc_next_epoch_state = li_next_epoch_state li\<rparr>"

record waypoint =
  wp_version :: version
  wp_value :: hash_value

definition waypoint_new_any :: "waypoint_hash \<Rightarrow> ledger_info \<Rightarrow> waypoint" where
  "waypoint_new_any HW li = \<lparr>wp_version = li_version li, wp_value = HW (converter_new li)\<rparr>"

definition waypoint_new_epoch_boundary ::
    "waypoint_hash \<Rightarrow> ledger_info \<Rightarrow> (anyhow_error, waypoint) res" where
  "waypoint_new_epoch_boundary HW li =
     bind (ensure (li_ends_epoch li) (Msg ''No validator set'')) (\<lambda>_. Ok (waypoint_new_any HW li))"

definition waypoint_verify :: "waypoint_hash \<Rightarrow> waypoint \<Rightarrow> ledger_info \<Rightarrow> (anyhow_error, unit) res" where
  "waypoint_verify HW w li =
     bind (ensure (li_version li = wp_version w) (Msg ''Waypoint version mismatch'')) (\<lambda>_.
       ensure (HW (converter_new li) = wp_value w) (Msg ''Waypoint value mismatch''))"

definition waypoint_is_ledger_info_stale :: "waypoint \<Rightarrow> ledger_info \<Rightarrow> bool" where
  "waypoint_is_ledger_info_stale w li \<longleftrightarrow> li_version li < wp_version w"

text \<open>The decimal notation of a \<^verbatim>\<open>u64\<close> and its parser, of the standard library.\<close>

fun digit_char :: "nat \<Rightarrow> char" where
  "digit_char d = char_of (48 + d)"

function decimal :: "nat \<Rightarrow> string" where
  "decimal n = (if n < 10 then [digit_char n] else decimal (n div 10) @ [digit_char (n mod 10)])"
  by pat_completeness auto

termination decimal
  by (relation "measure id") auto

declare decimal.simps [simp del]

definition char_digit :: "char \<Rightarrow> nat option" where
  "char_digit c =
     (let n = (of_char c :: nat) in if 48 \<le> n \<and> n \<le> 57 then Some (n - 48) else None)"

fun parse_digits :: "nat \<Rightarrow> string \<Rightarrow> nat option" where
  "parse_digits acc [] = Some acc"
| "parse_digits acc (c # cs) =
     (case char_digit c of
        None \<Rightarrow> None
      | Some d \<Rightarrow> if acc * 10 + d < 2 ^ 64 then parse_digits (acc * 10 + d) cs else None)"

definition parse_u64 :: "string \<Rightarrow> u64 option" where
  "parse_u64 s =
     (let digits = (case s of c # cs \<Rightarrow> if c = CHR ''+'' then cs else s | [] \<Rightarrow> [])
      in if digits = [] then None else map_option word_of_nat (parse_digits 0 digits))"

text \<open>\<^verbatim>\<open>HashValue::to_hex\<close>: the bytes from the most significant one, two digits each.\<close>

definition hex_char :: "nat \<Rightarrow> char" where
  "hex_char d = char_of (if d < 10 then 48 + d else 87 + d)"

definition hash_bytes :: "hash_value \<Rightarrow> u8 list" where
  "hash_bytes h = map (\<lambda>i. ucast (drop_bit (8 * (31 - i)) h)) [0..<32]"

definition bytes_hash :: "u8 list \<Rightarrow> hash_value" where
  "bytes_hash bs = foldl (\<lambda>acc b. acc * 256 + ucast b) 0 bs"

definition hash_to_hex :: "hash_value \<Rightarrow> string" where
  "hash_to_hex h = concat (map (\<lambda>b. [hex_char (unat b div 16), hex_char (unat b mod 16)]) (hash_bytes h))"

type_synonym hex_decoder = "string \<Rightarrow> u8 list option"

definition hash_from_hex :: "hex_decoder \<Rightarrow> string \<Rightarrow> (anyhow_error, hash_value) res" where
  "hash_from_hex decode s =
     (case decode s of
        Some bs \<Rightarrow> if length bs = 32 then Ok (bytes_hash bs) else Err (Msg ''HashValueParseError'')
      | None \<Rightarrow> Err (Msg ''HashValueParseError''))"

definition WAYPOINT_DELIMITER :: char where
  "WAYPOINT_DELIMITER = CHR '':''"

definition waypoint_to_string :: "waypoint \<Rightarrow> string" where
  "waypoint_to_string w =
     decimal (unat (wp_version w)) @ [WAYPOINT_DELIMITER] @ hash_to_hex (wp_value w)"

text \<open>\<^verbatim>\<open>str::split\<close>: the pieces between the delimiters, at least one.\<close>

fun split_on :: "char \<Rightarrow> string \<Rightarrow> string list" where
  "split_on d [] = [[]]"
| "split_on d (c # cs) =
     (if c = d then [] # split_on d cs
      else (case split_on d cs of p # ps \<Rightarrow> (c # p) # ps | [] \<Rightarrow> [[c]]))"

definition waypoint_from_str :: "hex_decoder \<Rightarrow> string \<Rightarrow> (anyhow_error, waypoint) res" where
  "waypoint_from_str decode s =
     (case split_on WAYPOINT_DELIMITER s of
        [] \<Rightarrow> Err (Msg ''Failed to parse waypoint string'')
      | p # ps \<Rightarrow>
          bind (ok_or (Msg ''ParseIntError'') (parse_u64 p)) (\<lambda>ver.
            case ps of
              [] \<Rightarrow> Err (Msg ''Failed to parse waypoint string'')
            | q # _ \<Rightarrow> bind (hash_from_hex decode q) (\<lambda>v. Ok \<lparr>wp_version = ver, wp_value = v\<rparr>)))"

section \<open>Trusted states and epoch change proofs\<close>

datatype trusted_state = EpochWaypoint waypoint | EpochState waypoint epoch_state

datatype trusted_state_change =
    ChangeVersion trusted_state
  | ChangeEpoch trusted_state ledger_info_with_signatures
  | NoChange

text \<open>The implementations of the trait \<^verbatim>\<open>Verifier\<close>.\<close>

datatype dyn_verifier =
    WaypointVerifier waypoint
  | EpochStateVerifier epoch_state
  | TrustedStateVerifier trusted_state

fun trusted_verify ::
    "'p signable crypto \<Rightarrow> waypoint_hash \<Rightarrow> trusted_state \<Rightarrow> ledger_info_with_signatures
       \<Rightarrow> (anyhow_error, unit) res" where
  "trusted_verify C HW (EpochWaypoint w) l = waypoint_verify HW w (liws_ledger_info l)"
| "trusted_verify C HW (EpochState w es) l = es_verify C es l"

fun trusted_epoch_change_verification_required :: "trusted_state \<Rightarrow> u64 \<Rightarrow> bool" where
  "trusted_epoch_change_verification_required (EpochWaypoint w) e = True"
| "trusted_epoch_change_verification_required (EpochState w es) e =
     es_epoch_change_verification_required es e"

fun trusted_is_ledger_info_stale :: "trusted_state \<Rightarrow> ledger_info \<Rightarrow> bool" where
  "trusted_is_ledger_info_stale (EpochWaypoint w) li = waypoint_is_ledger_info_stale w li"
| "trusted_is_ledger_info_stale (EpochState w es) li = es_is_ledger_info_stale es li"

fun dyn_verify ::
    "'p signable crypto \<Rightarrow> waypoint_hash \<Rightarrow> dyn_verifier \<Rightarrow> ledger_info_with_signatures
       \<Rightarrow> (anyhow_error, unit) res" where
  "dyn_verify C HW (WaypointVerifier w) l = waypoint_verify HW w (liws_ledger_info l)"
| "dyn_verify C HW (EpochStateVerifier es) l = es_verify C es l"
| "dyn_verify C HW (TrustedStateVerifier t) l = trusted_verify C HW t l"

fun dyn_is_ledger_info_stale :: "dyn_verifier \<Rightarrow> ledger_info \<Rightarrow> bool" where
  "dyn_is_ledger_info_stale (WaypointVerifier w) li = waypoint_is_ledger_info_stale w li"
| "dyn_is_ledger_info_stale (EpochStateVerifier es) li = es_is_ledger_info_stale es li"
| "dyn_is_ledger_info_stale (TrustedStateVerifier t) li = trusted_is_ledger_info_stale t li"

record epoch_change_proof =
  ecp_ledger_info_with_sigs :: "ledger_info_with_signatures list"
  ecp_more :: bool

definition ecp_epoch :: "epoch_change_proof \<Rightarrow> (anyhow_error, u64) res" where
  "ecp_epoch p =
     (case ecp_ledger_info_with_sigs p of
        [] \<Rightarrow> Err (Msg ''Empty EpochChangeProof'')
      | l # _ \<Rightarrow> Ok (li_epoch (liws_ledger_info l)))"

text \<open>The loop of \<^verbatim>\<open>EpochChangeProof::verify\<close>; the verifier changes after every ledger info.\<close>

definition ecp_step ::
    "'p signable crypto \<Rightarrow> waypoint_hash \<Rightarrow> dyn_verifier \<Rightarrow> ledger_info_with_signatures
       \<Rightarrow> (anyhow_error, dyn_verifier) res" where
  "ecp_step C HW verifier_ref l =
     bind (dyn_verify C HW verifier_ref l) (\<lambda>_.
     bind (ok_or (Msg ''LedgerInfo doesn't carry a ValidatorSet'')
             (li_next_epoch_state (liws_ledger_info l))) (\<lambda>es. Ok (EpochStateVerifier es)))"

definition ecp_verify ::
    "'p signable crypto \<Rightarrow> waypoint_hash \<Rightarrow> epoch_change_proof \<Rightarrow> dyn_verifier
       \<Rightarrow> (anyhow_error, ledger_info_with_signatures) res" where
  "ecp_verify C HW p verifier =
     (let ls = ecp_ledger_info_with_sigs p
      in bind (ensure (ls \<noteq> []) (Msg ''The EpochChangeProof is empty'')) (\<lambda>_.
         bind (ensure (\<not> dyn_is_ledger_info_stale verifier (liws_ledger_info (last ls)))
           (Msg ''The EpochChangeProof is stale as our verifier is already ahead of the entire EpochChangeProof'')) (\<lambda>_.
         bind (try_fold (ecp_step C HW) verifier
                 (dropWhile (\<lambda>l. dyn_is_ledger_info_stale verifier (liws_ledger_info l)) ls)) (\<lambda>_.
           Ok (last ls)))))"

definition summary_verify_consistency ::
    "in_memory_accumulator \<Rightarrow> ledger_info \<Rightarrow> (anyhow_error, unit) res" where
  "summary_verify_consistency acc li =
     bind (ensure (li_version li = acc_version acc)
       (Msg ''ledger info and accumulator must be at the same version'')) (\<lambda>_.
       ensure (li_transaction_accumulator_hash li = acc_root_hash acc)
         (Msg ''ledger info root hash and accumulator root hash must match''))"

definition try_from_epoch_change_li ::
    "waypoint_hash \<Rightarrow> ledger_info \<Rightarrow> in_memory_accumulator \<Rightarrow> (anyhow_error, trusted_state) res" where
  "try_from_epoch_change_li HW li acc =
     bind (summary_verify_consistency acc li) (\<lambda>_.
     bind (ok_or (Msg ''No EpochState in LedgerInfo; it must not be on an epoch boundary'')
             (li_next_epoch_state li)) (\<lambda>es.
     bind (waypoint_new_epoch_boundary HW li) (\<lambda>w. Ok (EpochState w es))))"

fun trusted_waypoint :: "trusted_state \<Rightarrow> waypoint" where
  "trusted_waypoint (EpochWaypoint w) = w"
| "trusted_waypoint (EpochState w es) = w"

definition trusted_version :: "trusted_state \<Rightarrow> version" where
  "trusted_version t = wp_version (trusted_waypoint t)"

text \<open>
  The two branches of \<^verbatim>\<open>verify_and_ratchet_inner\<close>: into a new epoch, where the ledger info to trust is
  \<open>verified_ledger_info\<close>, and within the current one.
\<close>

definition verified_ledger_info ::
    "'p signable crypto \<Rightarrow> ledger_info_with_signatures \<Rightarrow> epoch_change_proof
       \<Rightarrow> ledger_info_with_signatures \<Rightarrow> epoch_state
       \<Rightarrow> (anyhow_error, ledger_info_with_signatures) res" where
  "verified_ledger_info C latest_li change_proof epoch_change_li new_epoch_state =
     (if epoch_change_li = latest_li then Ok latest_li
      else if li_epoch (liws_ledger_info latest_li) = es_epoch new_epoch_state then
        bind (es_verify C new_epoch_state latest_li) (\<lambda>_. Ok latest_li)
      else if li_epoch (liws_ledger_info latest_li) > es_epoch new_epoch_state \<and> ecp_more change_proof
      then Ok epoch_change_li
      else Err (Msg ''Inconsistent epoch change proof and latest ledger info''))"

definition ratchet_epoch ::
    "'p signable crypto \<Rightarrow> waypoint_hash \<Rightarrow> trusted_state \<Rightarrow> ledger_info_with_signatures
       \<Rightarrow> epoch_change_proof \<Rightarrow> (anyhow_error, trusted_state_change) res" where
  "ratchet_epoch C HW t latest_li change_proof =
     bind (ecp_verify C HW change_proof (TrustedStateVerifier t)) (\<lambda>epoch_change_li.
     bind (ok_or (Msg ''A valid EpochChangeProof will never return a non-epoch change ledger info'')
             (li_next_epoch_state (liws_ledger_info epoch_change_li))) (\<lambda>new_epoch_state.
     bind (verified_ledger_info C latest_li change_proof epoch_change_li new_epoch_state) (\<lambda>verified.
       Ok (ChangeEpoch
         (EpochState (waypoint_new_any HW (liws_ledger_info verified)) new_epoch_state)
         epoch_change_li))))"

fun ratchet_version ::
    "'p signable crypto \<Rightarrow> waypoint_hash \<Rightarrow> trusted_state \<Rightarrow> ledger_info_with_signatures
       \<Rightarrow> (anyhow_error, trusted_state_change) res" where
  "ratchet_version C HW (EpochWaypoint _) latest_li =
     Err (Msg ''EpochWaypoint can only verify an epoch change ledger info'')"
| "ratchet_version C HW (EpochState curr_waypoint curr_epoch_state) latest_li =
     (let new_waypoint = waypoint_new_any HW (liws_ledger_info latest_li)
      in if wp_version new_waypoint = wp_version curr_waypoint then
           bind (ensure (new_waypoint = curr_waypoint)
             (Msg ''LedgerInfo doesn't match verified state'')) (\<lambda>_. Ok NoChange)
         else
           bind (es_verify C curr_epoch_state latest_li) (\<lambda>_.
             Ok (ChangeVersion (EpochState new_waypoint curr_epoch_state))))"

definition verify_and_ratchet_inner ::
    "'p signable crypto \<Rightarrow> waypoint_hash \<Rightarrow> trusted_state \<Rightarrow> ledger_info_with_signatures
       \<Rightarrow> epoch_change_proof \<Rightarrow> (anyhow_error, trusted_state_change) res" where
  "verify_and_ratchet_inner C HW t latest_li change_proof =
     (let latest = liws_ledger_info latest_li
      in bind (ensure (li_version latest \<ge> trusted_version t)
           (Msg ''The target latest ledger info version is stale'')) (\<lambda>_.
         if trusted_epoch_change_verification_required t (li_next_block_epoch latest)
         then ratchet_epoch C HW t latest_li change_proof
         else ratchet_version C HW t latest_li))"

definition verify_and_ratchet ::
    "'p signable crypto \<Rightarrow> waypoint_hash \<Rightarrow> trusted_state
       \<Rightarrow> ledger_info_with_signatures \<times> epoch_change_proof
       \<Rightarrow> (anyhow_error, trusted_state_change) res" where
  "verify_and_ratchet C HW t state_proof =
     verify_and_ratchet_inner C HW t (fst state_proof) (snd state_proof)"

fun change_new_state :: "trusted_state_change \<Rightarrow> trusted_state option" where
  "change_new_state (ChangeVersion t) = Some t"
| "change_new_state (ChangeEpoch t l) = Some t"
| "change_new_state NoChange = None"

section \<open>Chains of trust\<close>

text \<open>A ledger info that ends an epoch vouches for those its next validator set signs.\<close>

definition epoch_link ::
    "'p signable crypto \<Rightarrow> ledger_info_with_signatures \<Rightarrow> ledger_info_with_signatures \<Rightarrow> bool" where
  "epoch_link C l l' \<longleftrightarrow>
     (\<exists>es. li_next_epoch_state (liws_ledger_info l) = Some es \<and>
        li_epoch (liws_ledger_info l') = es_epoch es \<and>
        verify_signatures C l' (es_verifier es) = Ok ())"

inductive trusts ::
    "'p signable crypto \<Rightarrow> waypoint_hash \<Rightarrow> dyn_verifier \<Rightarrow> ledger_info_with_signatures \<Rightarrow> bool"
  for C HW v where
  verified: "dyn_verify C HW v l = Ok () \<Longrightarrow> trusts C HW v l"
| linked: "trusts C HW v l \<Longrightarrow> epoch_link C l l' \<Longrightarrow> trusts C HW v l'"

lemma ecp_step_Ok:
  "ecp_step C HW v l = Ok v' \<longleftrightarrow>
     dyn_verify C HW v l = Ok () \<and>
     (\<exists>es. li_next_epoch_state (liws_ledger_info l) = Some es \<and> v' = EpochStateVerifier es)"
  by (auto simp: ecp_step_def res_simps)

lemma ecp_fold_Ok:
  assumes "try_fold (ecp_step C HW) v ls = Ok v'" "ls \<noteq> []"
  shows "dyn_verify C HW v (hd ls) = Ok () \<and> successively (epoch_link C) ls \<and>
    list_all (\<lambda>l. li_ends_epoch (liws_ledger_info l)) ls"
  using assms
proof (induction ls arbitrary: v)
  case (Cons l ls)
  then obtain es where step: "dyn_verify C HW v l = Ok ()"
    "li_next_epoch_state (liws_ledger_info l) = Some es"
    and rest: "try_fold (ecp_step C HW) (EpochStateVerifier es) ls = Ok v'"
    by (auto simp: bind_Ok ecp_step_Ok)
  show ?case
  proof (cases ls)
    case (Cons l' ls')
    with Cons.IH [OF rest] have "es_verify C es l' = Ok ()" "successively (epoch_link C) ls"
      "list_all (\<lambda>l. li_ends_epoch (liws_ledger_info l)) ls" by auto
    with step Cons show ?thesis by (auto simp: es_verify_Ok epoch_link_def li_ends_epoch_def)
  qed (use step in \<open>simp add: li_ends_epoch_def\<close>)
qed simp

lemma trusts_successively:
  assumes "trusts C HW v (hd ls)" "successively (epoch_link C) ls" "l \<in> set ls"
  shows "trusts C HW v l"
  using assms
proof (induction ls rule: induct_list012)
  case (3 x y zs)
  then show ?case by (auto intro: trusts.linked)
qed auto

lemma last_dropWhile_not:
  assumes "xs \<noteq> []" "\<not> P (last xs)"
  shows "dropWhile P xs \<noteq> [] \<and> last (dropWhile P xs) = last xs"
  using assms by (induction xs) auto

lemma ecp_verify_Ok:
  "ecp_verify C HW p v = Ok l \<longleftrightarrow>
     ecp_ledger_info_with_sigs p \<noteq> [] \<and>
     \<not> dyn_is_ledger_info_stale v (liws_ledger_info (last (ecp_ledger_info_with_sigs p))) \<and>
     (\<exists>v'. try_fold (ecp_step C HW) v
        (dropWhile (\<lambda>l. dyn_is_ledger_info_stale v (liws_ledger_info l)) (ecp_ledger_info_with_sigs p)) = Ok v') \<and>
     l = last (ecp_ledger_info_with_sigs p)"
  unfolding ecp_verify_def Let_def bind_Ok ensure_iffs by blast

lemma ecp_verify_chain:
  assumes "ecp_verify C HW p v = Ok l"
  obtains ls where "suffix ls (ecp_ledger_info_with_sigs p)" "ls \<noteq> []" "last ls = l"
    "dyn_verify C HW v (hd ls) = Ok ()" "successively (epoch_link C) ls"
    "list_all (\<lambda>l. li_ends_epoch (liws_ledger_info l)) ls"
proof -
  let ?stale = "\<lambda>l. dyn_is_ledger_info_stale v (liws_ledger_info l)"
  let ?all = "ecp_ledger_info_with_sigs p"
  let ?ls = "dropWhile ?stale ?all"
  obtain v' where v': "?all \<noteq> []" "\<not> ?stale (last ?all)" "l = last ?all"
    "try_fold (ecp_step C HW) v ?ls = Ok v'"
    using ecp_verify_Ok [THEN iffD1, OF assms] by blast
  have ls: "?ls \<noteq> []" "last ?ls = l"
    using last_dropWhile_not [of ?all ?stale] v'(1-3) by auto
  note ok = ecp_fold_Ok [OF v'(4) ls(1)]
  show ?thesis by (rule that [of ?ls]) (use ok ls in \<open>auto simp: suffix_dropWhile\<close>)
qed

lemma ecp_verify_trusts:
  assumes "ecp_verify C HW p v = Ok l"
  shows "trusts C HW v l"
  using assms by (rule ecp_verify_chain) (metis trusts.verified trusts_successively last_in_set)

lemma ratchet_version_sound:
  assumes "ratchet_version C HW t latest = Ok c" "change_new_state c = Some t'"
    "trusted_version t \<le> li_version (liws_ledger_info latest)"
  shows "\<exists>w es. t = EpochState w es \<and> c = ChangeVersion t' \<and>
    t' = EpochState (waypoint_new_any HW (liws_ledger_info latest)) es \<and>
    dyn_verify C HW (TrustedStateVerifier t) latest = Ok () \<and> trusted_version t < trusted_version t'"
  using assms
  by (cases t) (auto simp: Let_def bind_Ok ensure_iffs trusted_version_def waypoint_new_any_def
    split: if_splits)

lemma ratchet_epoch_sound:
  assumes "ratchet_epoch C HW t latest p = Ok c"
  obtains l0 l es where "trusts C HW (TrustedStateVerifier t) l0"
    "li_next_epoch_state (liws_ledger_info l0) = Some es"
    "trusts C HW (TrustedStateVerifier t) l" "l = latest \<or> ecp_more p"
    "c = ChangeEpoch (EpochState (waypoint_new_any HW (liws_ledger_info l)) es) l0"
proof -
  obtain l0 es l where *: "ecp_verify C HW p (TrustedStateVerifier t) = Ok l0"
    "li_next_epoch_state (liws_ledger_info l0) = Some es"
    "verified_ledger_info C latest p l0 es = Ok l"
    "c = ChangeEpoch (EpochState (waypoint_new_any HW (liws_ledger_info l)) es) l0"
    using assms unfolding ratchet_epoch_def bind_Ok ok_or_iffs by blast
  note t0 = ecp_verify_trusts [OF *(1)]
  have "l = l0 \<or> (l = latest \<and> es_verify C es latest = Ok ())"
    using *(3) by (auto simp: verified_ledger_info_def bind_Ok split: if_splits)
  then have "trusts C HW (TrustedStateVerifier t) l"
    using t0 *(2) by (auto simp: es_verify_Ok epoch_link_def intro: trusts.linked)
  moreover have "l = latest \<or> ecp_more p"
    using *(3) by (auto simp: verified_ledger_info_def bind_Ok split: if_splits)
  ultimately show thesis using that t0 * by blast
qed

section \<open>Strings\<close>

lemma char_digit_digit_char: "d < 10 \<Longrightarrow> char_digit (digit_char d) = Some d"
  by (auto simp: char_digit_def Let_def)

lemma parse_digits_append:
  "parse_digits acc (xs @ ys) =
     (case parse_digits acc xs of None \<Rightarrow> None | Some a \<Rightarrow> parse_digits a ys)"
  by (induction xs arbitrary: acc) (auto split: option.splits)

lemma parse_decimal: "n < 2 ^ 64 \<Longrightarrow> parse_digits 0 (decimal n) = Some n"
proof (induction n rule: decimal.induct)
  case (1 n)
  show ?case
  proof (cases "n < 10")
    case True
    then show ?thesis by (simp add: decimal.simps char_digit_digit_char del: digit_char.simps)
  next
    case False
    have "n div 10 < 2 ^ 64" using 1(2) by linarith
    with 1(1) False have "parse_digits 0 (decimal (n div 10)) = Some (n div 10)" by simp
    moreover have "n div 10 * 10 + n mod 10 = n" by simp
    ultimately show ?thesis
      using False 1(2)
      by (subst decimal.simps) (simp add: parse_digits_append char_digit_digit_char del: digit_char.simps)
  qed
qed

lemma decimal_chars: "c \<in> set (decimal n) \<Longrightarrow> \<exists>d < 10. c = digit_char d"
proof (induction n rule: decimal.induct)
  case (1 n)
  show ?case
  proof (cases "n < 10")
    case True
    then show ?thesis using 1(2) by (auto simp: decimal.simps)
  next
    case False
    then have "c \<in> set (decimal (n div 10)) \<or> c = digit_char (n mod 10)"
      using 1(2) by (subst (asm) decimal.simps) (auto simp del: digit_char.simps)
    moreover have "n mod 10 < 10" by simp
    ultimately show ?thesis using 1(1) False by blast
  qed
qed

lemma decimal_nonempty: "decimal n \<noteq> []"
  by (subst decimal.simps) simp

lemma of_char_small: "n < 256 \<Longrightarrow> (of_char (char_of n) :: nat) = n"
  by simp

lemma decimal_plain: "c \<in> set (decimal n) \<Longrightarrow> c \<noteq> CHR '':'' \<and> c \<noteq> CHR ''+''"
proof -
  assume "c \<in> set (decimal n)"
  then obtain d where "d < 10" "c = digit_char d" using decimal_chars by blast
  then have "(of_char c :: nat) = 48 + d" by simp
  moreover have "(of_char (CHR '':'') :: nat) = 58" "(of_char (CHR ''+'') :: nat) = 43" by code_simp+
  ultimately show ?thesis using \<open>d < 10\<close> by auto
qed

lemma parse_u64_decimal: "parse_u64 (decimal (unat w)) = Some w"
proof -
  have "unat w < 2 ^ 64" using unsigned_less [of w, where ?'a = nat] by simp
  note p = parse_decimal [OF this]
  obtain c cs where "decimal (unat w) = c # cs" using decimal_nonempty by (metis list.exhaust)
  moreover have "c \<noteq> CHR ''+''" using decimal_plain [of c "unat w"] calculation by simp
  ultimately show ?thesis using p by (simp add: parse_u64_def)
qed

lemma hex_char_plain: "d < 16 \<Longrightarrow> hex_char d \<noteq> CHR '':''"
proof -
  assume "d < 16"
  then have "(of_char (hex_char d) :: nat) = (if d < 10 then 48 + d else 87 + d)"
    by (simp add: hex_char_def)
  moreover have "(of_char (CHR '':'') :: nat) = 58" by code_simp
  ultimately show ?thesis using \<open>d < 16\<close> by (auto split: if_splits)
qed

lemma hash_to_hex_plain: "CHR '':'' \<notin> set (hash_to_hex h)"
proof -
  have "hex_char (unat (b :: u8) div 16) \<noteq> CHR '':''" "hex_char (unat b mod 16) \<noteq> CHR '':''" for b
    using unsigned_less [of b, where ?'a = nat] by (auto intro!: hex_char_plain)
  then show ?thesis by (auto simp: hash_to_hex_def eq_commute [of "CHR '':''"])
qed

lemma split_on_plain: "d \<notin> set xs \<Longrightarrow> split_on d xs = [xs]"
  by (induction xs) auto

lemma split_on_append: "d \<notin> set xs \<Longrightarrow> split_on d (xs @ d # ys) = xs # split_on d ys"
  by (induction xs) auto

lemma word_bytes_step:
  "drop_bit (8 + n) (h :: hash_value) * 256 + ucast (ucast (drop_bit n h) :: u8) = drop_bit n h"
proof -
  have "drop_bit (8 + n) h * 256 = push_bit 8 (drop_bit 8 (drop_bit n h))"
    by (simp add: push_bit_eq_mult ac_simps)
  moreover have "ucast (ucast (drop_bit n h) :: u8) = take_bit 8 (drop_bit n h)"
    by (rule bit_word_eqI) (auto simp: bit_simps)
  ultimately show ?thesis by (simp only: bits_ident)
qed

lemma bytes_hash_prefix:
  "k \<le> 32 \<Longrightarrow> foldl (\<lambda>acc b. acc * 256 + ucast b) (0 :: hash_value)
      (map (\<lambda>i. ucast (drop_bit (8 * (31 - i)) h) :: u8) [0..<k]) = drop_bit (8 * (32 - k)) h"
proof (induction k)
  case 0
  have "drop_bit 256 h = 0" by (rule bit_word_eqI) (auto simp: bit_drop_bit_eq dest: bit_imp_le_length)
  then show ?case by simp
next
  case (Suc k)
  then have "8 * (32 - k) = 8 + 8 * (31 - k)" by simp
  with Suc word_bytes_step [of "8 * (31 - k)" h] show ?case by simp
qed

lemma length_hash_bytes: "length (hash_bytes h) = 32"
  by (simp add: hash_bytes_def)

lemma bytes_hash_bytes: "bytes_hash (hash_bytes h) = h"
  using bytes_hash_prefix [of 32 h] by (simp add: bytes_hash_def hash_bytes_def)

text \<open>What the parser relies on of \<^verbatim>\<open>hex::decode\<close>, and a decoder that provides it.\<close>

definition hex_decodes :: "hex_decoder \<Rightarrow> bool" where
  "hex_decodes decode \<longleftrightarrow>
     (\<forall>bs :: u8 list. decode (concat (map (\<lambda>b. [hex_char (unat b div 16), hex_char (unat b mod 16)]) bs)) =
        Some bs)"

definition hex_digit :: "char \<Rightarrow> nat" where
  "hex_digit c = (let n = of_char c in if n < 58 then n - 48 else n - 87)"

fun sample_decode :: hex_decoder where
  "sample_decode (a # b # cs) =
     map_option ((#) (word_of_nat (16 * hex_digit a + hex_digit b))) (sample_decode cs)"
| "sample_decode [] = Some []"
| "sample_decode [_] = None"

lemma hex_digit_char: "d < 16 \<Longrightarrow> hex_digit (hex_char d) = d"
  by (simp add: hex_digit_def hex_char_def Let_def)

lemma sample_decode_decodes: "hex_decodes sample_decode"
proof -
  have "word_of_nat (16 * hex_digit (hex_char (unat b div 16)) + hex_digit (hex_char (unat b mod 16))) = b"
    for b :: u8
    using unsigned_less [of b, where ?'a = nat] by (simp add: hex_digit_char)
  then have "sample_decode (concat (map (\<lambda>b. [hex_char (unat b div 16), hex_char (unat b mod 16)]) bs)) =
      Some bs" for bs :: "u8 list"
    by (induction bs) auto
  then show ?thesis by (simp add: hex_decodes_def)
qed

text \<open>Two signed epoch changes and a ledger info of the epoch they lead to.\<close>

definition sample_epoch_li :: "nat \<Rightarrow> bool \<Rightarrow> ledger_info_with_signatures" where
  "sample_epoch_li e ends =
     \<lparr>liws_ledger_info =
        \<lparr>li_commit_info = \<lparr>bi_epoch = word_of_nat e, bi_round = 9, bi_id = 11, bi_executed_state_id = 12,
           bi_version = word_of_nat (10 * e), bi_timestamp_usecs = 13,
           bi_next_epoch_state =
             (if ends then Some \<lparr>es_epoch = word_of_nat (Suc e), es_verifier = sample_verifier\<rparr> else None)\<rparr>,
         li_consensus_data_hash = 14\<rparr>,
      liws_signatures = \<lparr>validator_bitmask = \<lparr>inner = [0xE0]\<rparr>, agg_sig = Some (Signature [30])\<rparr>\<rparr>"

definition sample_change_proof :: epoch_change_proof where
  "sample_change_proof =
     \<lparr>ecp_ledger_info_with_sigs = [sample_epoch_li 1 True, sample_epoch_li 2 True], ecp_more = False\<rparr>"

definition sample_waypoint_hash :: waypoint_hash where
  "sample_waypoint_hash c = ucast (lwc_version c) + 100"

definition sample_trusted :: trusted_state where
  "sample_trusted = EpochWaypoint (waypoint_new_any sample_waypoint_hash (liws_ledger_info (sample_epoch_li 1 True)))"

section \<open>Properties\<close>

text \<open>
  C7. Soundness of epoch change proofs: when a proof verifies, the ledger info it leads to ends an
  epoch and is the last of a chain of ledger infos of the proof, the first accepted by the given
  verifier and each next one of the epoch, and signed by a quorum of the validator set, that the
  one before it names.
\<close>

theorem epoch_change_proof_sound:
  assumes "ecp_verify C HW p v = Ok l"
  shows "trusts C HW v l \<and> li_ends_epoch (liws_ledger_info l) \<and>
    (\<exists>ls. suffix ls (ecp_ledger_info_with_sigs p) \<and> ls \<noteq> [] \<and> last ls = l \<and>
       dyn_verify C HW v (hd ls) = Ok () \<and> successively (epoch_link C) ls)"
proof -
  obtain ls where ls: "suffix ls (ecp_ledger_info_with_sigs p)" "ls \<noteq> []" "last ls = l"
    "dyn_verify C HW v (hd ls) = Ok ()" "successively (epoch_link C) ls"
    "list_all (\<lambda>l. li_ends_epoch (liws_ledger_info l)) ls"
    using ecp_verify_chain [OF assms] by blast
  then have "li_ends_epoch (liws_ledger_info l)" by (metis last_in_set list_all_iff)
  with ls ecp_verify_trusts [OF assms] show ?thesis by blast
qed

theorem epoch_change_proof_sound_witness:
  "trusts (linear_crypto (\<lambda>_ :: unit signable. 5)) sample_waypoint_hash (TrustedStateVerifier sample_trusted)
     (sample_epoch_li 2 True)"
proof -
  have "ecp_verify (linear_crypto (\<lambda>_ :: unit signable. 5)) sample_waypoint_hash sample_change_proof
      (TrustedStateVerifier sample_trusted) = Ok (sample_epoch_li 2 True)" by code_simp
  from epoch_change_proof_sound [OF this] show ?thesis by blast
qed

text \<open>
  C6. Ratcheting only follows the chain of trust: a new trusted state holds the waypoint of a ledger
  info reached from the old state by links of epoch changes, and the epoch state is the old one or
  the one such a ledger info names. Within an epoch the version strictly grows; across epochs it
  does not shrink unless the proof is marked as having more epochs to come.
\<close>

theorem ratchet_sound:
  assumes "verify_and_ratchet C HW t (latest, p) = Ok c" "change_new_state c = Some t'"
  shows "\<exists>l es. t' = EpochState (waypoint_new_any HW (liws_ledger_info l)) es \<and>
    trusts C HW (TrustedStateVerifier t) l \<and>
    ((c = ChangeVersion t' \<and> (\<exists>w. t = EpochState w es) \<and> trusted_version t < trusted_version t') \<or>
     (\<exists>l0. c = ChangeEpoch t' l0 \<and> trusts C HW (TrustedStateVerifier t) l0 \<and>
        li_next_epoch_state (liws_ledger_info l0) = Some es \<and>
        (trusted_version t \<le> trusted_version t' \<or> ecp_more p)))"
proof -
  have stale: "trusted_version t \<le> li_version (liws_ledger_info latest)"
    and branch: "ratchet_epoch C HW t latest p = Ok c \<or> ratchet_version C HW t latest = Ok c"
    using assms(1) by (auto simp: verify_and_ratchet_def verify_and_ratchet_inner_def Let_def bind_Ok
      ensure_iffs split: if_splits)
  from branch show ?thesis
  proof
    assume "ratchet_epoch C HW t latest p = Ok c"
    then obtain l0 l es where l: "trusts C HW (TrustedStateVerifier t) l0"
      "li_next_epoch_state (liws_ledger_info l0) = Some es"
      "trusts C HW (TrustedStateVerifier t) l" "l = latest \<or> ecp_more p"
      "c = ChangeEpoch (EpochState (waypoint_new_any HW (liws_ledger_info l)) es) l0"
      by (rule ratchet_epoch_sound)
    with assms(2) stale show ?thesis
      by (intro exI [of _ l] exI [of _ es])
        (auto simp: trusted_version_def waypoint_new_any_def)
  next
    assume "ratchet_version C HW t latest = Ok c"
    from ratchet_version_sound [OF this assms(2) stale] show ?thesis
      by (blast intro: trusts.verified)
  qed
qed

theorem ratchet_sound_witness:
  "\<exists>c t'. verify_and_ratchet (linear_crypto (\<lambda>_ :: unit signable. 5)) sample_waypoint_hash sample_trusted
       (sample_epoch_li 3 False, sample_change_proof) = Ok c \<and>
     change_new_state c = Some t' \<and> trusted_version t' = 30 \<and>
     (\<exists>(l :: ledger_info_with_signatures) es. t' = EpochState (waypoint_new_any sample_waypoint_hash (liws_ledger_info l)) es)"
proof -
  let ?run = "verify_and_ratchet (linear_crypto (\<lambda>_ :: unit signable. 5)) sample_waypoint_hash sample_trusted
    (sample_epoch_li 3 False, sample_change_proof)"
  have "case ?run of Ok c \<Rightarrow> map_option trusted_version (change_new_state c) = Some 30 | _ \<Rightarrow> False"
    by code_simp
  then obtain c t' where ok: "?run = Ok c" "change_new_state c = Some t'" and v: "trusted_version t' = 30"
    by (auto split: res.splits)
  from ratchet_sound [OF ok] obtain l :: ledger_info_with_signatures and es
    where "t' = EpochState (waypoint_new_any sample_waypoint_hash (liws_ledger_info l)) es" by blast
  with ok v show ?thesis by blast
qed

text \<open>
  C40. The text form of a waypoint is parsed back to it, for every decoder that inverts the
  lower-case hexadecimal notation of bytes.
\<close>

theorem waypoint_string_roundtrip:
  assumes "hex_decodes decode"
  shows "waypoint_from_str decode (waypoint_to_string w) = Ok w"
proof -
  let ?d = "decimal (unat (wp_version w))"
  have "WAYPOINT_DELIMITER \<notin> set ?d" "WAYPOINT_DELIMITER \<notin> set (hash_to_hex (wp_value w))"
    using decimal_plain hash_to_hex_plain by (auto simp: WAYPOINT_DELIMITER_def)
  then have "split_on WAYPOINT_DELIMITER (waypoint_to_string w) = [?d, hash_to_hex (wp_value w)]"
    by (simp add: waypoint_to_string_def split_on_append split_on_plain)
  moreover have "hash_from_hex decode (hash_to_hex (wp_value w)) = Ok (wp_value w)"
    using assms
    by (simp add: hash_from_hex_def hash_to_hex_def hex_decodes_def bytes_hash_bytes length_hash_bytes)
  ultimately show ?thesis by (simp add: waypoint_from_str_def parse_u64_decimal ok_or_def)
qed

theorem waypoint_string_roundtrip_witness:
  "waypoint_from_str sample_decode (waypoint_to_string \<lparr>wp_version = 42, wp_value = 0xABC\<rparr>) =
     Ok \<lparr>wp_version = 42, wp_value = 0xABC\<rparr>"
  by (rule waypoint_string_roundtrip [OF sample_decode_decodes])

end
