(* ===== verification/Safety_Storage.thy ===== *)
theory Safety_Storage
  imports Votes Epoch_Change
begin

text \<open>
  What a validator keeps on disk so that it never contradicts itself:
  \<^verbatim>\<open>consensus/safety-rules/src/persistent_safety_storage.rs\<close> over the key-value store of
  \<^verbatim>\<open>secure/storage\<close>, with \<^verbatim>\<open>consensus/consensus-types/src/safety_data.rs\<close> and the errors of
  \<^verbatim>\<open>consensus/safety-rules/src/error.rs\<close>. The store is the map of \<^verbatim>\<open>InMemoryStorage\<close> together with the
  failures its backend reports for each key; a write that reports a failure may have taken effect.
  The locale \<open>safety_store\<close> states what the safety rules rely on: a successful read returns the durable
  value, and the cache never differs from it.
\<close>

section \<open>Errors\<close>

datatype storage_error =
    StorageEntropyError
  | StorageInternalError
  | KeyAlreadyExists string
  | KeyNotSet string
  | PermissionDenied
  | StorageSerializationError
  | KeyVersionNotFound string

datatype sr_error =
    IncorrectEpoch u64 u64
  | IncorrectRound u64
  | IncorrectLastVotedRound u64 u64
  | IncorrectPreferredRound u64 u64
  | InvalidAccumulatorExtension anyhow_error
  | InvalidEpochChangeProof anyhow_error
  | InternalError anyhow_error
  | InvalidLedgerInfo
  | InvalidProposal anyhow_error
  | InvalidQuorumCertificate anyhow_error
  | NotInitialized string
  | NotSafeForOrderVote u64 u64
  | SecureStorageMissingDataError
  | SecureStorageUnexpectedError
  | SerializationError anyhow_error
  | ValidatorKeyNotFound
  | ValidatorNotInSet account_address
  | VoteProposalSignatureNotFound
  | NotSafeToVote u64 u64 u64 u64
  | NotSafeToTimeout u64 u64 u64 u64
  | InvalidTimeoutCertificate anyhow_error
  | InconsistentExecutionResult block_info block_info
  | InvalidOrderedLedgerInfo ledger_info
  | WaypointOutOfDate u64 u64 u64 u64
  | InvalidTimeout anyhow_error
  | InvalidOneChainQuorumCertificate hash_value hash_value

text \<open>
  \<^verbatim>\<open>impl From<creditchain_secure_storage::Error> for Error\<close>, applied by \<^verbatim>\<open>?\<close>; a missing permission
  panics.
\<close>

fun storage_try :: "(storage_error, 'a) res \<Rightarrow> (sr_error, 'a) res" where
  "storage_try (Ok a) = Ok a"
| "storage_try (Err e) =
     (case e of
        PermissionDenied \<Rightarrow> Panic
      | KeyVersionNotFound _ \<Rightarrow> Err SecureStorageMissingDataError
      | KeyNotSet _ \<Rightarrow> Err SecureStorageMissingDataError
      | _ \<Rightarrow> Err SecureStorageUnexpectedError)"
| "storage_try Panic = Panic"

section \<open>Safety data and the key-value store\<close>

record safety_data =
  sd_epoch :: u64
  sd_last_voted_round :: round
  sd_preferred_round :: round
  sd_one_chain_round :: round
  sd_last_vote :: "vote option"
  sd_highest_timeout_round :: round

definition safety_data_new ::
    "u64 \<Rightarrow> round \<Rightarrow> round \<Rightarrow> round \<Rightarrow> vote option \<Rightarrow> round \<Rightarrow> safety_data" where
  "safety_data_new e voted preferred one_chain vote highest_timeout =
     \<lparr>sd_epoch = e, sd_last_voted_round = voted, sd_preferred_round = preferred,
      sd_one_chain_round = one_chain, sd_last_vote = vote, sd_highest_timeout_round = highest_timeout\<rparr>"

definition CONSENSUS_KEY :: string where "CONSENSUS_KEY = ''consensus''"
definition OWNER_ACCOUNT :: string where "OWNER_ACCOUNT = ''owner_account''"
definition SAFETY_DATA :: string where "SAFETY_DATA = ''safety_data''"
definition WAYPOINT :: string where "WAYPOINT = ''waypoint''"

datatype stored_value =
    VSafetyData safety_data
  | VAuthor author
  | VPrivateKey private_key
  | VWaypoint waypoint

record kv_storage =
  kv_data :: "string \<Rightarrow> stored_value option"
  kv_get_fault :: "string \<Rightarrow> storage_error option"
  kv_set_fault :: "string \<Rightarrow> (storage_error \<times> bool) option"

definition kv_get :: "kv_storage \<Rightarrow> string \<Rightarrow> (storage_error, stored_value) res" where
  "kv_get s key =
     (case kv_get_fault s key of
        Some e \<Rightarrow> Err e
      | None \<Rightarrow> ok_or (KeyNotSet key) (kv_data s key))"

definition kv_set :: "string \<Rightarrow> stored_value \<Rightarrow> (kv_storage, storage_error, unit) method_res" where
  "kv_set key v s =
     (let s' = s\<lparr>kv_data := (kv_data s)(key \<mapsto> v)\<rparr>
      in case kv_set_fault s key of
           None \<Rightarrow> (Ok (), s')
         | Some (e, took_effect) \<Rightarrow> (Err e, if took_effect then s' else s))"

text \<open>Reading a value at a type is deserialising it; a value of another type is refused.\<close>

fun as_safety_data :: "stored_value \<Rightarrow> (storage_error, safety_data) res" where
  "as_safety_data (VSafetyData d) = Ok d"
| "as_safety_data _ = Err StorageSerializationError"

fun as_author :: "stored_value \<Rightarrow> (storage_error, author) res" where
  "as_author (VAuthor a) = Ok a"
| "as_author _ = Err StorageSerializationError"

fun as_private_key :: "stored_value \<Rightarrow> (storage_error, private_key) res" where
  "as_private_key (VPrivateKey k) = Ok k"
| "as_private_key _ = Err StorageSerializationError"

fun as_waypoint :: "stored_value \<Rightarrow> (storage_error, waypoint) res" where
  "as_waypoint (VWaypoint w) = Ok w"
| "as_waypoint _ = Err StorageSerializationError"

text \<open>
  A value read at the type \<^verbatim>\<open>Result<SafetyData, Error>\<close>: nothing that is ever stored has this type.
\<close>

fun as_safety_data_result ::
    "stored_value \<Rightarrow> (storage_error, (sr_error, safety_data) res) res" where
  "as_safety_data_result (VSafetyData _) = Err StorageSerializationError"
| "as_safety_data_result (VAuthor _) = Err StorageSerializationError"
| "as_safety_data_result (VPrivateKey _) = Err StorageSerializationError"
| "as_safety_data_result (VWaypoint _) = Err StorageSerializationError"

section \<open>Persistent safety storage\<close>

record persistent_safety_storage =
  enable_cached_safety_data :: bool
  cached_safety_data :: "safety_data option"
  internal_store :: kv_storage

definition pss_new :: "kv_storage \<Rightarrow> bool \<Rightarrow> persistent_safety_storage" where
  "pss_new store enable_cached =
     \<lparr>enable_cached_safety_data = enable_cached, cached_safety_data = None, internal_store = store\<rparr>"

definition pss_author :: "persistent_safety_storage \<Rightarrow> (sr_error, author) res" where
  "pss_author p = storage_try (bind (kv_get (internal_store p) OWNER_ACCOUNT) as_author)"

definition default_consensus_sk :: "persistent_safety_storage \<Rightarrow> (storage_error, private_key) res" where
  "default_consensus_sk p = bind (kv_get (internal_store p) CONSENSUS_KEY) as_private_key"

text \<open>\<^verbatim>\<open>hex::encode\<close> is the argument \<open>encode\<close>.\<close>

fun pk_bytes :: "public_key \<Rightarrow> u8 list" where
  "pk_bytes (PublicKey bs) = bs"

definition consensus_sk_by_pk ::
    "'m crypto \<Rightarrow> (u8 list \<Rightarrow> string) \<Rightarrow> persistent_safety_storage \<Rightarrow> public_key
       \<Rightarrow> (sr_error, private_key) res" where
  "consensus_sk_by_pk C encode p pk =
     (let explicit_storage_key = CONSENSUS_KEY @ ''_'' @ encode (pk_bytes pk);
          explicit_sk = bind (kv_get (internal_store p) explicit_storage_key) as_private_key;
          default_sk = default_consensus_sk p
      in bind (case (explicit_sk, default_sk) of
                 (Ok sk_0, _) \<Rightarrow> Ok sk_0
               | (Err _, Ok sk_1) \<Rightarrow> Ok sk_1
               | (Err _, Err _) \<Rightarrow> Err ValidatorKeyNotFound
               | _ \<Rightarrow> Panic)
           (\<lambda>key. if bls_public_key C key \<noteq> pk then Err SecureStorageMissingDataError else Ok key))"

definition pss_safety_data :: "(persistent_safety_storage, sr_error, safety_data) method_res" where
  "pss_safety_data p =
     (if \<not> enable_cached_safety_data p then
        (bind (storage_try (bind (kv_get (internal_store p) SAFETY_DATA) as_safety_data_result)) (\<lambda>r. r), p)
      else
        case cached_safety_data p of
          Some d \<Rightarrow> (Ok d, p)
        | None \<Rightarrow>
            m_bind (m_read (\<lambda>p. storage_try (bind (kv_get (internal_store p) SAFETY_DATA) as_safety_data))) (\<lambda>d.
            m_bind (m_modify (\<lambda>p. p\<lparr>cached_safety_data := Some d\<rparr>)) (\<lambda>_.
              m_return d)) p)"

definition set_safety_data :: "safety_data \<Rightarrow> (persistent_safety_storage, sr_error, unit) method_res" where
  "set_safety_data d p =
     (case kv_set SAFETY_DATA (VSafetyData d) (internal_store p) of
        (Ok _, s) \<Rightarrow> (Ok (), p\<lparr>internal_store := s, cached_safety_data := Some d\<rparr>)
      | (Err _, s) \<Rightarrow>
          (Err SecureStorageUnexpectedError, p\<lparr>internal_store := s, cached_safety_data := None\<rparr>)
      | (Panic, s) \<Rightarrow> (Panic, p\<lparr>internal_store := s\<rparr>))"

definition pss_waypoint :: "persistent_safety_storage \<Rightarrow> (sr_error, waypoint) res" where
  "pss_waypoint p = storage_try (bind (kv_get (internal_store p) WAYPOINT) as_waypoint)"

definition set_waypoint :: "waypoint \<Rightarrow> (persistent_safety_storage, sr_error, unit) method_res" where
  "set_waypoint w p =
     (let (r, s) = kv_set WAYPOINT (VWaypoint w) (internal_store p)
      in (storage_try r, p\<lparr>internal_store := s\<rparr>))"

text \<open>
  The result of storing the consensus key is looked at for \<^verbatim>\<open>KeyAlreadyExists\<close> only; another error is
  dropped.
\<close>

definition initialize_keys_and_accounts ::
    "author \<Rightarrow> private_key \<Rightarrow> (kv_storage, sr_error, unit) method_res" where
  "initialize_keys_and_accounts a consensus_private_key s =
     (case kv_set CONSENSUS_KEY (VPrivateKey consensus_private_key) s of
        (Err (KeyAlreadyExists _), s') \<Rightarrow> (Ok (), s')
      | (_, s') \<Rightarrow>
          (let (r, s'') = kv_set OWNER_ACCOUNT (VAuthor a) s' in (storage_try r, s'')))"

text \<open>The constructor panics through \<^verbatim>\<open>expect\<close> on every error.\<close>

definition pss_initialize ::
    "kv_storage \<Rightarrow> author \<Rightarrow> private_key \<Rightarrow> waypoint \<Rightarrow> bool
       \<Rightarrow> ('e, persistent_safety_storage) res" where
  "pss_initialize store a consensus_private_key w enable_cached =
     (case initialize_keys_and_accounts a consensus_private_key store of
        (Ok _, store') \<Rightarrow>
          let d = safety_data_new 1 0 0 0 None 0;
              p = \<lparr>enable_cached_safety_data = enable_cached, cached_safety_data = Some d,
                   internal_store = store'\<rparr>
          in (case set_safety_data d p of
                (Ok _, p') \<Rightarrow>
                  (case set_waypoint w p' of (Ok _, p'') \<Rightarrow> Ok p'' | _ \<Rightarrow> Panic)
              | _ \<Rightarrow> Panic)
      | _ \<Rightarrow> Panic)"

section \<open>The contract of the storage\<close>

text \<open>
  A store of one value behind a cache. \<open>durable\<close> is the value on disk, \<open>coherent\<close> says that a cached
  value is that value, and \<open>frame\<close> that the rest of the state is unchanged. A read that succeeds once
  keeps succeeding; a write that fails leaves the old value or the new one.
\<close>

locale safety_store =
  fixes get :: "('s, 'e, 'd) method_res"
    and put :: "'d \<Rightarrow> ('s, 'e, unit) method_res"
    and durable :: "'s \<Rightarrow> 'd option"
    and coherent :: "'s \<Rightarrow> bool"
    and frame :: "'s \<Rightarrow> 's \<Rightarrow> bool"
  assumes get_Ok: "get s = (Ok d, s') \<Longrightarrow> coherent s \<Longrightarrow> durable s = Some d"
    and get_state: "get s = (r, s') \<Longrightarrow> durable s' = durable s \<and> frame s s'"
    and get_coherent: "get s = (r, s') \<Longrightarrow> coherent s \<Longrightarrow> coherent s'"
    and get_again: "get s = (Ok d, s') \<Longrightarrow> get s' = (Ok d, s')"
    and put_Ok: "put d s = (Ok u, s') \<Longrightarrow> durable s' = Some d"
    and put_state: "put d s = (w, s') \<Longrightarrow> (durable s' = durable s \<or> durable s' = Some d) \<and> frame s s'"
    and put_coherent: "put d s = (w, s') \<Longrightarrow> coherent s'"
    and frame_refl: "frame s s"
    and frame_trans: "frame s s' \<Longrightarrow> frame s' s'' \<Longrightarrow> frame s s''"
begin

text \<open>
  A method that reads the value, computes a new one without touching the store, writes it and then
  finishes without touching the store.
\<close>

lemma read_modify_write:
  assumes "m_bind get (\<lambda>d. m_bind (m_read (f d)) (\<lambda>x. m_bind (put (new x)) (\<lambda>_. m_read (g x)))) s = (r, s')"
    and "coherent s"
  shows "coherent s' \<and> frame s s' \<and>
    (durable s' = durable s \<and> \<not> is_ok r \<or>
     (\<exists>d s1 x. durable s = Some d \<and> frame s s1 \<and> f d s1 = Ok x \<and> durable s' = Some (new x) \<and>
        (is_ok r \<longrightarrow> r = g x s')))"
proof -
  obtain r1 s1 where g: "get s = (r1, s1)" by fastforce
  note st1 = get_state [OF g] get_coherent [OF g assms(2)]
  show ?thesis
  proof (cases r1)
    case (Ok d)
    with g have g: "get s = (Ok d, s1)" by simp
    note durable = get_Ok [OF g assms(2)]
    show ?thesis
    proof (cases "f d s1")
      case fd: (Ok x)
      obtain r2 s2 where p: "put (new x) s1 = (r2, s2)" by fastforce
      note st2 = put_state [OF p] put_coherent [OF p]
      have fr: "frame s s2" using st1 st2 frame_trans by blast
      show ?thesis
      proof (cases r2)
        case (Ok u)
        have "s' = s2" "r = g x s2"
          using assms(1) g fd p Ok by (auto simp: m_bind_def m_read_def)
        with st1 st2 put_Ok [OF p [unfolded Ok]] durable fd fr show ?thesis by auto
      next
        case (Err e)
        have "s' = s2" "r = Err e"
          using assms(1) g fd p Err by (auto simp: m_bind_def m_read_def)
        with st1 st2 durable fd fr show ?thesis by auto
      next
        case Panic
        have "s' = s2" "r = Panic"
          using assms(1) g fd p Panic by (auto simp: m_bind_def m_read_def)
        with st1 st2 durable fd fr show ?thesis by auto
      qed
    qed (use assms(1) g st1 in \<open>auto simp: m_bind_def m_read_def\<close>)
  qed (use assms(1) g st1 in \<open>auto simp: m_bind_def m_read_def\<close>)
qed

text \<open>A method that only reads.\<close>

lemma read_only:
  assumes "m_bind get (\<lambda>d. m_read (f d)) s = (r, s')" "coherent s"
  shows "coherent s' \<and> frame s s' \<and> durable s' = durable s \<and>
    (is_ok r \<longrightarrow> (\<exists>d. get s' = (Ok d, s') \<and> durable s = Some d \<and> r = f d s'))"
proof -
  obtain r1 s1 where g: "get s = (r1, s1)" by fastforce
  note st1 = get_state [OF g] get_coherent [OF g assms(2)]
  show ?thesis
  proof (cases r1)
    case (Ok d)
    with g have g: "get s = (Ok d, s1)" by simp
    with assms(1) get_Ok [OF g assms(2)] get_again [OF g] st1 show ?thesis
      by (auto simp: m_bind_def m_read_def)
  qed (use assms(1) g st1 in \<open>auto simp: m_bind_def m_read_def\<close>)
qed

end

definition pss_durable :: "persistent_safety_storage \<Rightarrow> safety_data option" where
  "pss_durable p =
     (case kv_data (internal_store p) SAFETY_DATA of Some (VSafetyData d) \<Rightarrow> Some d | _ \<Rightarrow> None)"

definition pss_coherent :: "persistent_safety_storage \<Rightarrow> bool" where
  "pss_coherent p \<longleftrightarrow>
     (case cached_safety_data p of None \<Rightarrow> True | Some d \<Rightarrow> pss_durable p = Some d)"

definition pss_frame :: "persistent_safety_storage \<Rightarrow> persistent_safety_storage \<Rightarrow> bool" where
  "pss_frame p p' \<longleftrightarrow>
     enable_cached_safety_data p' = enable_cached_safety_data p \<and>
     kv_get_fault (internal_store p') = kv_get_fault (internal_store p) \<and>
     kv_set_fault (internal_store p') = kv_set_fault (internal_store p) \<and>
     (\<forall>key. key \<noteq> SAFETY_DATA \<longrightarrow> kv_data (internal_store p') key = kv_data (internal_store p) key)"

lemma storage_try_Ok [simp]: "storage_try r = Ok a \<longleftrightarrow> r = Ok a"
  by (cases r) (auto split: storage_error.splits)

lemma as_safety_data_Ok [simp]: "as_safety_data v = Ok d \<longleftrightarrow> v = VSafetyData d"
  by (cases v) auto

lemma as_safety_data_result_not_Ok [simp]: "as_safety_data_result v \<noteq> Ok r"
  by (cases v) auto

lemma kv_get_Ok: "kv_get s key = Ok v \<longleftrightarrow> kv_get_fault s key = None \<and> kv_data s key = Some v"
  by (auto simp: kv_get_def ok_or_iffs split: option.splits)

lemma kv_set_cases:
  assumes "kv_set key v s = (r, s')"
  shows "s' = s \<and> (\<exists>e. r = Err e) \<or> s' = s\<lparr>kv_data := (kv_data s)(key \<mapsto> v)\<rparr> \<and> r \<noteq> Panic"
  using assms by (auto simp: kv_set_def Let_def split: option.splits prod.splits if_splits)

lemma kv_set_Ok: "kv_set key v s = (Ok u, s') \<Longrightarrow> s' = s\<lparr>kv_data := (kv_data s)(key \<mapsto> v)\<rparr>"
  by (auto simp: kv_set_def Let_def split: option.splits prod.splits if_splits)

lemma pss_safety_data_cases:
  assumes "pss_safety_data p = (r, p')"
  shows "p' = p \<or> (\<exists>d. r = Ok d \<and> pss_durable p = Some d \<and> p' = p\<lparr>cached_safety_data := Some d\<rparr>)"
  using assms
  by (auto simp: pss_safety_data_def m_bind_def m_read_def m_modify_def m_return_def pss_durable_def
    bind_Ok kv_get_Ok split: if_splits option.splits res.splits prod.splits)

lemma pss_safety_data_Ok:
  assumes "pss_safety_data p = (Ok d, p')"
  shows "enable_cached_safety_data p \<and> cached_safety_data p' = Some d \<and>
    (cached_safety_data p = Some d \<or> pss_durable p = Some d)"
  using assms
  by (auto simp: pss_safety_data_def m_bind_def m_read_def m_modify_def m_return_def pss_durable_def
    bind_Ok kv_get_Ok split: if_splits option.splits res.splits prod.splits)

lemma set_safety_data_cases:
  assumes "set_safety_data d p = (r, p')"
  shows "pss_frame p p'"
    and "r = Ok u \<Longrightarrow> pss_durable p' = Some d"
    and "pss_durable p' = pss_durable p \<or> pss_durable p' = Some d"
    and "pss_coherent p'"
proof -
  obtain r0 s' where k: "kv_set SAFETY_DATA (VSafetyData d) (internal_store p) = (r0, s')" by fastforce
  from kv_set_cases [OF k] assms k
  show "pss_frame p p'" "r = Ok u \<Longrightarrow> pss_durable p' = Some d"
    "pss_durable p' = pss_durable p \<or> pss_durable p' = Some d" "pss_coherent p'"
    by (auto simp: set_safety_data_def pss_frame_def pss_durable_def pss_coherent_def split: res.splits)
qed

interpretation pss: safety_store pss_safety_data set_safety_data pss_durable pss_coherent pss_frame
proof unfold_locales
  fix p p' r d
  assume g: "pss_safety_data p = (r, p')"
  from pss_safety_data_cases [OF g] show "pss_durable p' = pss_durable p \<and> pss_frame p p'"
    by (auto simp: pss_durable_def pss_frame_def)
  from pss_safety_data_cases [OF g] show "pss_coherent p \<Longrightarrow> pss_coherent p'"
    by (auto simp: pss_durable_def pss_coherent_def)
next
  fix p p' d
  assume g: "pss_safety_data p = (Ok d, p')"
  from pss_safety_data_Ok [OF g] show "pss_coherent p \<Longrightarrow> pss_durable p = Some d"
    by (auto simp: pss_coherent_def)
  from pss_safety_data_Ok [OF g] pss_safety_data_cases [OF g] show "pss_safety_data p' = (Ok d, p')"
    by (auto simp: pss_safety_data_def)
qed (use set_safety_data_cases in \<open>auto simp: pss_frame_def\<close>)

section \<open>Properties\<close>

text \<open>
  C9. A write of the safety data is never lost behind the cache: after a write, whatever it reported,
  a read returns the value that a restarted process reads from the store, and this is the new value,
  or the old one when the write reported a failure.
\<close>

theorem safety_data_survives_failures:
  assumes "pss_coherent p" "enable_cached_safety_data p"
    "kv_get_fault (internal_store p) SAFETY_DATA = None" "pss_durable p = Some d0"
    "set_safety_data d p = (w, p')"
  shows "\<exists>d'. fst (pss_safety_data p') = Ok d' \<and>
    fst (pss_safety_data (pss_new (internal_store p') True)) = Ok d' \<and>
    (d' = d \<or> d' = d0 \<and> w \<noteq> Ok ())"
proof -
  note w = set_safety_data_cases [OF assms(5)]
  obtain d' where d': "pss_durable p' = Some d'" "d' = d \<or> d' = d0 \<and> w \<noteq> Ok ()"
    using w(2,3) assms(4) by fastforce
  have fault: "kv_get_fault (internal_store p') SAFETY_DATA = None" "enable_cached_safety_data p'"
    using w(1) assms(2,3) by (auto simp: pss_frame_def)
  have "kv_data (internal_store p') SAFETY_DATA = Some (VSafetyData d')"
    using d'(1) by (auto simp: pss_durable_def split: option.splits stored_value.splits)
  with fault have "kv_get (internal_store p') SAFETY_DATA = Ok (VSafetyData d')" by (simp add: kv_get_Ok)
  with w(4) d' fault show ?thesis
    by (auto simp: pss_safety_data_def pss_new_def pss_coherent_def m_bind_def m_read_def m_modify_def
      m_return_def split: option.splits)
qed

definition sample_store :: kv_storage where
  "sample_store = \<lparr>kv_data = (\<lambda>_. None), kv_get_fault = (\<lambda>_. None), kv_set_fault = (\<lambda>_. None)\<rparr>"

definition sample_safety_data :: safety_data where
  "sample_safety_data = safety_data_new 1 7 5 6 None 7"

definition failing_pss :: persistent_safety_storage where
  "failing_pss =
     \<lparr>enable_cached_safety_data = True, cached_safety_data = Some (safety_data_new 1 0 0 0 None 0),
      internal_store = sample_store
        \<lparr>kv_data := [SAFETY_DATA \<mapsto> VSafetyData (safety_data_new 1 0 0 0 None 0)],
         kv_set_fault := (\<lambda>_. Some (StorageInternalError, False))\<rparr>\<rparr>"

theorem safety_data_survives_failures_witness:
  "\<exists>p'. set_safety_data sample_safety_data failing_pss = (Err SecureStorageUnexpectedError, p') \<and>
     (\<exists>d'. fst (pss_safety_data p') = Ok d' \<and>
        fst (pss_safety_data (pss_new (internal_store p') True)) = Ok d')"
proof -
  let ?d0 = "safety_data_new 1 0 0 0 None 0"
  have pre: "pss_durable failing_pss = Some ?d0" "enable_cached_safety_data failing_pss"
    "pss_coherent failing_pss" "kv_get_fault (internal_store failing_pss) SAFETY_DATA = None"
    by (simp_all add: failing_pss_def sample_store_def pss_durable_def pss_coherent_def)
  obtain p' where w: "set_safety_data sample_safety_data failing_pss = (Err SecureStorageUnexpectedError, p')"
    by (auto simp: set_safety_data_def failing_pss_def kv_set_def sample_store_def)
  from safety_data_survives_failures [OF pre(3,2,4,1) w] w show ?thesis by blast
qed

text \<open>
  With caching disabled the safety data cannot be read back: on a store without failures, a
  storage that was just initialised returns the initial safety data when caching is enabled, and an
  error when it is not, since the uncached path reads the value at the type of the whole result.
\<close>

theorem uncached_safety_data_unreadable:
  assumes "kv_get_fault store = (\<lambda>_. None)" "kv_set_fault store = (\<lambda>_. None)"
  shows "\<exists>p. pss_initialize store a k w cached = (Ok p :: (unit, _) res) \<and>
    fst (pss_safety_data p) =
      (if cached then Ok (safety_data_new 1 0 0 0 None 0) else Err SecureStorageUnexpectedError)"
  using assms
  by (auto simp: pss_initialize_def initialize_keys_and_accounts_def kv_set_def Let_def
    set_safety_data_def set_waypoint_def pss_safety_data_def kv_get_def ok_or_def
    SAFETY_DATA_def WAYPOINT_def)

theorem uncached_safety_data_unreadable_witness:
  "\<exists>p. pss_initialize sample_store 1 (PrivateKey [1]) \<lparr>wp_version = 0, wp_value = 5\<rparr> False =
       (Ok p :: (unit, _) res) \<and>
     fst (pss_safety_data p) = Err SecureStorageUnexpectedError"
proof -
  have "kv_get_fault sample_store = (\<lambda>_. None)" "kv_set_fault sample_store = (\<lambda>_. None)"
    by (simp_all add: sample_store_def)
  from uncached_safety_data_unreadable [OF this, of 1 "PrivateKey [1]" "\<lparr>wp_version = 0, wp_value = 5\<rparr>" False]
  show ?thesis by simp
qed

end
