(* ===== verification/Safety_Rules.thy ===== *)
theory Safety_Rules
  imports Safety_Storage
begin

text \<open>
  The rules that decide what a validator may sign:
  \<^verbatim>\<open>consensus/safety-rules/src/safety_rules.rs\<close> and \<^verbatim>\<open>consensus/safety-rules/src/safety_rules_2chain.rs\<close>,
  with \<^verbatim>\<open>consensus/safety-rules/src/consensus_state.rs\<close>. The methods that take \<^verbatim>\<open>&mut self\<close> pass the
  state, because they read and write the safety data through the storage; those that take \<^verbatim>\<open>&self\<close> are
  functions of it. Logging and counters are left out; whether the trace level is enabled is an
  argument where a traced expression can fail.
\<close>

section \<open>State\<close>

record safety_rules =
  sr_persistent_storage :: persistent_safety_storage
  sr_validator_signer :: "validator_signer option"
  sr_epoch_state :: "epoch_state option"
  sr_skip_sig_verify :: bool

text \<open>The hash functions and encoders of the libraries that the rules use.\<close>

record safety_env =
  se_env :: consensus_env
  se_node_hash :: node_hash
  se_waypoint_hash :: waypoint_hash
  se_hex_encode :: "u8 list \<Rightarrow> string"

type_synonym 'a sr_method = "(safety_rules, sr_error, 'a) method_res"

definition sr_new :: "persistent_safety_storage \<Rightarrow> bool \<Rightarrow> safety_rules" where
  "sr_new storage skip =
     \<lparr>sr_persistent_storage = storage, sr_validator_signer = None, sr_epoch_state = None,
      sr_skip_sig_verify = skip\<rparr>"

text \<open>A method of the field \<^verbatim>\<open>persistent_storage\<close>.\<close>

definition with_storage ::
    "(persistent_safety_storage, sr_error, 'a) method_res \<Rightarrow> 'a sr_method" where
  "with_storage m st =
     (let (r, p) = m (sr_persistent_storage st) in (r, st\<lparr>sr_persistent_storage := p\<rparr>))"

definition sr_safety_data :: "safety_data sr_method" where
  "sr_safety_data = with_storage pss_safety_data"

definition sr_set_safety_data :: "safety_data \<Rightarrow> unit sr_method" where
  "sr_set_safety_data d = with_storage (set_safety_data d)"

definition sr_signer :: "safety_rules \<Rightarrow> (sr_error, validator_signer) res" where
  "sr_signer st = ok_or (NotInitialized ''validator_signer'') (sr_validator_signer st)"

definition sr_sign ::
    "safety_env \<Rightarrow> safety_rules \<Rightarrow> consensus_message signable \<Rightarrow> (sr_error, signature) res" where
  "sr_sign SE st message =
     bind (sr_signer st) (\<lambda>signer.
       map_err SerializationError (signer_sign (env_crypto (se_env SE)) signer message))"

definition sr_the_epoch_state :: "safety_rules \<Rightarrow> (sr_error, epoch_state) res" where
  "sr_the_epoch_state st = ok_or (NotInitialized ''epoch_state'') (sr_epoch_state st)"

section \<open>Rules on the safety data\<close>

definition next_round :: "round \<Rightarrow> (sr_error, round) res" where
  "next_round r = ok_or (IncorrectRound r) (checked_add r 1)"

definition observe_qc :: "quorum_cert \<Rightarrow> safety_data \<Rightarrow> bool \<times> safety_data" where
  "observe_qc qc d =
     (let one_chain = bi_round (certified_block qc);
          two_chain = bi_round (parent_block qc);
          (updated, d) = (if one_chain > sd_one_chain_round d
                          then (True, d\<lparr>sd_one_chain_round := one_chain\<rparr>) else (False, d))
      in if two_chain > sd_preferred_round d
         then (True, d\<lparr>sd_preferred_round := two_chain\<rparr>) else (updated, d))"

definition update_highest_timeout_round :: "two_chain_timeout \<Rightarrow> safety_data \<Rightarrow> safety_data" where
  "update_highest_timeout_round t d =
     (if to_round t > sd_highest_timeout_round d then d\<lparr>sd_highest_timeout_round := to_round t\<rparr> else d)"

definition verify_and_update_preferred_round ::
    "quorum_cert \<Rightarrow> safety_data \<Rightarrow> (sr_error, bool \<times> safety_data) res" where
  "verify_and_update_preferred_round qc d =
     (let preferred_round = sd_preferred_round d;
          one_chain_round = bi_round (certified_block qc)
      in if one_chain_round < preferred_round
         then Err (IncorrectPreferredRound one_chain_round preferred_round)
         else Ok (observe_qc qc d))"

definition verify_author :: "safety_rules \<Rightarrow> author option \<Rightarrow> (sr_error, unit) res" where
  "verify_author st auth =
     bind (sr_signer st) (\<lambda>signer.
     bind (ok_or (InvalidProposal (Msg ''No author found in the proposal'')) auth) (\<lambda>auth.
       if vs_author signer \<noteq> auth
       then Err (InvalidProposal (Msg ''Proposal author is not validator signer!'')) else Ok ()))"

definition verify_epoch :: "u64 \<Rightarrow> safety_data \<Rightarrow> (sr_error, unit) res" where
  "verify_epoch e d = (if e \<noteq> sd_epoch d then Err (IncorrectEpoch e (sd_epoch d)) else Ok ())"

definition verify_and_update_last_vote_round ::
    "round \<Rightarrow> safety_data \<Rightarrow> (sr_error, safety_data) res" where
  "verify_and_update_last_vote_round r d =
     (if r \<le> sd_last_voted_round d then Err (IncorrectLastVotedRound r (sd_last_voted_round d))
      else Ok (d\<lparr>sd_last_voted_round := r\<rparr>))"

definition sr_verify_qc :: "safety_env \<Rightarrow> safety_rules \<Rightarrow> quorum_cert \<Rightarrow> (sr_error, unit) res" where
  "sr_verify_qc SE st qc =
     bind (sr_the_epoch_state st) (\<lambda>es.
       if \<not> sr_skip_sig_verify st
       then map_err InvalidQuorumCertificate (qc_verify (se_env SE) qc (es_verifier es)) else Ok ())"

definition sr_verify_tc ::
    "safety_env \<Rightarrow> safety_rules \<Rightarrow> two_chain_timeout_certificate \<Rightarrow> (sr_error, unit) res" where
  "sr_verify_tc SE st tc =
     bind (sr_the_epoch_state st) (\<lambda>es.
       if \<not> sr_skip_sig_verify st
       then map_err InvalidTimeoutCertificate (tc_verify (se_env SE) tc (es_verifier es)) else Ok ())"

definition verify_maybe_tc ::
    "safety_env \<Rightarrow> safety_rules \<Rightarrow> two_chain_timeout_certificate option \<Rightarrow> (sr_error, unit) res" where
  "verify_maybe_tc SE st maybe_tc = (case maybe_tc of None \<Rightarrow> Ok () | Some tc \<Rightarrow> sr_verify_tc SE st tc)"

section \<open>Two-chain rules\<close>

definition safe_to_timeout ::
    "two_chain_timeout \<Rightarrow> two_chain_timeout_certificate option \<Rightarrow> safety_data \<Rightarrow> (sr_error, unit) res"
where
  "safe_to_timeout timeout maybe_tc d =
     (let r = to_round timeout;
          qc_round = hqc_round timeout;
          tc_r = (case maybe_tc of None \<Rightarrow> 0 | Some tc \<Rightarrow> tc_round tc)
      in bind (next_round qc_round) (\<lambda>after_qc.
         bind (if r = after_qc then Ok True else bind (next_round tc_r) (\<lambda>after_tc. Ok (r = after_tc))) (\<lambda>follows.
           if follows \<and> qc_round \<ge> sd_one_chain_round d then Ok ()
           else Err (NotSafeToTimeout r qc_round tc_r (sd_one_chain_round d)))))"

definition safe_to_vote :: "block \<Rightarrow> two_chain_timeout_certificate option \<Rightarrow> (sr_error, unit) res" where
  "safe_to_vote b maybe_tc =
     (let r = blk_round b;
          qc_round = bi_round (certified_block (blk_quorum_cert b));
          tc_r = (case maybe_tc of None \<Rightarrow> 0 | Some tc \<Rightarrow> tc_round tc);
          hqc_r = (case maybe_tc of None \<Rightarrow> 0 | Some tc \<Rightarrow> highest_hqc_round tc)
      in bind (next_round qc_round) (\<lambda>after_qc.
         bind (if r = after_qc then Ok True
               else bind (next_round tc_r) (\<lambda>after_tc. Ok (r = after_tc \<and> qc_round \<ge> hqc_r))) (\<lambda>safe.
           if safe then Ok () else Err (NotSafeToVote r qc_round tc_r hqc_r))))"

definition safe_for_order_vote :: "block \<Rightarrow> safety_data \<Rightarrow> (sr_error, unit) res" where
  "safe_for_order_vote b d =
     (if blk_round b > sd_highest_timeout_round d then Ok ()
      else Err (NotSafeForOrderVote (blk_round b) (sd_highest_timeout_round d)))"

definition construct_ledger_info_2chain :: "block \<Rightarrow> hash_value \<Rightarrow> (sr_error, ledger_info) res" where
  "construct_ledger_info_2chain b consensus_data_hash =
     (let block1 = blk_round b;
          block0 = bi_round (certified_block (blk_quorum_cert b))
      in bind (next_round block0) (\<lambda>after.
           let commit_info = (if after = block1 then certified_block (blk_quorum_cert b) else block_info_empty)
           in Ok \<lparr>li_commit_info = commit_info, li_consensus_data_hash = consensus_data_hash\<rparr>))"

section \<open>Handlers\<close>

definition verify_proposal :: "safety_env \<Rightarrow> u64 \<Rightarrow> vote_proposal \<Rightarrow> vote_data sr_method" where
  "verify_proposal SE now vp =
     m_bind sr_safety_data (\<lambda>d.
     m_bind (m_lift (verify_epoch (blk_epoch (vp_block vp)) d)) (\<lambda>_.
     m_bind (m_read (\<lambda>st. sr_verify_qc SE st (blk_quorum_cert (vp_block vp)))) (\<lambda>_.
     m_bind (m_read (\<lambda>st.
               if \<not> sr_skip_sig_verify st then
                 bind (sr_the_epoch_state st) (\<lambda>es.
                   map_err InvalidProposal (validate_signature (se_env SE) (vp_block vp) (es_verifier es)))
               else Ok ())) (\<lambda>_.
     m_bind (m_lift (map_err InvalidProposal (blk_verify_well_formed now (vp_block vp)))) (\<lambda>_.
       m_lift (map_err InvalidAccumulatorExtension (gen_vote_data (se_node_hash SE) vp)))))))"

definition verify_order_vote_proposal :: "safety_env \<Rightarrow> order_vote_proposal \<Rightarrow> unit sr_method" where
  "verify_order_vote_proposal SE ovp =
     m_bind sr_safety_data (\<lambda>d.
     m_bind (m_lift (verify_epoch (blk_epoch (ovp_block ovp)) d)) (\<lambda>_.
     let certified = certified_block (ovp_quorum_cert ovp)
     in m_bind (m_lift (ensure (certified = ovp_block_info ovp)
                 (InvalidOneChainQuorumCertificate (bi_id certified) (bi_id (ovp_block_info ovp))))) (\<lambda>_.
        m_bind (m_lift (ensure (bi_id certified = blk_id (ovp_block ovp))
                 (InvalidOneChainQuorumCertificate (bi_id certified) (blk_id (ovp_block ovp))))) (\<lambda>_.
          m_read (\<lambda>st. sr_verify_qc SE st (ovp_quorum_cert ovp))))))"

text \<open>The part of \<^verbatim>\<open>guarded_sign_timeout_with_qc\<close> between reading and writing the safety data.\<close>

definition timeout_safety_data ::
    "safety_env \<Rightarrow> two_chain_timeout \<Rightarrow> two_chain_timeout_certificate option \<Rightarrow> safety_data \<Rightarrow> safety_rules
       \<Rightarrow> (sr_error, safety_data) res" where
  "timeout_safety_data SE timeout maybe_tc d st =
     bind (verify_epoch (to_epoch timeout) d) (\<lambda>_.
     bind (if \<not> sr_skip_sig_verify st then
             bind (sr_the_epoch_state st) (\<lambda>es.
               map_err InvalidTimeout (timeout_verify (se_env SE) timeout (es_verifier es)))
           else Ok ()) (\<lambda>_.
     bind (verify_maybe_tc SE st maybe_tc) (\<lambda>_.
     bind (safe_to_timeout timeout maybe_tc d) (\<lambda>_.
     bind (ensure (\<not> to_round timeout < sd_last_voted_round d)
             (IncorrectLastVotedRound (to_round timeout) (sd_last_voted_round d))) (\<lambda>_.
     bind (if to_round timeout > sd_last_voted_round d
           then verify_and_update_last_vote_round (to_round timeout) d else Ok d) (\<lambda>d.
       Ok (update_highest_timeout_round timeout d)))))))"

definition guarded_sign_timeout_with_qc ::
    "safety_env \<Rightarrow> two_chain_timeout \<Rightarrow> two_chain_timeout_certificate option \<Rightarrow> signature sr_method" where
  "guarded_sign_timeout_with_qc SE timeout maybe_tc =
     m_bind (m_read sr_signer) (\<lambda>_.
     m_bind sr_safety_data (\<lambda>d.
     m_bind (m_read (timeout_safety_data SE timeout maybe_tc d)) (\<lambda>d'.
     m_bind (sr_set_safety_data d') (\<lambda>_.
       m_read (\<lambda>st. sr_sign SE st (signing_format timeout))))))"

text \<open>
  The part of \<^verbatim>\<open>guarded_construct_and_sign_vote_two_chain\<close> between the check for an earlier vote of the
  round and the write of the safety data.
\<close>

definition construct_vote ::
    "safety_env \<Rightarrow> block \<Rightarrow> two_chain_timeout_certificate option \<Rightarrow> vote_data \<Rightarrow> safety_data \<Rightarrow> safety_rules
       \<Rightarrow> (sr_error, vote \<times> safety_data) res" where
  "construct_vote SE proposed_block maybe_tc vd d st =
     bind (verify_and_update_last_vote_round (blk_round proposed_block) d) (\<lambda>d.
     bind (safe_to_vote proposed_block maybe_tc) (\<lambda>_.
     let d = snd (observe_qc (blk_quorum_cert proposed_block) d)
     in bind (sr_signer st) (\<lambda>signer.
        bind (construct_ledger_info_2chain proposed_block (hash_vote_data (se_env SE) vd)) (\<lambda>li.
        bind (sr_sign SE st (SLedgerInfo li)) (\<lambda>sig.
          let v = vote_new_with_signature vd (vs_author signer) li sig
          in Ok (v, d\<lparr>sd_last_vote := Some v\<rparr>))))))"

definition earlier_vote :: "block \<Rightarrow> safety_data \<Rightarrow> vote option" where
  "earlier_vote proposed_block d =
     (case sd_last_vote d of
        Some v \<Rightarrow> if bi_round (proposed (vote_vote_data v)) = blk_round proposed_block then Some v else None
      | None \<Rightarrow> None)"

definition guarded_construct_and_sign_vote_two_chain ::
    "safety_env \<Rightarrow> u64 \<Rightarrow> vote_proposal \<Rightarrow> two_chain_timeout_certificate option \<Rightarrow> vote sr_method" where
  "guarded_construct_and_sign_vote_two_chain SE now vp maybe_tc =
     m_bind (m_read sr_signer) (\<lambda>_.
     m_bind (verify_proposal SE now vp) (\<lambda>vd.
     m_bind (m_read (\<lambda>st. verify_maybe_tc SE st maybe_tc)) (\<lambda>_.
     m_bind sr_safety_data (\<lambda>d.
       case earlier_vote (vp_block vp) d of
         Some v \<Rightarrow> m_return v
       | None \<Rightarrow>
           m_bind (m_read (construct_vote SE (vp_block vp) maybe_tc vd d)) (\<lambda>(v, d').
           m_bind (sr_set_safety_data d') (\<lambda>_. m_return v))))))"

text \<open>The same for order votes.\<close>

definition construct_order_vote ::
    "safety_env \<Rightarrow> order_vote_proposal \<Rightarrow> safety_data \<Rightarrow> safety_rules
       \<Rightarrow> (sr_error, order_vote \<times> safety_data) res" where
  "construct_order_vote SE ovp d st =
     (let d = snd (observe_qc (ovp_quorum_cert ovp) d)
      in bind (safe_for_order_vote (ovp_block ovp) d) (\<lambda>_.
         bind (sr_signer st) (\<lambda>signer.
         let li = \<lparr>li_commit_info = ovp_block_info ovp, li_consensus_data_hash = 0\<rparr>
         in bind (sr_sign SE st (SLedgerInfo li)) (\<lambda>sig.
              Ok (order_vote_new_with_signature (vs_author signer) li sig, d)))))"

definition guarded_construct_and_sign_order_vote ::
    "safety_env \<Rightarrow> order_vote_proposal \<Rightarrow> order_vote sr_method" where
  "guarded_construct_and_sign_order_vote SE ovp =
     m_bind (m_read sr_signer) (\<lambda>_.
     m_bind (verify_order_vote_proposal SE ovp) (\<lambda>_.
     m_bind sr_safety_data (\<lambda>d.
     m_bind (m_read (construct_order_vote SE ovp d)) (\<lambda>(ov, d').
     m_bind (sr_set_safety_data d') (\<lambda>_. m_return ov)))))"

definition guarded_sign_proposal :: "safety_env \<Rightarrow> block_data \<Rightarrow> signature sr_method" where
  "guarded_sign_proposal SE bd =
     m_bind (m_read sr_signer) (\<lambda>_.
     m_bind (m_read (\<lambda>st. verify_author st (bd_author bd))) (\<lambda>_.
     m_bind sr_safety_data (\<lambda>d.
     m_bind (m_lift (verify_epoch (bd_epoch bd) d)) (\<lambda>_.
     m_bind (m_lift (ensure (\<not> bd_round bd \<le> sd_last_voted_round d)
               (InvalidProposal (Msg ''Proposed round is not higher than last voted round'')))) (\<lambda>_.
     m_bind (m_read (\<lambda>st. sr_verify_qc SE st (bd_quorum_cert bd))) (\<lambda>_.
     m_bind (m_lift (verify_and_update_preferred_round (bd_quorum_cert bd) d)) (\<lambda>_.
       m_read (\<lambda>st. sr_sign SE st (SConsensus (MBlockData bd))))))))))"

definition guarded_sign_commit_vote ::
    "safety_env \<Rightarrow> ledger_info_with_signatures \<Rightarrow> ledger_info \<Rightarrow> safety_rules
       \<Rightarrow> (sr_error, signature) res" where
  "guarded_sign_commit_vote SE l new_ledger_info st =
     bind (sr_signer st) (\<lambda>_.
     let old_ledger_info = liws_ledger_info l
     in if \<not> is_ordered_only (li_commit_info old_ledger_info) \<and>
          li_commit_info old_ledger_info \<noteq> li_commit_info new_ledger_info
        then Err (InvalidOrderedLedgerInfo old_ledger_info)
        else if \<not> match_ordered_only (li_commit_info old_ledger_info) (li_commit_info new_ledger_info)
        then Err (InconsistentExecutionResult (li_commit_info old_ledger_info) (li_commit_info new_ledger_info))
        else
          bind (if \<not> sr_skip_sig_verify st then
                  bind (sr_the_epoch_state st) (\<lambda>es.
                    map_err (\<lambda>e. InvalidQuorumCertificate (VerifyErr e))
                      (verify_signatures (env_crypto (se_env SE)) l (es_verifier es)))
                else Ok ()) (\<lambda>_.
            sr_sign SE st (SLedgerInfo new_ledger_info)))"

record consensus_state =
  cs_safety_data :: safety_data
  cs_waypoint :: waypoint
  cs_in_validator_set :: bool

definition guarded_consensus_state :: "bool \<Rightarrow> consensus_state sr_method" where
  "guarded_consensus_state trace_enabled =
     m_bind (m_read (\<lambda>st. pss_waypoint (sr_persistent_storage st))) (\<lambda>_.
     m_bind sr_safety_data (\<lambda>_.
     m_bind (m_read (\<lambda>st.
               if trace_enabled then bind (pss_author (sr_persistent_storage st)) (\<lambda>_. Ok ()) else Ok ())) (\<lambda>_.
     m_bind sr_safety_data (\<lambda>d.
     m_bind (m_read (\<lambda>st. pss_waypoint (sr_persistent_storage st))) (\<lambda>w.
       m_read (\<lambda>st. Ok \<lparr>cs_safety_data = d, cs_waypoint = w, cs_in_validator_set = is_ok (sr_signer st)\<rparr>))))))"

section \<open>Initialisation\<close>

text \<open>
  The end of \<^verbatim>\<open>guarded_initialize\<close>: the signer is kept when it has the expected key, is made from the
  stored key otherwise, and is dropped on every error.
\<close>

definition reconcile_key :: "safety_env \<Rightarrow> epoch_state \<Rightarrow> author \<Rightarrow> unit sr_method" where
  "reconcile_key SE es auth st =
     (let C = env_crypto (se_env SE)
      in case get_public_key (es_verifier es) auth of
           None \<Rightarrow> (Err (ValidatorNotInSet auth), st\<lparr>sr_validator_signer := None\<rparr>)
         | Some expected_key \<Rightarrow>
             if map_option (\<lambda>s. bls_public_key C (vs_private_key s)) (sr_validator_signer st) = Some expected_key
             then (Ok (), st)
             else
               (case consensus_sk_by_pk C (se_hex_encode SE) (sr_persistent_storage st) expected_key of
                  Ok consensus_key \<Rightarrow>
                    (Ok (), st\<lparr>sr_validator_signer :=
                       Some \<lparr>vs_author = auth, vs_private_key = consensus_key\<rparr>\<rparr>)
                | Err e \<Rightarrow>
                    (Err (if e = SecureStorageMissingDataError then ValidatorKeyNotFound else e),
                     st\<lparr>sr_validator_signer := None\<rparr>)
                | Panic \<Rightarrow> (Panic, st)))"

text \<open>The comparison of the stored epoch with the one of the proof.\<close>

definition start_epoch :: "waypoint \<Rightarrow> waypoint \<Rightarrow> epoch_state \<Rightarrow> u64 \<Rightarrow> unit sr_method" where
  "start_epoch w new_w es current_epoch =
     (if current_epoch > es_epoch es then
        m_lift (Err (WaypointOutOfDate (wp_version w) (wp_version new_w) current_epoch (es_epoch es)))
      else if current_epoch < es_epoch es then
        sr_set_safety_data (safety_data_new (es_epoch es) 0 0 0 None 0)
      else m_return ())"

text \<open>
  The beginning of \<^verbatim>\<open>guarded_initialize\<close>: the stored waypoint, the epoch state that the proof leads to,
  and the waypoint of its ledger info.
\<close>

definition initialize_target ::
    "safety_env \<Rightarrow> epoch_change_proof \<Rightarrow> safety_rules
       \<Rightarrow> (sr_error, waypoint \<times> epoch_state \<times> waypoint) res" where
  "initialize_target SE change_proof st =
     bind (pss_waypoint (sr_persistent_storage st)) (\<lambda>w.
     bind (map_err InvalidEpochChangeProof
             (ecp_verify (env_crypto (se_env SE)) (se_waypoint_hash SE) change_proof (WaypointVerifier w))) (\<lambda>last_li.
     bind (ok_or InvalidLedgerInfo (li_next_epoch_state (liws_ledger_info last_li))) (\<lambda>es.
     bind (map_err InternalError
             (waypoint_new_epoch_boundary (se_waypoint_hash SE) (liws_ledger_info last_li))) (\<lambda>new_w.
       Ok (w, es, new_w)))))"

definition guarded_initialize :: "safety_env \<Rightarrow> epoch_change_proof \<Rightarrow> unit sr_method" where
  "guarded_initialize SE change_proof =
     m_bind (m_read (initialize_target SE change_proof)) (\<lambda>(w, es, new_w).
     m_bind (m_if (wp_version new_w > wp_version w) (with_storage (set_waypoint new_w))) (\<lambda>_.
     m_bind sr_safety_data (\<lambda>d.
     m_bind (start_epoch w new_w es (sd_epoch d)) (\<lambda>_.
     m_bind (m_modify (\<lambda>st. st\<lparr>sr_epoch_state := Some es\<rparr>)) (\<lambda>_.
     m_bind (m_read (\<lambda>st. pss_author (sr_persistent_storage st))) (\<lambda>auth.
       reconcile_key SE es auth))))))"

section \<open>Requests\<close>

text \<open>
  \<^verbatim>\<open>SafetyRulesInput\<close> and the dispatch of \<^verbatim>\<open>SerializerService::handle_message\<close>, without the JSON encoding.
\<close>

datatype safety_rules_input =
    ConsensusState
  | Initialize epoch_change_proof
  | SignProposal block_data
  | SignTimeoutWithQC two_chain_timeout "two_chain_timeout_certificate option"
  | ConstructAndSignVoteTwoChain vote_proposal "two_chain_timeout_certificate option"
  | ConstructAndSignOrderVote order_vote_proposal
  | SignCommitVote ledger_info_with_signatures ledger_info

datatype safety_rules_output =
    OutConsensusState consensus_state
  | OutUnit
  | OutSignature signature
  | OutVote vote
  | OutOrderVote order_vote

definition m_map :: "('a \<Rightarrow> 'b) \<Rightarrow> ('s, 'e, 'a) method_res \<Rightarrow> ('s, 'e, 'b) method_res" where
  "m_map f m = m_bind m (\<lambda>a. m_return (f a))"

fun handle_message ::
    "safety_env \<Rightarrow> u64 \<Rightarrow> bool \<Rightarrow> safety_rules_input \<Rightarrow> safety_rules_output sr_method" where
  "handle_message SE now trace_enabled ConsensusState =
     m_map OutConsensusState (guarded_consensus_state trace_enabled)"
| "handle_message SE now trace_enabled (Initialize change_proof) =
     m_map (\<lambda>_. OutUnit) (guarded_initialize SE change_proof)"
| "handle_message SE now trace_enabled (SignProposal bd) =
     m_map OutSignature (guarded_sign_proposal SE bd)"
| "handle_message SE now trace_enabled (SignTimeoutWithQC timeout maybe_tc) =
     m_map OutSignature (guarded_sign_timeout_with_qc SE timeout maybe_tc)"
| "handle_message SE now trace_enabled (ConstructAndSignVoteTwoChain vp maybe_tc) =
     m_map OutVote (guarded_construct_and_sign_vote_two_chain SE now vp maybe_tc)"
| "handle_message SE now trace_enabled (ConstructAndSignOrderVote ovp) =
     m_map OutOrderVote (guarded_construct_and_sign_order_vote SE ovp)"
| "handle_message SE now trace_enabled (SignCommitVote l new_ledger_info) =
     m_map OutSignature (m_read (guarded_sign_commit_vote SE l new_ledger_info))"

section \<open>What the handlers keep\<close>

definition sr_durable :: "safety_rules \<Rightarrow> safety_data option" where
  "sr_durable st = pss_durable (sr_persistent_storage st)"

definition sr_coherent :: "safety_rules \<Rightarrow> bool" where
  "sr_coherent st \<longleftrightarrow> pss_coherent (sr_persistent_storage st)"

definition sr_frame :: "safety_rules \<Rightarrow> safety_rules \<Rightarrow> bool" where
  "sr_frame st st' \<longleftrightarrow>
     pss_frame (sr_persistent_storage st) (sr_persistent_storage st') \<and>
     sr_validator_signer st' = sr_validator_signer st \<and> sr_epoch_state st' = sr_epoch_state st \<and>
     sr_skip_sig_verify st' = sr_skip_sig_verify st"

lemma with_storage_eq:
  "with_storage m st = (r, st') \<longleftrightarrow>
     (\<exists>p. m (sr_persistent_storage st) = (r, p) \<and> st' = st\<lparr>sr_persistent_storage := p\<rparr>)"
  by (auto simp: with_storage_def split: prod.splits)

interpretation srs: safety_store sr_safety_data sr_set_safety_data sr_durable sr_coherent sr_frame
proof unfold_locales
  fix s s' r and d :: safety_data
  assume g: "sr_safety_data s = (r, s')"
  then show "sr_durable s' = sr_durable s \<and> sr_frame s s'" "sr_coherent s \<Longrightarrow> sr_coherent s'"
    by (auto simp: sr_safety_data_def with_storage_eq sr_durable_def sr_frame_def sr_coherent_def
      dest: pss.get_state pss.get_coherent)
next
  fix s s' d
  assume g: "sr_safety_data s = (Ok d, s')"
  then show "sr_coherent s \<Longrightarrow> sr_durable s = Some d" "sr_safety_data s' = (Ok d, s')"
    by (auto simp: sr_safety_data_def with_storage_eq sr_durable_def sr_coherent_def
      dest: pss.get_Ok pss.get_again)
next
  fix d s s' w u
  assume "sr_set_safety_data d s = (w, s')"
  then show "(sr_durable s' = sr_durable s \<or> sr_durable s' = Some d) \<and> sr_frame s s'" "sr_coherent s'"
    by (auto simp: sr_set_safety_data_def with_storage_eq sr_durable_def sr_frame_def sr_coherent_def
      dest: pss.put_state pss.put_coherent)
next
  fix d s s' u
  assume "sr_set_safety_data d s = (Ok u, s')"
  then show "sr_durable s' = Some d"
    by (auto simp: sr_set_safety_data_def with_storage_eq sr_durable_def dest: pss.put_Ok)
qed (auto simp: sr_frame_def intro: pss.frame_refl pss.frame_trans)

text \<open>The functions of the state look only at what the storage operations keep.\<close>

lemma frame_fields:
  assumes "sr_frame st st'"
  shows "sr_signer st' = sr_signer st" "sr_the_epoch_state st' = sr_the_epoch_state st"
    "sr_skip_sig_verify st' = sr_skip_sig_verify st" "sr_sign SE st' = sr_sign SE st"
    "sr_verify_qc SE st' = sr_verify_qc SE st" "sr_verify_tc SE st' = sr_verify_tc SE st"
    "verify_maybe_tc SE st' = verify_maybe_tc SE st"
  using assms
  by (auto simp: sr_frame_def sr_signer_def sr_the_epoch_state_def sr_sign_def sr_verify_qc_def
    sr_verify_tc_def verify_maybe_tc_def fun_eq_iff split: option.splits)

lemma frame_updates:
  assumes "sr_frame st st'"
  shows "timeout_safety_data SE t tc d st' = timeout_safety_data SE t tc d st"
    "construct_vote SE b tc vd d st' = construct_vote SE b tc vd d st"
    "construct_order_vote SE ovp d st' = construct_order_vote SE ovp d st"
  using frame_fields [OF assms]
  by (simp_all add: timeout_safety_data_def construct_vote_def construct_order_vote_def)

text \<open>The checks of \<^const>\<open>verify_proposal\<close> and \<^const>\<open>verify_order_vote_proposal\<close> as functions.\<close>

definition proposal_checks ::
    "safety_env \<Rightarrow> u64 \<Rightarrow> vote_proposal \<Rightarrow> safety_data \<Rightarrow> safety_rules \<Rightarrow> (sr_error, vote_data) res" where
  "proposal_checks SE now vp d st =
     bind (verify_epoch (blk_epoch (vp_block vp)) d) (\<lambda>_.
     bind (sr_verify_qc SE st (blk_quorum_cert (vp_block vp))) (\<lambda>_.
     bind (if \<not> sr_skip_sig_verify st then
             bind (sr_the_epoch_state st) (\<lambda>es.
               map_err InvalidProposal (validate_signature (se_env SE) (vp_block vp) (es_verifier es)))
           else Ok ()) (\<lambda>_.
     bind (map_err InvalidProposal (blk_verify_well_formed now (vp_block vp))) (\<lambda>_.
       map_err InvalidAccumulatorExtension (gen_vote_data (se_node_hash SE) vp)))))"

definition order_checks ::
    "safety_env \<Rightarrow> order_vote_proposal \<Rightarrow> safety_data \<Rightarrow> safety_rules \<Rightarrow> (sr_error, unit) res" where
  "order_checks SE ovp d st =
     bind (verify_epoch (blk_epoch (ovp_block ovp)) d) (\<lambda>_.
     let certified = certified_block (ovp_quorum_cert ovp)
     in bind (ensure (certified = ovp_block_info ovp)
               (InvalidOneChainQuorumCertificate (bi_id certified) (bi_id (ovp_block_info ovp)))) (\<lambda>_.
        bind (ensure (bi_id certified = blk_id (ovp_block ovp))
               (InvalidOneChainQuorumCertificate (bi_id certified) (blk_id (ovp_block ovp)))) (\<lambda>_.
          sr_verify_qc SE st (ovp_quorum_cert ovp))))"

lemma verify_proposal_eq:
  "verify_proposal SE now vp = m_bind sr_safety_data (\<lambda>d. m_read (proposal_checks SE now vp d))"
  unfolding verify_proposal_def m_read_simps proposal_checks_def ..

lemma verify_order_vote_proposal_eq:
  "verify_order_vote_proposal SE ovp = m_bind sr_safety_data (\<lambda>d. m_read (order_checks SE ovp d))"
  unfolding verify_order_vote_proposal_def m_read_simps order_checks_def Let_def ..

lemma frame_checks:
  assumes "sr_frame st st'"
  shows "proposal_checks SE now vp d st' = proposal_checks SE now vp d st"
    "order_checks SE ovp d st' = order_checks SE ovp d st"
  using frame_fields [OF assms]
  by (simp_all add: proposal_checks_def order_checks_def Let_def)

lemma sign_timeout_cases:
  assumes "guarded_sign_timeout_with_qc SE t tc st = (r, st')" "sr_coherent st"
  shows "sr_coherent st' \<and> sr_frame st st' \<and>
    (sr_durable st' = sr_durable st \<and> \<not> is_ok r \<or>
     (\<exists>d d'. sr_durable st = Some d \<and> timeout_safety_data SE t tc d st = Ok d' \<and> sr_durable st' = Some d'))"
  using assms(1) unfolding guarded_sign_timeout_with_qc_def
proof (cases rule: m_bind_cases)
  case (ok a s1)
  then have "s1 = st" by (simp add: m_read_def)
  with ok srs.read_modify_write [where new = "\<lambda>d. d" and f = "timeout_safety_data SE t tc"
      and g = "\<lambda>_ st. sr_sign SE st (signing_format t)" and s = st and s' = st' and r = r] assms(2)
  have "sr_coherent st' \<and> sr_frame st st' \<and>
    (sr_durable st' = sr_durable st \<and> \<not> is_ok r \<or>
     (\<exists>d s1 d'. sr_durable st = Some d \<and> sr_frame st s1 \<and> timeout_safety_data SE t tc d s1 = Ok d' \<and>
        sr_durable st' = Some d'))" by blast
  then show ?thesis using frame_updates(1) by metis
qed (use assms(2) srs.frame_refl in \<open>auto simp: m_read_def\<close>)

text \<open>
  A vote that is returned is the last vote on disk; a changed disk holds the vote constructed from a
  proposal that passed the checks, also when the write reported a failure.
\<close>

lemma construct_and_sign_vote_cases:
  assumes "guarded_construct_and_sign_vote_two_chain SE now vp tc st = (r, st')" "sr_coherent st"
  shows "sr_coherent st' \<and> sr_frame st st' \<and>
    (sr_durable st' = sr_durable st \<and>
       (\<forall>v. r = Ok v \<longrightarrow> (\<exists>d vd. sr_durable st = Some d \<and> proposal_checks SE now vp d st = Ok vd \<and>
          earlier_vote (vp_block vp) d = Some v)) \<or>
     (\<exists>d vd v d'. sr_durable st = Some d \<and> proposal_checks SE now vp d st = Ok vd \<and>
        verify_maybe_tc SE st tc = Ok () \<and> earlier_vote (vp_block vp) d = None \<and>
        construct_vote SE (vp_block vp) tc vd d st = Ok (v, d') \<and>
        sr_durable st' = Some d' \<and> (is_ok r \<longrightarrow> r = Ok v)))"
  using assms(1) unfolding guarded_construct_and_sign_vote_two_chain_def
proof (cases rule: m_bind_cases)
  case ok1: (ok a s1)
  then have [simp]: "s1 = st" by (simp add: m_read_def)
  from ok1(2) show ?thesis
  proof (cases rule: m_bind_cases)
    case (fail r0)
    with srs.read_only [of "proposal_checks SE now vp" st r0 st'] assms(2) show ?thesis
      by (auto simp: verify_proposal_eq)
  next
    case ok2: (ok vd s2)
    with srs.read_only [of "proposal_checks SE now vp" st "Ok vd" s2] assms(2)
    obtain d where s2: "sr_coherent s2" "sr_frame st s2" "sr_durable s2 = sr_durable st"
      "sr_safety_data s2 = (Ok d, s2)" "sr_durable st = Some d" "proposal_checks SE now vp d st = Ok vd"
      using frame_checks(1) by (auto simp: verify_proposal_eq)
    from ok2(2) show ?thesis
    proof (cases rule: m_bind_cases)
      case (fail r0)
      with s2 show ?thesis by (auto simp: m_read_def)
    next
      case ok3: (ok u s3)
      then have [simp]: "s3 = s2" and tc: "verify_maybe_tc SE st tc = Ok ()"
        using frame_fields(7) [OF s2(2)] by (auto simp: m_read_def)
      show ?thesis
      proof (cases "earlier_vote (vp_block vp) d")
        case (Some v)
        then have "r = Ok v" "st' = s2" using ok3(2) s2(4) by (auto simp: m_bind_def m_return_def)
        with s2 Some show ?thesis by auto
      next
        case None
        have "m_bind sr_safety_data (\<lambda>d. m_bind (m_read (construct_vote SE (vp_block vp) tc vd d))
            (\<lambda>x. m_bind (sr_set_safety_data (snd x)) (\<lambda>_. m_read (\<lambda>_. Ok (fst x))))) s2 = (r, st')"
          using ok3(2) s2(4) None by (simp add: m_bind_def split_def m_read_simps(3))
        note rmw = srs.read_modify_write [OF this s2(1)]
        have fr: "sr_frame st st'" using rmw s2(2) srs.frame_trans by blast
        from rmw consider (same) "sr_durable st' = sr_durable s2" "\<not> is_ok r"
          | (new) d1 t x where "sr_durable s2 = Some d1" "sr_frame s2 t"
              "construct_vote SE (vp_block vp) tc vd d1 t = Ok x" "sr_durable st' = Some (snd x)"
              "is_ok r \<longrightarrow> r = Ok (fst x)" by blast
        then show ?thesis
        proof cases
          case same
          with rmw fr s2(3) show ?thesis by auto
        next
          case new
          with s2(3,5) frame_updates(2) [OF srs.frame_trans [OF s2(2) new(2)]]
          have "construct_vote SE (vp_block vp) tc vd d st = Ok (fst x, snd x)" by simp
          with rmw fr new s2(5,6) tc None show ?thesis by blast
        qed
      qed
    qed
  qed
qed (use assms(2) srs.frame_refl in \<open>auto simp: m_read_def\<close>)

lemma construct_and_sign_order_vote_cases:
  assumes "guarded_construct_and_sign_order_vote SE ovp st = (r, st')" "sr_coherent st"
  shows "sr_coherent st' \<and> sr_frame st st' \<and>
    (sr_durable st' = sr_durable st \<and> \<not> is_ok r \<or>
     (\<exists>d ov d'. sr_durable st = Some d \<and> order_checks SE ovp d st = Ok () \<and>
        construct_order_vote SE ovp d st = Ok (ov, d') \<and> sr_durable st' = Some d' \<and>
        (is_ok r \<longrightarrow> r = Ok ov)))"
  using assms(1) unfolding guarded_construct_and_sign_order_vote_def
proof (cases rule: m_bind_cases)
  case ok1: (ok a s1)
  then have [simp]: "s1 = st" by (simp add: m_read_def)
  from ok1(2) show ?thesis
  proof (cases rule: m_bind_cases)
    case (fail r0)
    with srs.read_only [of "order_checks SE ovp" st r0 st'] assms(2) show ?thesis
      by (auto simp: verify_order_vote_proposal_eq)
  next
    case ok2: (ok u s2)
    with srs.read_only [of "order_checks SE ovp" st "Ok ()" s2] assms(2)
    obtain d where s2: "sr_coherent s2" "sr_frame st s2" "sr_durable s2 = sr_durable st"
      "sr_durable st = Some d" "order_checks SE ovp d st = Ok ()"
      using frame_checks(2) by (auto simp: verify_order_vote_proposal_eq)
    have "m_bind sr_safety_data (\<lambda>d. m_bind (m_read (construct_order_vote SE ovp d))
        (\<lambda>x. m_bind (sr_set_safety_data (snd x)) (\<lambda>_. m_read (\<lambda>_. Ok (fst x))))) s2 = (r, st')"
      using ok2(2) by (simp add: split_def m_read_simps(3))
    note rmw = srs.read_modify_write [OF this s2(1)]
    have fr: "sr_frame st st'" using rmw s2(2) srs.frame_trans by blast
    from rmw consider (same) "sr_durable st' = sr_durable s2" "\<not> is_ok r"
      | (new) d1 t x where "sr_durable s2 = Some d1" "sr_frame s2 t"
          "construct_order_vote SE ovp d1 t = Ok x" "sr_durable st' = Some (snd x)"
          "is_ok r \<longrightarrow> r = Ok (fst x)" by blast
    then show ?thesis
    proof cases
      case same
      with rmw fr s2(3) show ?thesis by auto
    next
      case new
      with s2(3,4) frame_updates(3) [OF srs.frame_trans [OF s2(2) new(2)]]
      have "construct_order_vote SE ovp d st = Ok (fst x, snd x)" by simp
      with rmw fr new s2(4,5) show ?thesis by blast
    qed
  qed
qed (use assms(2) srs.frame_refl in \<open>auto simp: m_read_def\<close>)

lemma m_map_cases:
  assumes "m_map f m s = (r, s')"
  obtains r0 where "m s = (r0, s')" "r = (case r0 of Ok a \<Rightarrow> Ok (f a) | Err e \<Rightarrow> Err e | Panic \<Rightarrow> Panic)"
  using assms by (cases "m s"; cases "fst (m s)") (auto simp: m_map_def m_bind_def m_return_def)

lemma sign_proposal_eq:
  "guarded_sign_proposal SE bd =
     m_bind (m_read (\<lambda>st. bind (sr_signer st) (\<lambda>_. verify_author st (bd_author bd)))) (\<lambda>_.
     m_bind sr_safety_data (\<lambda>d. m_read (\<lambda>st.
       bind (verify_epoch (bd_epoch bd) d) (\<lambda>_.
       bind (ensure (\<not> bd_round bd \<le> sd_last_voted_round d)
         (InvalidProposal (Msg ''Proposed round is not higher than last voted round''))) (\<lambda>_.
       bind (sr_verify_qc SE st (bd_quorum_cert bd)) (\<lambda>_.
       bind (verify_and_update_preferred_round (bd_quorum_cert bd) d) (\<lambda>_.
         sr_sign SE st (SConsensus (MBlockData bd)))))))))"
  unfolding guarded_sign_proposal_def m_read_simps
  by (auto simp: m_bind_def m_read_def fun_eq_iff split: res.splits)

lemma sign_proposal_keeps:
  assumes "guarded_sign_proposal SE bd st = (r, st')" "sr_coherent st"
  shows "sr_coherent st' \<and> sr_frame st st' \<and> sr_durable st' = sr_durable st"
  using assms(1) unfolding sign_proposal_eq
proof (cases rule: m_bind_cases)
  case (ok a s1)
  then have "s1 = st" by (simp add: m_read_def)
  with srs.read_only [OF ok(2)] assms(2) show ?thesis by blast
qed (use assms(2) srs.frame_refl in \<open>auto simp: m_read_def\<close>)

lemma consensus_state_keeps:
  assumes "guarded_consensus_state trace st = (r, st')" "sr_coherent st"
  shows "sr_coherent st' \<and> sr_frame st st' \<and> sr_durable st' = sr_durable st"
proof -
  let ?keeps = "\<lambda>s s'. sr_coherent s \<longrightarrow> sr_coherent s' \<and> sr_frame s s' \<and> sr_durable s' = sr_durable s"
  have "reflp ?keeps" "transp ?keeps"
    using srs.frame_refl srs.frame_trans by (auto simp: reflp_def transp_def)
  moreover have "preserves ?keeps sr_safety_data"
    unfolding preserves_def using srs.get_state srs.get_coherent by (metis prod.collapse)
  ultimately have "preserves ?keeps (guarded_consensus_state trace)"
    unfolding guarded_consensus_state_def by (intro preserves_bind preserves_prims)
  with assms show ?thesis unfolding preserves_def by (metis snd_conv)
qed

lemma set_waypoint_keeps:
  assumes "set_waypoint w p = (r, p')"
  shows "pss_durable p' = pss_durable p" "pss_coherent p' = pss_coherent p"
proof -
  obtain r0 s where k: "kv_set WAYPOINT (VWaypoint w) (internal_store p) = (r0, s)" by fastforce
  have "SAFETY_DATA \<noteq> WAYPOINT" by (simp add: SAFETY_DATA_def WAYPOINT_def)
  with kv_set_cases [OF k] have "kv_data s SAFETY_DATA = kv_data (internal_store p) SAFETY_DATA" by auto
  with assms k show d: "pss_durable p' = pss_durable p" by (auto simp: set_waypoint_def pss_durable_def)
  from assms k have "cached_safety_data p' = cached_safety_data p" by (auto simp: set_waypoint_def)
  with d show "pss_coherent p' = pss_coherent p" by (simp add: pss_coherent_def split: option.splits)
qed

lemma reconcile_key_keeps:
  assumes "reconcile_key SE es auth st = (r, st')"
  shows "sr_persistent_storage st' = sr_persistent_storage st \<and> sr_epoch_state st' = sr_epoch_state st \<and>
    sr_skip_sig_verify st' = sr_skip_sig_verify st \<and>
    (r = Ok () \<longrightarrow> (\<exists>s. sr_validator_signer st' = Some s \<and>
       get_public_key (es_verifier es) auth = Some (bls_public_key (env_crypto (se_env SE)) (vs_private_key s))))"
  using assms
  by (auto simp: reconcile_key_def Let_def consensus_sk_by_pk_def bind_Ok
    split: option.splits if_splits res.splits)

text \<open>
  Initialisation changes the safety data only to the initial one of a later epoch, and sets an epoch
  state only when the disk holds safety data of that epoch.
\<close>

lemma start_epoch_cases:
  assumes "start_epoch w new_w es e st = (r, st')" "sr_coherent st" "sr_durable st = Some d" "e = sd_epoch d"
  shows "sr_coherent st' \<and> sr_frame st st' \<and>
    (sr_durable st' = sr_durable st \<or>
     sd_epoch d < es_epoch es \<and> sr_durable st' = Some (safety_data_new (es_epoch es) 0 0 0 None 0)) \<and>
    (is_ok r \<longrightarrow> (\<exists>d'. sr_durable st' = Some d' \<and> sd_epoch d' = es_epoch es))"
proof (cases "e < es_epoch es")
  case True
  then have "\<not> es_epoch es < e" by (meson order.asym)
  with True have s: "sr_set_safety_data (safety_data_new (es_epoch es) 0 0 0 None 0) st = (r, st')"
    using assms(1) by (simp add: start_epoch_def)
  have "is_ok r \<Longrightarrow> sr_durable st' = Some (safety_data_new (es_epoch es) 0 0 0 None 0)"
    using srs.put_Ok s by (cases r) auto
  with srs.put_state [OF s] srs.put_coherent [OF s] True assms(4) show ?thesis
    by (auto simp: safety_data_new_def)
next
  case False
  with assms srs.frame_refl show ?thesis
    by (auto simp: start_epoch_def m_lift_def m_return_def not_less split: if_splits)
qed

definition initialize_leads_to :: "safety_env \<Rightarrow> epoch_change_proof \<Rightarrow> safety_rules \<Rightarrow> epoch_state \<Rightarrow> bool" where
  "initialize_leads_to SE change_proof st es \<longleftrightarrow> (\<exists>w new_w. initialize_target SE change_proof st = Ok (w, es, new_w))"

lemma initialize_cases:
  assumes "guarded_initialize SE change_proof st = (r, st')" "sr_coherent st"
  shows "sr_coherent st' \<and> sr_skip_sig_verify st' = sr_skip_sig_verify st \<and>
    (sr_durable st' = sr_durable st \<or>
     (\<exists>d es. sr_durable st = Some d \<and> initialize_leads_to SE change_proof st es \<and>
        sd_epoch d < es_epoch es \<and> sr_durable st' = Some (safety_data_new (es_epoch es) 0 0 0 None 0))) \<and>
    (sr_epoch_state st' = sr_epoch_state st \<and> \<not> is_ok r \<or>
     (\<exists>es d'. initialize_leads_to SE change_proof st es \<and> sr_epoch_state st' = Some es \<and>
        sr_durable st' = Some d' \<and> sd_epoch d' = es_epoch es \<and>
        (r = Ok () \<longrightarrow> (\<exists>auth s. pss_author (sr_persistent_storage st') = Ok auth \<and>
           sr_validator_signer st' = Some s \<and> get_public_key (es_verifier es) auth =
             Some (bls_public_key (env_crypto (se_env SE)) (vs_private_key s))))))"
  using assms(1) unfolding guarded_initialize_def
proof (cases rule: m_bind_cases)
  case ok1: (ok a s1)
  obtain w es new_w where a: "a = (w, es, new_w)" by (cases a)
  from ok1(1) have [simp]: "s1 = st" and leads: "initialize_leads_to SE change_proof st es"
    by (auto simp: m_read_def a initialize_leads_to_def)
  let ?same = "\<lambda>s. sr_coherent s \<and> sr_durable s = sr_durable st \<and> sr_epoch_state s = sr_epoch_state st \<and>
    sr_skip_sig_verify s = sr_skip_sig_verify st"
  from ok1(2) [unfolded a prod.case] show ?thesis
  proof (cases rule: m_bind_cases)
    case (fail r0)
    then have "?same st'" using assms(2) set_waypoint_keeps
      by (fastforce simp: m_if_def m_return_def with_storage_eq sr_coherent_def sr_durable_def split: if_splits)
    with fail show ?thesis by simp
  next
    case ok2: (ok u s2)
    then have same: "?same s2" using assms(2) set_waypoint_keeps
      by (fastforce simp: m_if_def m_return_def with_storage_eq sr_coherent_def sr_durable_def split: if_splits)
    from ok2(2) show ?thesis
    proof (cases rule: m_bind_cases)
      case (fail r0)
      with srs.get_state [OF fail(1)] srs.get_coherent [OF fail(1)] same show ?thesis
        by (simp add: sr_frame_def)
    next
      case ok3: (ok d s3)
      note g = srs.get_state [OF ok3(1)] srs.get_coherent [OF ok3(1)] srs.get_Ok [OF ok3(1)]
      from g same have s3: "?same s3" and d: "sr_durable s3 = Some d" "sr_durable st = Some d"
        by (auto simp: sr_frame_def)
      from ok3(2) show ?thesis
      proof (cases rule: m_bind_cases)
        case (fail r0)
        from start_epoch_cases [OF fail(1) _ d(1) refl] s3 d(2) leads fail(3) show ?thesis
          by (auto simp: sr_frame_def)
      next
        case ok4: (ok u s4)
        from start_epoch_cases [OF ok4(1) _ d(1) refl] s3 d(2)
        obtain d' where s4: "sr_coherent s4" "sr_skip_sig_verify s4 = sr_skip_sig_verify st"
          "sr_durable s4 = sr_durable st \<or>
            sd_epoch d < es_epoch es \<and> sr_durable s4 = Some (safety_data_new (es_epoch es) 0 0 0 None 0)"
          "sr_durable s4 = Some d'" "sd_epoch d' = es_epoch es"
          by (auto simp: sr_frame_def)
        let ?s5 = "s4\<lparr>sr_epoch_state := Some es\<rparr>"
        have rest: "m_bind (m_read (\<lambda>st. pss_author (sr_persistent_storage st))) (reconcile_key SE es) ?s5 = (r, st')"
          using ok4(2) by (simp add: m_bind_def m_modify_def)
        from rest have "sr_persistent_storage st' = sr_persistent_storage s4 \<and> sr_epoch_state st' = Some es \<and>
            sr_skip_sig_verify st' = sr_skip_sig_verify s4 \<and>
            (r = Ok () \<longrightarrow> (\<exists>auth s. pss_author (sr_persistent_storage s4) = Ok auth \<and>
               sr_validator_signer st' = Some s \<and> get_public_key (es_verifier es) auth =
                 Some (bls_public_key (env_crypto (se_env SE)) (vs_private_key s))))"
        proof (cases rule: m_bind_cases)
          case (ok auth s6)
          then have "s6 = ?s5" "pss_author (sr_persistent_storage s4) = Ok auth" by (auto simp: m_read_def)
          with reconcile_key_keeps [OF ok(2)] show ?thesis by auto
        qed (auto simp: m_read_def)
        with s4 leads d(2) show ?thesis by (auto simp: sr_coherent_def sr_durable_def)
      qed
    qed
  qed
qed (use assms(2) in \<open>auto simp: m_read_def\<close>)

section \<open>What the handlers require and record\<close>

lemma next_round_Ok: "next_round r = Ok n \<longleftrightarrow> unat n = Suc (unat r)"
proof -
  have "unat n < 2 ^ 64" using unsigned_less [of n, where ?'a = nat] by simp
  moreover have "unat (r + 1) = Suc (unat r)" if "Suc (unat r) < 2 ^ 64"
    using that by (simp add: unat_word_ariths)
  ultimately show ?thesis
    by (auto simp: next_round_def res_simps checked_add_Some word_unat_eq_iff)
qed

lemma observe_qc_eq:
  "snd (observe_qc qc d) =
     d\<lparr>sd_one_chain_round := max (sd_one_chain_round d) (bi_round (certified_block qc)),
       sd_preferred_round := max (sd_preferred_round d) (bi_round (parent_block qc))\<rparr>"
  by (auto simp: observe_qc_def Let_def max_def)

text \<open>The two voting rules of the two-chain protocol, on unbounded rounds.\<close>

definition follows_two_chain :: "block \<Rightarrow> two_chain_timeout_certificate option \<Rightarrow> bool" where
  "follows_two_chain b maybe_tc \<longleftrightarrow>
     (let qc_round = bi_round (certified_block (blk_quorum_cert b))
      in unat (blk_round b) = Suc (unat qc_round) \<or>
         (case maybe_tc of
            None \<Rightarrow> blk_round b = 1
          | Some tc \<Rightarrow> unat (blk_round b) = Suc (unat (tc_round tc)) \<and> highest_hqc_round tc \<le> qc_round))"

lemma safe_to_vote_Ok:
  assumes "safe_to_vote b tc = Ok u"
  shows "follows_two_chain b tc"
  using assms
  by (auto simp: safe_to_vote_def Let_def follows_two_chain_def res_simps next_round_Ok word_unat_eq_iff
    split: if_splits option.splits)

lemma construct_vote_Ok:
  assumes "construct_vote SE b tc vd d st = Ok (v, d')"
  shows "sd_last_voted_round d < blk_round b" "follows_two_chain b tc" "vote_vote_data v = vd"
    "vote_ledger_info v =
      \<lparr>li_commit_info = (if unat (blk_round b) = Suc (unat (bi_round (certified_block (blk_quorum_cert b))))
         then certified_block (blk_quorum_cert b) else block_info_empty),
       li_consensus_data_hash = hash_vote_data (se_env SE) vd\<rparr>"
    "d' = d\<lparr>sd_last_voted_round := blk_round b,
      sd_one_chain_round := max (sd_one_chain_round d) (bi_round (certified_block (blk_quorum_cert b))),
      sd_preferred_round := max (sd_preferred_round d) (bi_round (parent_block (blk_quorum_cert b))),
      sd_last_vote := Some v\<rparr>"
proof -
  from assms obtain li where *: "sd_last_voted_round d < blk_round b" "safe_to_vote b tc = Ok ()"
    "construct_ledger_info_2chain b (hash_vote_data (se_env SE) vd) = Ok li"
    "vote_vote_data v = vd" "vote_ledger_info v = li"
    "d' = (snd (observe_qc (blk_quorum_cert b) (d\<lparr>sd_last_voted_round := blk_round b\<rparr>)))\<lparr>sd_last_vote := Some v\<rparr>"
    by (auto simp: construct_vote_def Let_def bind_Ok verify_and_update_last_vote_round_def
      vote_new_with_signature_def not_le split: if_splits)
  then show "sd_last_voted_round d < blk_round b" "vote_vote_data v = vd" by simp_all
  from *(2) show "follows_two_chain b tc" by (rule safe_to_vote_Ok)
  from *(3,5) show "vote_ledger_info v =
      \<lparr>li_commit_info = (if unat (blk_round b) = Suc (unat (bi_round (certified_block (blk_quorum_cert b))))
         then certified_block (blk_quorum_cert b) else block_info_empty),
       li_consensus_data_hash = hash_vote_data (se_env SE) vd\<rparr>"
    by (auto simp: construct_ledger_info_2chain_def Let_def bind_Ok next_round_Ok word_unat_eq_iff)
  from *(6) show "d' = d\<lparr>sd_last_voted_round := blk_round b,
      sd_one_chain_round := max (sd_one_chain_round d) (bi_round (certified_block (blk_quorum_cert b))),
      sd_preferred_round := max (sd_preferred_round d) (bi_round (parent_block (blk_quorum_cert b))),
      sd_last_vote := Some v\<rparr>"
    by (simp add: observe_qc_eq)
qed

lemma proposal_checks_Ok:
  assumes "proposal_checks SE now vp d st = Ok vd"
  shows "blk_epoch (vp_block vp) = sd_epoch d" "sr_verify_qc SE st (blk_quorum_cert (vp_block vp)) = Ok ()"
    "blk_verify_well_formed now (vp_block vp) = Ok ()" "gen_vote_data (se_node_hash SE) vp = Ok vd"
  using assms by (auto simp: proposal_checks_def bind_Ok map_err_Ok verify_epoch_def split: if_splits)

lemma order_checks_Ok:
  assumes "order_checks SE ovp d st = Ok u"
  shows "blk_epoch (ovp_block ovp) = sd_epoch d" "certified_block (ovp_quorum_cert ovp) = ovp_block_info ovp"
    "bi_id (ovp_block_info ovp) = blk_id (ovp_block ovp)" "sr_verify_qc SE st (ovp_quorum_cert ovp) = Ok ()"
  using assms
  by (auto simp: order_checks_def Let_def bind_Ok ensure_iffs verify_epoch_def split: if_splits)

lemma construct_order_vote_Ok:
  assumes "construct_order_vote SE ovp d st = Ok (ov, d')"
  shows "sd_highest_timeout_round d < blk_round (ovp_block ovp)"
    "ov_ledger_info ov = \<lparr>li_commit_info = ovp_block_info ovp, li_consensus_data_hash = 0\<rparr>"
    "d' = snd (observe_qc (ovp_quorum_cert ovp) d)"
  using assms
  by (auto simp: construct_order_vote_def Let_def bind_Ok safe_for_order_vote_def observe_qc_eq
    order_vote_new_with_signature_def split: if_splits)

lemma timeout_safety_data_Ok:
  assumes "timeout_safety_data SE t tc d st = Ok d'"
  shows "to_epoch t = sd_epoch d" "sd_one_chain_round d \<le> hqc_round t" "sd_last_voted_round d \<le> to_round t"
    "d' = d\<lparr>sd_last_voted_round := to_round t,
      sd_highest_timeout_round := max (sd_highest_timeout_round d) (to_round t)\<rparr>"
proof -
  from assms have *: "verify_epoch (to_epoch t) d = Ok ()" "safe_to_timeout t tc d = Ok ()"
    "\<not> to_round t < sd_last_voted_round d"
    and d': "bind (if to_round t > sd_last_voted_round d
      then verify_and_update_last_vote_round (to_round t) d else Ok d)
      (\<lambda>d. Ok (update_highest_timeout_round t d)) = Ok d'"
    unfolding timeout_safety_data_def by (auto simp: bind_Ok ensure_iffs simp del: not_less)
  from *(1) show "to_epoch t = sd_epoch d" by (auto simp: verify_epoch_def split: if_splits)
  from *(2) show "sd_one_chain_round d \<le> hqc_round t"
    by (auto simp: safe_to_timeout_def Let_def bind_Ok split: if_splits)
  from *(3) show "sd_last_voted_round d \<le> to_round t" by simp
  from *(3) d' show "d' = d\<lparr>sd_last_voted_round := to_round t,
      sd_highest_timeout_round := max (sd_highest_timeout_round d) (to_round t)\<rparr>"
    by (auto simp: verify_and_update_last_vote_round_def update_highest_timeout_round_def max_def
      split: if_splits)
qed

section \<open>Progress of the safety data\<close>

definition sd_le :: "safety_data \<Rightarrow> safety_data \<Rightarrow> bool" where
  "sd_le d d' \<longleftrightarrow>
     sd_epoch d < sd_epoch d' \<or>
     sd_epoch d = sd_epoch d' \<and> sd_last_voted_round d \<le> sd_last_voted_round d' \<and>
     sd_preferred_round d \<le> sd_preferred_round d' \<and> sd_one_chain_round d \<le> sd_one_chain_round d' \<and>
     sd_highest_timeout_round d \<le> sd_highest_timeout_round d'"

lemma sd_le_refl [simp]: "sd_le d d"
  by (simp add: sd_le_def)

lemma sd_le_trans: "sd_le a b \<Longrightarrow> sd_le b c \<Longrightarrow> sd_le a c"
  by (auto simp: sd_le_def)

lemma sd_le_updates:
  "construct_vote SE b tc vd d st = Ok (v, d') \<Longrightarrow> sd_le d d'"
  "construct_order_vote SE ovp d st = Ok (ov, d') \<Longrightarrow> sd_le d d'"
  "timeout_safety_data SE t tc d st = Ok d' \<Longrightarrow> sd_le d d'"
proof -
  assume v: "construct_vote SE b tc vd d st = Ok (v, d')"
  from construct_vote_Ok(1,5) [OF v] show "sd_le d d'" by (simp add: sd_le_def)
next
  assume v: "construct_order_vote SE ovp d st = Ok (ov, d')"
  from construct_order_vote_Ok(3) [OF v] show "sd_le d d'" by (simp add: sd_le_def observe_qc_eq)
next
  assume v: "timeout_safety_data SE t tc d st = Ok d'"
  from timeout_safety_data_Ok(3,4) [OF v] show "sd_le d d'" by (simp add: sd_le_def)
qed

lemma handle_message_progress:
  assumes "handle_message SE now trace input st = (r, st')" "sr_coherent st"
  shows "sr_coherent st' \<and> (case sr_durable st of
      None \<Rightarrow> sr_durable st' = None | Some d \<Rightarrow> \<exists>d'. sr_durable st' = Some d' \<and> sd_le d d')"
proof (cases input)
  case ConsensusState
  with assms(1) obtain r0 where "guarded_consensus_state trace st = (r0, st')"
    by (auto elim: m_map_cases)
  with consensus_state_keeps [OF this assms(2)] show ?thesis by (simp split: option.splits)
next
  case (Initialize p)
  with assms(1) obtain r0 where "guarded_initialize SE p st = (r0, st')" by (auto elim: m_map_cases)
  from initialize_cases [OF this assms(2)] show ?thesis
    by (auto simp: sd_le_def safety_data_new_def split: option.splits)
next
  case (SignProposal bd)
  with assms(1) obtain r0 where "guarded_sign_proposal SE bd st = (r0, st')" by (auto elim: m_map_cases)
  with sign_proposal_keeps [OF this assms(2)] show ?thesis by (simp split: option.splits)
next
  case (SignTimeoutWithQC t tc)
  with assms(1) obtain r0 where "guarded_sign_timeout_with_qc SE t tc st = (r0, st')"
    by (auto elim: m_map_cases)
  from sign_timeout_cases [OF this assms(2)] show ?thesis
    by (auto dest: sd_le_updates(3) split: option.splits)
next
  case (ConstructAndSignVoteTwoChain vp tc)
  with assms(1) obtain r0 where "guarded_construct_and_sign_vote_two_chain SE now vp tc st = (r0, st')"
    by (auto elim: m_map_cases)
  from construct_and_sign_vote_cases [OF this assms(2)] show ?thesis
    by (auto dest: sd_le_updates(1) split: option.splits)
next
  case (ConstructAndSignOrderVote ovp)
  with assms(1) obtain r0 where "guarded_construct_and_sign_order_vote SE ovp st = (r0, st')"
    by (auto elim: m_map_cases)
  from construct_and_sign_order_vote_cases [OF this assms(2)] show ?thesis
    by (auto dest: sd_le_updates(2) split: option.splits)
next
  case (SignCommitVote l li)
  with assms(1) have "st' = st" by (auto simp: m_read_def elim: m_map_cases)
  with assms(2) show ?thesis by (simp split: option.splits)
qed

section \<open>Properties\<close>

text \<open>
  C3. The safety data on disk never regresses. Whatever request the safety rules handle and whatever
  it returns, also when the write of the new data reports a failure, the data on disk is of a later
  epoch afterwards, or of the same epoch with no smaller last voted, preferred, one-chain and highest
  timeout rounds; the cache still agrees with the disk.
\<close>

theorem safety_data_never_regresses:
  assumes "handle_message SE now trace_enabled input st = (r, st')" "sr_coherent st" "sr_durable st = Some d"
  shows "sr_coherent st' \<and> (\<exists>d'. sr_durable st' = Some d' \<and> sd_le d d')"
  using handle_message_progress [OF assms(1,2)] assms(3) by simp

definition sample_senv :: safety_env where
  "sample_senv = \<lparr>se_env = sample_env, se_node_hash = (\<lambda>a b. a + 2 * b), se_waypoint_hash = sample_waypoint_hash,
     se_hex_encode = (\<lambda>_. ''k'')\<rparr>"

definition sample_rules :: "safety_data \<Rightarrow> safety_rules" where
  "sample_rules d =
     \<lparr>sr_persistent_storage =
        \<lparr>enable_cached_safety_data = True, cached_safety_data = Some d,
         internal_store = sample_store\<lparr>kv_data := [SAFETY_DATA \<mapsto> VSafetyData d]\<rparr>\<rparr>,
      sr_validator_signer = Some sample_signer,
      sr_epoch_state = Some \<lparr>es_epoch = 1, es_verifier = sample_verifier\<rparr>, sr_skip_sig_verify = False\<rparr>"

definition sample_proposal :: "u64 \<Rightarrow> u64 \<Rightarrow> vote_proposal" where
  "sample_proposal r q =
     \<lparr>vp_accumulator_extension_proof = \<lparr>aep_frozen_subtree_roots = [], aep_num_leaves = 0, aep_leaves = []\<rparr>,
      vp_block = blk_of sample_env (bd_new_proposal (DirectMempool []) 1 [] r r (sample_qc q)) (Some (Signature [9])),
      vp_next_epoch_state = None, vp_decoupled_execution = True\<rparr>"

lemma sample_rules_facts:
  "sr_coherent (sample_rules d)" "sr_durable (sample_rules d) = Some d"
  by (simp_all add: sample_rules_def sr_coherent_def sr_durable_def pss_coherent_def pss_durable_def sample_store_def)

theorem safety_data_never_regresses_witness:
  "\<exists>r st' d'. handle_message sample_senv 0 False
       (ConstructAndSignVoteTwoChain (sample_proposal 3 2) None) (sample_rules (safety_data_new 1 2 0 1 None 0)) = (r, st') \<and>
     is_ok r \<and> sr_durable st' = Some d' \<and> sd_le (safety_data_new 1 2 0 1 None 0) d'"
proof -
  let ?run = "handle_message sample_senv 0 False
    (ConstructAndSignVoteTwoChain (sample_proposal 3 2) None) (sample_rules (safety_data_new 1 2 0 1 None 0))"
  obtain r st' where run: "?run = (r, st')" by fastforce
  have "is_ok (fst ?run)" by code_simp
  with run safety_data_never_regresses [OF run sample_rules_facts] show ?thesis by auto
qed

text \<open>
  C4. A vote that is returned follows the rules and is on disk. It is the last vote of the stored safety
  data and is for the round of the proposal; if it was not already on disk, then its round is above
  the last voted round, the block extends its certified parent directly or after a timeout
  certificate, the vote data names the block and its certified parent, and the ledger info commits the
  parent exactly when the rounds are consecutive.
\<close>

theorem returned_vote_follows_rules:
  assumes "guarded_construct_and_sign_vote_two_chain SE now vp tc st = (Ok v, st')" "sr_coherent st"
  shows "\<exists>d'. sr_durable st' = Some d' \<and> sd_last_vote d' = Some v \<and>
    bi_round (proposed (vote_vote_data v)) = blk_round (vp_block vp) \<and>
    (sr_durable st = Some d' \<or>
     (\<exists>d. sr_durable st = Some d \<and> sd_epoch d = blk_epoch (vp_block vp) \<and>
        sd_last_voted_round d < blk_round (vp_block vp) \<and> sd_last_voted_round d' = blk_round (vp_block vp)) \<and>
     follows_two_chain (vp_block vp) tc \<and>
     bi_id (proposed (vote_vote_data v)) = blk_id (vp_block vp) \<and>
     parent (vote_vote_data v) = certified_block (blk_quorum_cert (vp_block vp)) \<and>
     li_consensus_data_hash (vote_ledger_info v) = hash_vote_data (se_env SE) (vote_vote_data v) \<and>
     li_commit_info (vote_ledger_info v) =
       (if unat (blk_round (vp_block vp)) = Suc (unat (bi_round (parent (vote_vote_data v))))
        then parent (vote_vote_data v) else block_info_empty))"
proof -
  from construct_and_sign_vote_cases [OF assms] consider
    (earlier) d where "sr_durable st' = sr_durable st" "sr_durable st = Some d"
      "earlier_vote (vp_block vp) d = Some v"
  | (new) d vd d' where "sr_durable st = Some d" "proposal_checks SE now vp d st = Ok vd"
      "construct_vote SE (vp_block vp) tc vd d st = Ok (v, d')" "sr_durable st' = Some d'"
    by auto
  then show ?thesis
  proof cases
    case earlier
    then show ?thesis by (auto simp: earlier_vote_def split: option.splits if_splits)
  next
    case new
    note c = construct_vote_Ok [OF new(3)]
    note p = proposal_checks_Ok [OF new(2)]
    note g = gen_vote_data_Ok [OF p(4)]
    from new(1,4) c p(1) g show ?thesis by auto
  qed
qed

theorem returned_vote_follows_rules_witness:
  "\<exists>v st'. guarded_construct_and_sign_vote_two_chain sample_senv 0 (sample_proposal 3 2) None
       (sample_rules (safety_data_new 1 2 0 1 None 0)) = (Ok v, st') \<and>
     bi_round (proposed (vote_vote_data v)) = blk_round (vp_block (sample_proposal 3 2))"
proof -
  let ?run = "guarded_construct_and_sign_vote_two_chain sample_senv 0 (sample_proposal 3 2) None
    (sample_rules (safety_data_new 1 2 0 1 None 0))"
  obtain r st' where run: "?run = (r, st')" by fastforce
  have "is_ok (fst ?run)" by code_simp
  with run obtain v where v: "?run = (Ok v, st')" by (cases r) auto
  from returned_vote_follows_rules [OF v sample_rules_facts(1)] v show ?thesis by blast
qed

text \<open>
  C8. Successful initialisation. The epoch state it sets is named by a ledger info that a chain of epoch
  changes reaches from the stored waypoint, the safety data on disk is of that epoch, and the signer
  holds the private key of the public key that the epoch's validator set has for the stored author.
\<close>

theorem initialize_sound:
  assumes "guarded_initialize SE change_proof st = (Ok (), st')" "sr_coherent st"
  shows "\<exists>w l es d' auth s. pss_waypoint (sr_persistent_storage st) = Ok w \<and>
    trusts (env_crypto (se_env SE)) (se_waypoint_hash SE) (WaypointVerifier w) l \<and>
    li_next_epoch_state (liws_ledger_info l) = Some es \<and> sr_epoch_state st' = Some es \<and>
    sr_durable st' = Some d' \<and> sd_epoch d' = es_epoch es \<and>
    pss_author (sr_persistent_storage st') = Ok auth \<and> sr_validator_signer st' = Some s \<and>
    get_public_key (es_verifier es) auth = Some (bls_public_key (env_crypto (se_env SE)) (vs_private_key s))"
proof -
  from initialize_cases [OF assms] obtain es d' auth s where
    *: "initialize_leads_to SE change_proof st es" "sr_epoch_state st' = Some es"
      "sr_durable st' = Some d'" "sd_epoch d' = es_epoch es"
      "pss_author (sr_persistent_storage st') = Ok auth" "sr_validator_signer st' = Some s"
      "get_public_key (es_verifier es) auth = Some (bls_public_key (env_crypto (se_env SE)) (vs_private_key s))"
    by auto
  from *(1) obtain w l where "pss_waypoint (sr_persistent_storage st) = Ok w"
    "ecp_verify (env_crypto (se_env SE)) (se_waypoint_hash SE) change_proof (WaypointVerifier w) = Ok l"
    "li_next_epoch_state (liws_ledger_info l) = Some es"
    by (auto simp: initialize_leads_to_def initialize_target_def res_simps)
  with * ecp_verify_trusts show ?thesis by blast
qed

definition sample_fresh_rules :: safety_rules where
  "sample_fresh_rules = sr_new (pss_new (sample_store\<lparr>kv_data :=
     [SAFETY_DATA \<mapsto> VSafetyData (safety_data_new 1 9 8 8 None 9), OWNER_ACCOUNT \<mapsto> VAuthor 1,
      CONSENSUS_KEY \<mapsto> VPrivateKey (PrivateKey [1]),
      WAYPOINT \<mapsto> VWaypoint (waypoint_new_any sample_waypoint_hash (liws_ledger_info (sample_epoch_li 1 True)))]\<rparr>) True) False"

theorem initialize_sound_witness:
  "\<exists>st' es d'. guarded_initialize sample_senv
       \<lparr>ecp_ledger_info_with_sigs = [sample_epoch_li 1 True], ecp_more = False\<rparr> sample_fresh_rules = (Ok (), st') \<and>
     sr_epoch_state st' = Some es \<and> sr_durable st' = Some d' \<and> sd_epoch d' = es_epoch es"
proof -
  let ?run = "guarded_initialize sample_senv
       \<lparr>ecp_ledger_info_with_sigs = [sample_epoch_li 1 True], ecp_more = False\<rparr> sample_fresh_rules"
  obtain r st' where run: "?run = (r, st')" by fastforce
  have "is_ok (fst ?run)" by code_simp
  with run obtain u where ok: "?run = (Ok (), st')" by (cases r) auto
  have "sr_coherent sample_fresh_rules"
    by (simp add: sample_fresh_rules_def sr_new_def pss_new_def sr_coherent_def pss_coherent_def)
  from initialize_sound [OF ok this] ok show ?thesis by blast
qed

fun epoch_digest :: "'p signable \<Rightarrow> u8" where
  "epoch_digest (STimeout e r q) = ucast e + ucast q"
| "epoch_digest (SLedgerInfo li) = 7"
| "epoch_digest (SConsensus p) = 9"

definition foreign_tc :: two_chain_timeout_certificate where
  "foreign_tc =
     \<lparr>tc_timeout = \<lparr>to_epoch = 7, to_round = 4, to_quorum_cert = sample_qc 2\<rparr>,
      tc_signatures_with_rounds =
        \<lparr>aswr_sig = \<lparr>validator_bitmask = \<lparr>inner = [0xE0]\<rparr>, agg_sig = Some (Signature [54])\<rparr>,
         aswr_rounds = [2, 2, 2]\<rparr>\<rparr>"

text \<open>
  The epoch of a timeout certificate is not checked. There is a certificate of epoch 7, round 4, signed
  by validators that are also validators of epoch 1, with which the safety rules of a validator in
  epoch 1 vote for a block that skips to round 5; without the certificate they refuse. Two timeout
  certificates of different epochs thus stand for each other, although the rounds of different epochs
  are unrelated.
\<close>

theorem tc_epoch_not_checked:
  "\<exists>SE st d vp tc. sr_durable st = Some d \<and> sd_epoch d = 1 \<and> tc_epoch tc = 7 \<and>
     \<not> sr_skip_sig_verify st \<and>
     is_ok (fst (guarded_construct_and_sign_vote_two_chain SE 0 vp (Some tc) st)) \<and>
     fst (guarded_construct_and_sign_vote_two_chain SE 0 vp None st) = Err (NotSafeToVote 5 2 0 0)"
proof -
  let ?SE = "sample_senv\<lparr>se_env := sample_env\<lparr>env_crypto := linear_crypto epoch_digest\<rparr>\<rparr>"
  let ?st = "sample_rules (safety_data_new 1 2 0 1 None 0)"
  have "is_ok (fst (guarded_construct_and_sign_vote_two_chain ?SE 0 (sample_proposal 5 2) (Some foreign_tc) ?st))"
    by code_simp
  moreover have "fst (guarded_construct_and_sign_vote_two_chain ?SE 0 (sample_proposal 5 2) None ?st) =
      Err (NotSafeToVote 5 2 0 0)"
    by code_simp
  moreover have "sd_epoch (safety_data_new 1 2 0 1 None 0) = 1" "tc_epoch foreign_tc = 7"
    "\<not> sr_skip_sig_verify ?st"
    by (simp_all add: safety_data_new_def tc_epoch_def foreign_tc_def sample_rules_def)
  ultimately show ?thesis using sample_rules_facts(2) by blast
qed

end
