(* ===== verification/Two_Chain.thy ===== *)
theory Two_Chain
  imports Validator_Verifier
begin

text \<open>
  The abstract specification of the two-chain protocol with order votes: what the safety rules of a
  correct validator promise, over an arbitrary quorum system, arbitrary blocks and unbounded rounds.
  A voter remembers the highest round it voted or timed out in, the highest round it knows to be
  certified, and the highest round it timed out in. The theory shows that committed blocks form one
  chain; \<^verbatim>\<open>Agreement\<close> shows that validators which run the code behave as specified.
\<close>

section \<open>Specification\<close>

record voter =
  last_voted :: nat
  one_chain :: nat
  highest_timeout :: nat

record ('v, 'b) protocol =
  voters :: "'v \<Rightarrow> voter"
  voted :: "('v \<times> 'b \<times> 'b) set"
  ordered :: "('v \<times> 'b) set"
  timed_out :: "('v \<times> nat \<times> nat) set"

text \<open>All the correct validators of some quorum are in a set.\<close>

definition supported :: "('v set \<Rightarrow> bool) \<Rightarrow> 'v set \<Rightarrow> 'v set \<Rightarrow> bool" where
  "supported q F X \<longleftrightarrow> (\<exists>Q. q Q \<and> Q - F \<subseteq> X)"

text \<open>A quorum voted for a block with this parent.\<close>

definition cert :: "('v set \<Rightarrow> bool) \<Rightarrow> 'v set \<Rightarrow> ('v, 'b) protocol \<Rightarrow> 'b \<Rightarrow> 'b \<Rightarrow> bool" where
  "cert q F s b p \<longleftrightarrow> supported q F {v. (v, b, p) \<in> voted s}"

definition certified :: "('v set \<Rightarrow> bool) \<Rightarrow> 'v set \<Rightarrow> ('v, 'b) protocol \<Rightarrow> 'b \<Rightarrow> bool" where
  "certified q F s b \<longleftrightarrow> (\<exists>p. cert q F s b p)"

text \<open>A quorum gave up on a round, none of its correct members knowing a certified round above \<open>n\<close>.\<close>

definition gave_up :: "('v set \<Rightarrow> bool) \<Rightarrow> 'v set \<Rightarrow> ('v, 'b) protocol \<Rightarrow> nat \<Rightarrow> nat \<Rightarrow> bool" where
  "gave_up q F s r n \<longleftrightarrow> supported q F {v. \<exists>h \<le> n. (v, r, h) \<in> timed_out s}"

definition update_voter :: "'v \<Rightarrow> voter \<Rightarrow> ('v, 'b) protocol \<Rightarrow> ('v, 'b) protocol" where
  "update_voter v x s = s\<lparr>voters := (voters s)(v := x)\<rparr>"

inductive spec_step ::
    "('v set \<Rightarrow> bool) \<Rightarrow> 'v set \<Rightarrow> ('b \<Rightarrow> nat) \<Rightarrow> ('v, 'b) protocol \<Rightarrow> ('v, 'b) protocol \<Rightarrow> bool"
  for q F rnd s where
  vote: "\<lbrakk>voters s v = x; last_voted x < rnd b; rnd p < rnd b; rnd p = 0 \<or> certified q F s p;
      rnd b = Suc (rnd p) \<or> gave_up q F s (rnd b - 1) (rnd p);
      rnd b \<le> last_voted x'; max (one_chain x) (rnd p) \<le> one_chain x';
      highest_timeout x \<le> highest_timeout x'\<rbrakk>
    \<Longrightarrow> spec_step q F rnd s (update_voter v x' s\<lparr>voted := insert (v, b, p) (voted s)\<rparr>)"
| timeout: "\<lbrakk>voters s v = x; last_voted x \<le> r; one_chain x \<le> h;
      r \<le> last_voted x'; one_chain x \<le> one_chain x'; max (highest_timeout x) r \<le> highest_timeout x'\<rbrakk>
    \<Longrightarrow> spec_step q F rnd s (update_voter v x' s\<lparr>timed_out := insert (v, r, h) (timed_out s)\<rparr>)"
| order: "\<lbrakk>voters s v = x; certified q F s b; 1 \<le> rnd b; highest_timeout x < rnd b;
      last_voted x \<le> last_voted x'; max (one_chain x) (rnd b) \<le> one_chain x';
      highest_timeout x \<le> highest_timeout x'\<rbrakk>
    \<Longrightarrow> spec_step q F rnd s (update_voter v x' s\<lparr>ordered := insert (v, b) (ordered s)\<rparr>)"
| advance: "\<lbrakk>voters s v = x; last_voted x \<le> last_voted x'; one_chain x \<le> one_chain x';
      highest_timeout x \<le> highest_timeout x'\<rbrakk>
    \<Longrightarrow> spec_step q F rnd s (update_voter v x' s)"

definition spec_init :: "('v, 'b) protocol \<Rightarrow> bool" where
  "spec_init s \<longleftrightarrow> voted s = {} \<and> ordered s = {} \<and> timed_out s = {}"

inductive spec_reachable ::
    "('v set \<Rightarrow> bool) \<Rightarrow> 'v set \<Rightarrow> ('b \<Rightarrow> nat) \<Rightarrow> ('v, 'b) protocol \<Rightarrow> bool"
  for q F rnd where
  init: "spec_init s \<Longrightarrow> spec_reachable q F rnd s"
| step: "spec_reachable q F rnd s \<Longrightarrow> spec_step q F rnd s s' \<Longrightarrow> spec_reachable q F rnd s'"

text \<open>
  The two ways to commit a block: a quorum votes for a child of it in the next round, or a quorum
  sends order votes for it.
\<close>

definition committed ::
    "('v set \<Rightarrow> bool) \<Rightarrow> 'v set \<Rightarrow> ('b \<Rightarrow> nat) \<Rightarrow> ('v, 'b) protocol \<Rightarrow> 'b \<Rightarrow> bool" where
  "committed q F rnd s b \<longleftrightarrow>
     1 \<le> rnd b \<and>
     ((\<exists>c. cert q F s c b \<and> rnd c = Suc (rnd b)) \<or> supported q F {v. (v, b) \<in> ordered s})"

definition parent_link :: "('v set \<Rightarrow> bool) \<Rightarrow> 'v set \<Rightarrow> ('v, 'b) protocol \<Rightarrow> ('b \<times> 'b) set" where
  "parent_link q F s = {(p, b). cert q F s b p}"

section \<open>Invariant\<close>

definition votes_inv :: "('v set \<Rightarrow> bool) \<Rightarrow> 'v set \<Rightarrow> ('b \<Rightarrow> nat) \<Rightarrow> ('v, 'b) protocol \<Rightarrow> bool" where
  "votes_inv q F rnd s \<longleftrightarrow>
     (\<forall>v b p. (v, b, p) \<in> voted s \<longrightarrow>
        rnd b \<le> last_voted (voters s v) \<and> rnd p \<le> one_chain (voters s v) \<and> rnd p < rnd b \<and>
        (rnd p = 0 \<or> certified q F s p) \<and>
        (rnd b = Suc (rnd p) \<or> gave_up q F s (rnd b - 1) (rnd p)))"

definition timeouts_inv :: "('v, 'b) protocol \<Rightarrow> bool" where
  "timeouts_inv s \<longleftrightarrow>
     (\<forall>v r h. (v, r, h) \<in> timed_out s \<longrightarrow>
        r \<le> last_voted (voters s v) \<and> r \<le> highest_timeout (voters s v))"

definition orders_inv :: "('v set \<Rightarrow> bool) \<Rightarrow> 'v set \<Rightarrow> ('b \<Rightarrow> nat) \<Rightarrow> ('v, 'b) protocol \<Rightarrow> bool" where
  "orders_inv q F rnd s \<longleftrightarrow>
     (\<forall>v b. (v, b) \<in> ordered s \<longrightarrow> rnd b \<le> one_chain (voters s v) \<and> certified q F s b)"

definition one_vote_per_round :: "('b \<Rightarrow> nat) \<Rightarrow> ('v, 'b) protocol \<Rightarrow> bool" where
  "one_vote_per_round rnd s \<longleftrightarrow>
     (\<forall>v b p b' p'. (v, b, p) \<in> voted s \<longrightarrow> (v, b', p') \<in> voted s \<longrightarrow> rnd b = rnd b' \<longrightarrow> b = b' \<and> p = p')"

definition timeouts_respect_votes :: "('b \<Rightarrow> nat) \<Rightarrow> ('v, 'b) protocol \<Rightarrow> bool" where
  "timeouts_respect_votes rnd s \<longleftrightarrow>
     (\<forall>v b p r h. (v, b, p) \<in> voted s \<longrightarrow> (v, r, h) \<in> timed_out s \<longrightarrow> rnd b \<le> r \<longrightarrow> rnd p \<le> h)"

definition timeouts_respect_orders :: "('b \<Rightarrow> nat) \<Rightarrow> ('v, 'b) protocol \<Rightarrow> bool" where
  "timeouts_respect_orders rnd s \<longleftrightarrow>
     (\<forall>v b r h. (v, b) \<in> ordered s \<longrightarrow> (v, r, h) \<in> timed_out s \<longrightarrow> rnd b \<le> r \<longrightarrow> rnd b \<le> h)"

definition spec_inv :: "('v set \<Rightarrow> bool) \<Rightarrow> 'v set \<Rightarrow> ('b \<Rightarrow> nat) \<Rightarrow> ('v, 'b) protocol \<Rightarrow> bool" where
  "spec_inv q F rnd s \<longleftrightarrow>
     votes_inv q F rnd s \<and> timeouts_inv s \<and> orders_inv q F rnd s \<and> one_vote_per_round rnd s \<and>
     timeouts_respect_votes rnd s \<and> timeouts_respect_orders rnd s"

lemmas spec_inv_defs = spec_inv_def votes_inv_def timeouts_inv_def orders_inv_def one_vote_per_round_def
  timeouts_respect_votes_def timeouts_respect_orders_def

lemma supported_mono: "supported q F X \<Longrightarrow> X \<subseteq> Y \<Longrightarrow> supported q F Y"
  unfolding supported_def by blast

lemma certified_mono: "certified q F s b \<Longrightarrow> voted s \<subseteq> voted s' \<Longrightarrow> certified q F s' b"
  unfolding certified_def cert_def by (blast intro: supported_mono)

lemma gave_up_mono: "gave_up q F s r n \<Longrightarrow> timed_out s \<subseteq> timed_out s' \<Longrightarrow> gave_up q F s' r n"
  unfolding gave_up_def by (blast intro: supported_mono)

lemma gave_up_le:
  assumes "gave_up q F s r n" "n \<le> m"
  shows "gave_up q F s r m"
proof -
  have "{v. \<exists>h \<le> n. (v, r, h) \<in> timed_out s} \<subseteq> {v. \<exists>h \<le> m. (v, r, h) \<in> timed_out s}"
    using assms(2) order_trans by blast
  with assms(1) show ?thesis unfolding gave_up_def by (rule supported_mono)
qed

lemma update_voter_commute:
  "update_voter v x (s\<lparr>voted := V\<rparr>) = update_voter v x s\<lparr>voted := V\<rparr>"
  "update_voter v x (s\<lparr>timed_out := T\<rparr>) = update_voter v x s\<lparr>timed_out := T\<rparr>"
  "update_voter v x (s\<lparr>ordered := B\<rparr>) = update_voter v x s\<lparr>ordered := B\<rparr>"
  by (simp_all add: update_voter_def)

lemma spec_step_mono:
  assumes "spec_step q F rnd s s'"
  shows "voted s \<subseteq> voted s' \<and> timed_out s \<subseteq> timed_out s' \<and> ordered s \<subseteq> ordered s'"
  using assms by cases (auto simp: update_voter_def)

lemma spec_init_inv: "spec_init s \<Longrightarrow> spec_inv q F rnd s"
  by (simp add: spec_init_def spec_inv_defs)

lemma spec_step_grows:
  assumes "spec_step q F rnd s s'"
  shows "last_voted (voters s v) \<le> last_voted (voters s' v) \<and>
    one_chain (voters s v) \<le> one_chain (voters s' v) \<and>
    highest_timeout (voters s v) \<le> highest_timeout (voters s' v)"
  using assms by cases (auto simp: update_voter_def)

lemma votes_inv_step:
  assumes "spec_step q F rnd s s'" "votes_inv q F rnd s"
  shows "votes_inv q F rnd s'"
  unfolding votes_inv_def
proof (intro allI impI)
  fix v b p
  assume new: "(v, b, p) \<in> voted s'"
  note mono = spec_step_mono [OF assms(1)] and grows = spec_step_grows [OF assms(1), of v]
  have cm: "certified q F s p \<Longrightarrow> certified q F s' p" using mono certified_mono [of q F s p s'] by simp
  have gm: "gave_up q F s (rnd b - 1) (rnd p) \<Longrightarrow> gave_up q F s' (rnd b - 1) (rnd p)"
    using mono gave_up_mono [of q F s _ _ s'] by simp
  show "rnd b \<le> last_voted (voters s' v) \<and> rnd p \<le> one_chain (voters s' v) \<and> rnd p < rnd b \<and>
      (rnd p = 0 \<or> certified q F s' p) \<and> (rnd b = Suc (rnd p) \<or> gave_up q F s' (rnd b - 1) (rnd p))"
  proof (cases "(v, b, p) \<in> voted s")
    case True
    with assms(2) have "rnd b \<le> last_voted (voters s v) \<and> rnd p \<le> one_chain (voters s v) \<and>
        rnd p < rnd b \<and> (rnd p = 0 \<or> certified q F s p) \<and>
        (rnd b = Suc (rnd p) \<or> gave_up q F s (rnd b - 1) (rnd p))"
      unfolding votes_inv_def by blast
    with cm gm grows show ?thesis by auto
  next
    case False
    from assms(1) show ?thesis
    proof cases
      case (vote w x c d x')
      with new False cm gm show ?thesis by (auto simp: update_voter_def)
    qed (use new False in \<open>simp_all add: update_voter_def\<close>)
  qed
qed

lemma timeouts_inv_step:
  assumes "spec_step q F rnd s s'" "timeouts_inv s"
  shows "timeouts_inv s'"
  unfolding timeouts_inv_def
proof (intro allI impI)
  fix v r h
  assume new: "(v, r, h) \<in> timed_out s'"
  note grows = spec_step_grows [OF assms(1), of v]
  show "r \<le> last_voted (voters s' v) \<and> r \<le> highest_timeout (voters s' v)"
  proof (cases "(v, r, h) \<in> timed_out s")
    case True
    with assms(2) have "r \<le> last_voted (voters s v) \<and> r \<le> highest_timeout (voters s v)"
      unfolding timeouts_inv_def by blast
    with grows show ?thesis by auto
  next
    case False
    from assms(1) new False show ?thesis by cases (auto simp: update_voter_def)
  qed
qed

lemma orders_inv_step:
  assumes "spec_step q F rnd s s'" "orders_inv q F rnd s"
  shows "orders_inv q F rnd s'"
  unfolding orders_inv_def
proof (intro allI impI)
  fix v b
  assume new: "(v, b) \<in> ordered s'"
  note grows = spec_step_grows [OF assms(1), of v]
  have cm: "certified q F s b \<Longrightarrow> certified q F s' b"
    using spec_step_mono [OF assms(1)] certified_mono [of q F s b s'] by simp
  show "rnd b \<le> one_chain (voters s' v) \<and> certified q F s' b"
  proof (cases "(v, b) \<in> ordered s")
    case True
    with assms(2) have "rnd b \<le> one_chain (voters s v) \<and> certified q F s b"
      unfolding orders_inv_def by blast
    with cm grows show ?thesis by auto
  next
    case False
    from assms(1) new False cm show ?thesis by cases (auto simp: update_voter_def)
  qed
qed

text \<open>A vote is for a round above every earlier vote and timeout of the voter.\<close>

lemma vote_is_later:
  assumes "votes_inv q F rnd s" "timeouts_inv s" "last_voted (voters s v) < n"
  shows "(v, b, p) \<in> voted s \<Longrightarrow> rnd b < n" "(v, r, h) \<in> timed_out s \<Longrightarrow> r < n"
  using assms le_less_trans unfolding votes_inv_def timeouts_inv_def by - (blast intro: le_less_trans)+

lemma one_vote_per_round_step:
  assumes "spec_step q F rnd s s'" "spec_inv q F rnd s"
  shows "one_vote_per_round rnd s'"
  using assms(1)
proof cases
  case (vote v x b p x')
  with assms(2) have "(v, b', p') \<in> voted s \<Longrightarrow> rnd b' < rnd b" for b' p'
    by (auto simp: spec_inv_def dest: vote_is_later)
  with vote assms(2) show ?thesis by (fastforce simp: spec_inv_def one_vote_per_round_def update_voter_def)
qed (use assms(2) in \<open>auto simp: spec_inv_def one_vote_per_round_def update_voter_def\<close>)

lemma timeouts_respect_votes_step:
  assumes "spec_step q F rnd s s'" "spec_inv q F rnd s"
  shows "timeouts_respect_votes rnd s'"
  using assms(1)
proof cases
  case (vote v x b p x')
  with assms(2) have "(v, r, h) \<in> timed_out s \<Longrightarrow> r < rnd b" for r h
    by (auto simp: spec_inv_def dest: vote_is_later)
  with vote assms(2) show ?thesis
    by (fastforce simp: spec_inv_def timeouts_respect_votes_def update_voter_def)
next
  case (timeout v x r h x')
  with assms(2) have "(v, b, p) \<in> voted s \<Longrightarrow> rnd p \<le> h" for b p
    unfolding spec_inv_def votes_inv_def by (meson order_trans)
  with timeout assms(2) show ?thesis
    by (fastforce simp: spec_inv_def timeouts_respect_votes_def update_voter_def)
qed (use assms(2) in \<open>auto simp: spec_inv_def timeouts_respect_votes_def update_voter_def\<close>)

lemma timeouts_respect_orders_step:
  assumes "spec_step q F rnd s s'" "spec_inv q F rnd s"
  shows "timeouts_respect_orders rnd s'"
  using assms(1)
proof cases
  case (order v x b x')
  with assms(2) have "(v, r, h) \<in> timed_out s \<Longrightarrow> r < rnd b" for r h
    unfolding spec_inv_def timeouts_inv_def by (meson le_less_trans)
  with order assms(2) show ?thesis
    by (fastforce simp: spec_inv_def timeouts_respect_orders_def update_voter_def)
next
  case (timeout v x r h x')
  with assms(2) have "(v, b) \<in> ordered s \<Longrightarrow> rnd b \<le> h" for b
    unfolding spec_inv_def orders_inv_def by (meson order_trans)
  with timeout assms(2) show ?thesis
    by (fastforce simp: spec_inv_def timeouts_respect_orders_def update_voter_def)
qed (use assms(2) in \<open>auto simp: spec_inv_def timeouts_respect_orders_def update_voter_def\<close>)

lemma spec_step_inv:
  assumes "spec_step q F rnd s s'" "spec_inv q F rnd s"
  shows "spec_inv q F rnd s'"
  unfolding spec_inv_def [of q F rnd s']
proof (intro conjI)
  from assms(2) have inv: "votes_inv q F rnd s" "timeouts_inv s" "orders_inv q F rnd s"
    by (simp_all add: spec_inv_def)
  from assms(1) inv(1) show "votes_inv q F rnd s'" by (rule votes_inv_step)
  from assms(1) inv(2) show "timeouts_inv s'" by (rule timeouts_inv_step)
  from assms(1) inv(3) show "orders_inv q F rnd s'" by (rule orders_inv_step)
  from assms show "one_vote_per_round rnd s'" by (rule one_vote_per_round_step)
  from assms show "timeouts_respect_votes rnd s'" by (rule timeouts_respect_votes_step)
  from assms show "timeouts_respect_orders rnd s'" by (rule timeouts_respect_orders_step)
qed

lemma spec_reachable_inv: "spec_reachable q F rnd s \<Longrightarrow> spec_inv q F rnd s"
  by (induction rule: spec_reachable.induct) (auto intro: spec_init_inv spec_step_inv)

section \<open>Committed blocks form one chain\<close>

text \<open>What is shown here holds for every configuration of a quorum system.\<close>

context quorum_system
begin

lemma supported_member:
  assumes "tolerated c F" "supported (quorum c) F X" "supported (quorum c) F Y"
  shows "\<exists>v. v \<notin> F \<and> v \<in> X \<and> v \<in> Y"
proof -
  from assms(2,3) obtain A B where A: "quorum c A" "A - F \<subseteq> X" and B: "quorum c B" "B - F \<subseteq> Y"
    unfolding supported_def by blast
  from intersection [OF A(1) B(1) assms(1)] A(2) B(2) show ?thesis by blast
qed

lemma cert_unique:
  assumes "tolerated c F" "spec_inv (quorum c) F rnd s"
    "cert (quorum c) F s b p" "cert (quorum c) F s b' p'" "rnd b = rnd b'"
  shows "b = b' \<and> p = p'"
proof -
  from supported_member [OF assms(1) assms(3,4) [unfolded cert_def]]
  obtain v where "(v, b, p) \<in> voted s" "(v, b', p') \<in> voted s" by blast
  with assms(2,5) show ?thesis unfolding spec_inv_def one_vote_per_round_def by blast
qed

lemma cert_parent:
  assumes "tolerated c F" "spec_inv (quorum c) F rnd s" "cert (quorum c) F s b p"
  shows "rnd p < rnd b \<and> (rnd p = 0 \<or> certified (quorum c) F s p)"
proof -
  from supported_member [OF assms(1) assms(3,3) [unfolded cert_def]]
  obtain v where "(v, b, p) \<in> voted s" by blast
  with assms(2) show ?thesis unfolding spec_inv_def votes_inv_def by blast
qed

lemma committed_certified:
  assumes "tolerated c F" "spec_inv (quorum c) F rnd s" "committed (quorum c) F rnd s b"
  shows "certified (quorum c) F s b"
proof -
  from assms(3) consider
    (child) d where "1 \<le> rnd b" "cert (quorum c) F s d b"
  | (order) "supported (quorum c) F {v. (v, b) \<in> ordered s}"
    unfolding committed_def by blast
  then show ?thesis
  proof cases
    case child
    with cert_parent [OF assms(1,2) child(2)] show ?thesis by simp
  next
    case order
    from supported_member [OF assms(1) order order] assms(2) show ?thesis
      unfolding spec_inv_def orders_inv_def by blast
  qed
qed

text \<open>The key step: a certified block above a committed one does not have a parent below it.\<close>

lemma parent_not_below:
  assumes F: "tolerated c F" and inv: "spec_inv (quorum c) F rnd s"
    and com: "committed (quorum c) F rnd s b"
    and cert: "cert (quorum c) F s b' p'" and above: "rnd b < rnd b'"
  shows "rnd b \<le> rnd p'"
proof -
  from supported_member [OF F cert [unfolded cert_def] cert [unfolded cert_def]]
  obtain v where "(v, b', p') \<in> voted s" by blast
  with inv consider "rnd b' = Suc (rnd p')" | "gave_up (quorum c) F s (rnd b' - 1) (rnd p')"
    unfolding spec_inv_def votes_inv_def by blast
  then show ?thesis
  proof cases
    case 1
    with above show ?thesis by simp
  next
    case 2
    note gave = 2 [unfolded gave_up_def]
    from com consider
      (child) d where "cert (quorum c) F s d b" "rnd d = Suc (rnd b)"
    | (order) "supported (quorum c) F {v. (v, b) \<in> ordered s}"
      unfolding committed_def by blast
    then show ?thesis
    proof cases
      case child
      show ?thesis
      proof (cases "rnd b' = rnd d")
        case True
        with cert_unique [OF F inv cert child(1)] show ?thesis by simp
      next
        case False
        with above child(2) have later: "rnd d \<le> rnd b' - 1" by simp
        from supported_member [OF F child(1) [unfolded cert_def] gave]
        obtain w h where "(w, d, b) \<in> voted s" "(w, rnd b' - 1, h) \<in> timed_out s" "h \<le> rnd p'" by blast
        with inv later show ?thesis
          unfolding spec_inv_def timeouts_respect_votes_def by (meson order_trans)
      qed
    next
      case order
      from above have later: "rnd b \<le> rnd b' - 1" by simp
      from supported_member [OF F order gave]
      obtain w h where "(w, b) \<in> ordered s" "(w, rnd b' - 1, h) \<in> timed_out s" "h \<le> rnd p'" by blast
      with inv later show ?thesis
        unfolding spec_inv_def timeouts_respect_orders_def by (meson order_trans)
    qed
  qed
qed

lemma committed_below:
  assumes F: "tolerated c F" and inv: "spec_inv (quorum c) F rnd s"
    and com: "committed (quorum c) F rnd s b"
    and cert: "certified (quorum c) F s b'" and le: "rnd b \<le> rnd b'"
  shows "(b, b') \<in> (parent_link (quorum c) F s)\<^sup>*"
  using cert le
proof (induction "rnd b'" arbitrary: b' rule: less_induct)
  case less
  then obtain p' where p': "cert (quorum c) F s b' p'" unfolding certified_def by blast
  show ?case
  proof (cases "rnd b = rnd b'")
    case True
    from committed_certified [OF F inv com] obtain p where "cert (quorum c) F s b p"
      unfolding certified_def by blast
    from cert_unique [OF F inv this p' True] show ?thesis by simp
  next
    case False
    with less.prems(2) have above: "rnd b < rnd b'" by simp
    note below = parent_not_below [OF F inv com p' above]
    moreover have "1 \<le> rnd b" using com by (simp add: committed_def)
    ultimately have "certified (quorum c) F s p'" "rnd p' < rnd b'"
      using cert_parent [OF F inv p'] by auto
    from less.hyps [OF this(2,1) below] p' show ?thesis
      by (auto simp: parent_link_def intro: rtrancl_into_rtrancl)
  qed
qed

lemma committed_same_round:
  assumes "tolerated c F" "spec_reachable (quorum c) F rnd s"
    "committed (quorum c) F rnd s b" "committed (quorum c) F rnd s b'" "rnd b = rnd b'"
  shows "b = b'"
proof -
  note inv = spec_reachable_inv [OF assms(2)]
  from committed_certified [OF assms(1) inv assms(3)] committed_certified [OF assms(1) inv assms(4)]
  obtain p p' where "cert (quorum c) F s b p" "cert (quorum c) F s b' p'" unfolding certified_def by blast
  from cert_unique [OF assms(1) inv this assms(5)] show ?thesis ..
qed

lemma committed_chain:
  assumes "tolerated c F" "spec_reachable (quorum c) F rnd s"
    "committed (quorum c) F rnd s b" "committed (quorum c) F rnd s b'" "rnd b \<le> rnd b'"
  shows "(b, b') \<in> (parent_link (quorum c) F s)\<^sup>*"
  using committed_below [OF assms(1) spec_reachable_inv [OF assms(2)] assms(3) _ assms(5)]
    committed_certified [OF assms(1) spec_reachable_inv [OF assms(2)] assms(4)] by blast

end

end
