(* ===== verification/Agreement.thy ===== *)
theory Agreement
  imports Safety_Rules Two_Chain
begin

text \<open>
  A network of validators that run the safety rules, and its agreement. The correct validators handle
  requests through \<^const>\<open>handle_message\<close>, are restarted, and have storages that fail; everything else,
  the faulty validators and the messages in transit, is the adversary's choice, who can only not forge
  signatures of correct validators. The network is related to the specification of \<^verbatim>\<open>Two_Chain\<close>: every
  step is a step of the specification or invisible in it. Hence two ledger infos that a quorum has
  signed commit blocks of one chain.
\<close>

section \<open>Network\<close>

text \<open>
  One epoch with its validator set and its faulty validators. \<open>sg_vote_data\<close> and \<open>sg_block_data\<close> are the
  vote data and the block data that occur in a run; the hash functions have no collisions on them.
\<close>

record setting =
  sg_env :: safety_env
  sg_epoch :: u64
  sg_verifier :: validator_verifier
  sg_faulty :: "author set"
  sg_vote_data :: "vote_data set"
  sg_block_data :: "block_data set"

abbreviation sg_quorum :: "setting \<Rightarrow> author set \<Rightarrow> bool" where
  "sg_quorum S \<equiv> is_quorum (sg_verifier S)"

abbreviation sg_cenv :: "setting \<Rightarrow> consensus_env" where
  "sg_cenv S \<equiv> se_env (sg_env S)"

abbreviation sg_hash :: "setting \<Rightarrow> vote_data \<Rightarrow> hash_value" where
  "sg_hash S \<equiv> hash_vote_data (sg_cenv S)"

definition sound_setting :: "setting \<Rightarrow> bool" where
  "sound_setting S \<longleftrightarrow>
     wf_verifier (sg_verifier S) \<and> tolerates (sg_verifier S) (sg_faulty S) \<and>
     aggregate_lengths (env_crypto (sg_cenv S)) \<and>
     inj_on (sg_hash S) (sg_vote_data S) \<and> 0 \<notin> sg_hash S ` sg_vote_data S \<and>
     inj_on (hash_block (sg_cenv S)) (bd_preimage ` sg_block_data S)"

text \<open>The validators, with what the correct ones have signed in the epoch.\<close>

record network =
  nodes :: "author \<Rightarrow> safety_rules"
  votes :: "(author \<times> vote_data) set"
  orders :: "(author \<times> block_info) set"
  timeouts :: "(author \<times> round \<times> round) set"
  signed :: "(author \<times> ledger_info) set"

text \<open>Signatures of correct validators are not forged.\<close>

definition unforged :: "setting \<Rightarrow> network \<Rightarrow> ledger_info_with_signatures \<Rightarrow> bool" where
  "unforged S g l \<longleftrightarrow>
     certifies (env_crypto (sg_cenv S)) (sg_verifier S) (SLedgerInfo (liws_ledger_info l)) (liws_signatures l)
     \<longrightarrow> (\<forall>a \<in> signer_set (sg_verifier S) (liws_signatures l).
           a \<notin> sg_faulty S \<longrightarrow> (a, liws_ledger_info l) \<in> signed g)"

definition genuine_qc :: "setting \<Rightarrow> network \<Rightarrow> quorum_cert \<Rightarrow> bool" where
  "genuine_qc S g qc \<longleftrightarrow> qc_vote_data qc \<in> sg_vote_data S \<and> unforged S g (qc_signed_ledger_info qc)"

text \<open>
  The safety rules do not check the epoch of a timeout certificate; their callers do, when they verify
  the \<^verbatim>\<open>SyncInfo\<close> or the message that brings it.
\<close>

definition genuine_tc :: "setting \<Rightarrow> network \<Rightarrow> two_chain_timeout_certificate \<Rightarrow> bool" where
  "genuine_tc S g tc \<longleftrightarrow>
     tc_epoch tc = sg_epoch S \<and>
     (tc_verify (sg_cenv S) tc (sg_verifier S) = Ok () \<longrightarrow>
        (\<forall>(a, h) \<in> set (tc_claims (sg_verifier S) tc). a \<notin> sg_faulty S \<longrightarrow> (a, tc_round tc, h) \<in> timeouts g))"

text \<open>A block that was deserialised has the hash of its data as its id.\<close>

definition known_block :: "setting \<Rightarrow> block \<Rightarrow> bool" where
  "known_block S b \<longleftrightarrow> blk_block_data b \<in> sg_block_data S \<and> blk_id b = bd_hash (sg_cenv S) (blk_block_data b)"

text \<open>
  What a request may contain. An epoch change proof leads to the epoch; the ledger info of a commit vote
  has the consensus data hash of the ordered one, as its callers build it.
\<close>

fun admissible :: "setting \<Rightarrow> network \<Rightarrow> author \<Rightarrow> safety_rules_input \<Rightarrow> bool" where
  "admissible S g a (Initialize change_proof) \<longleftrightarrow>
     (\<forall>es. initialize_leads_to (sg_env S) change_proof (nodes g a) es \<longrightarrow>
        es = \<lparr>es_epoch = sg_epoch S, es_verifier = sg_verifier S\<rparr>)"
| "admissible S g a (ConstructAndSignVoteTwoChain vp maybe_tc) \<longleftrightarrow>
     known_block S (vp_block vp) \<and> genuine_qc S g (blk_quorum_cert (vp_block vp)) \<and>
     (case maybe_tc of None \<Rightarrow> True | Some tc \<Rightarrow> genuine_tc S g tc) \<and>
     (\<forall>vd. gen_vote_data (se_node_hash (sg_env S)) vp = Ok vd \<longrightarrow> vd \<in> sg_vote_data S)"
| "admissible S g a (ConstructAndSignOrderVote ovp) \<longleftrightarrow>
     known_block S (ovp_block ovp) \<and> genuine_qc S g (ovp_quorum_cert ovp)"
| "admissible S g a (SignCommitVote l new_ledger_info) \<longleftrightarrow>
     unforged S g l \<and>
     li_consensus_data_hash new_ledger_info = li_consensus_data_hash (liws_ledger_info l)"
| "admissible S g a (SignTimeoutWithQC t maybe_tc) \<longleftrightarrow> True"
| "admissible S g a (SignProposal bd) \<longleftrightarrow> True"
| "admissible S g a ConsensusState \<longleftrightarrow> True"

text \<open>
  The votes that a request may have released: the one returned, and the one on disk when the write took
  effect but reported a failure.
\<close>

definition released_votes ::
    "(sr_error, safety_rules_output) res \<Rightarrow> safety_rules \<Rightarrow> safety_rules \<Rightarrow> vote set" where
  "released_votes r st st' =
     {v. r = Ok (OutVote v) \<or>
         sr_durable st' \<noteq> sr_durable st \<and> (\<exists>d'. sr_durable st' = Some d' \<and> sd_last_vote d' = Some v)}"

fun record_events ::
    "author \<Rightarrow> safety_rules_input \<Rightarrow> (sr_error, safety_rules_output) res \<Rightarrow> safety_rules \<Rightarrow> safety_rules
       \<Rightarrow> network \<Rightarrow> network" where
  "record_events a (ConstructAndSignVoteTwoChain vp maybe_tc) r st st' g =
     g\<lparr>votes := votes g \<union> {a} \<times> vote_vote_data ` released_votes r st st',
       signed := signed g \<union> {a} \<times> vote_ledger_info ` released_votes r st st'\<rparr>"
| "record_events a (ConstructAndSignOrderVote ovp) r st st' g =
     (case r of
        Ok (OutOrderVote ov) \<Rightarrow>
          g\<lparr>orders := insert (a, li_commit_info (ov_ledger_info ov)) (orders g),
            signed := insert (a, ov_ledger_info ov) (signed g)\<rparr>
      | _ \<Rightarrow> g)"
| "record_events a (SignTimeoutWithQC t maybe_tc) r st st' g =
     (if is_ok r then g\<lparr>timeouts := insert (a, to_round t, hqc_round t) (timeouts g)\<rparr> else g)"
| "record_events a (SignCommitVote l new_ledger_info) r st st' g =
     (if is_ok r then g\<lparr>signed := insert (a, new_ledger_info) (signed g)\<rparr> else g)"
| "record_events a (Initialize change_proof) r st st' g = g"
| "record_events a (SignProposal bd) r st st' g = g"
| "record_events a ConsensusState r st st' g = g"

definition update_node :: "author \<Rightarrow> safety_rules \<Rightarrow> network \<Rightarrow> network" where
  "update_node a st g = g\<lparr>nodes := (nodes g)(a := st)\<rparr>"

text \<open>A restart keeps the store; a change of the failures of a store keeps its contents.\<close>

definition restarted :: "safety_rules \<Rightarrow> safety_rules" where
  "restarted st =
     sr_new (pss_new (internal_store (sr_persistent_storage st))
       (enable_cached_safety_data (sr_persistent_storage st))) (sr_skip_sig_verify st)"

definition with_faults ::
    "(string \<Rightarrow> storage_error option) \<Rightarrow> (string \<Rightarrow> (storage_error \<times> bool) option) \<Rightarrow> safety_rules \<Rightarrow> safety_rules"
where
  "with_faults gf sf st =
     (let p = sr_persistent_storage st
      in st\<lparr>sr_persistent_storage :=
           p\<lparr>internal_store := (internal_store p)\<lparr>kv_get_fault := gf, kv_set_fault := sf\<rparr>\<rparr>\<rparr>)"

inductive net_step :: "setting \<Rightarrow> network \<Rightarrow> network \<Rightarrow> bool" for S g where
  request: "\<lbrakk>a \<notin> sg_faulty S; admissible S g a input;
      handle_message (sg_env S) now trace_enabled input (nodes g a) = (r, st')\<rbrakk>
    \<Longrightarrow> net_step S g (update_node a st' (record_events a input r (nodes g a) st' g))"
| restart: "a \<notin> sg_faulty S \<Longrightarrow> net_step S g (update_node a (restarted (nodes g a)) g)"
| faults: "a \<notin> sg_faulty S \<Longrightarrow> net_step S g (update_node a (with_faults gf sf (nodes g a)) g)"

text \<open>
  At the beginning the correct validators have not been initialised for the epoch, their safety data is
  of an earlier epoch or the initial one of this epoch, and they verify signatures.
\<close>

definition fresh_node :: "u64 \<Rightarrow> safety_rules \<Rightarrow> bool" where
  "fresh_node e st \<longleftrightarrow>
     sr_coherent st \<and> \<not> sr_skip_sig_verify st \<and> sr_epoch_state st = None \<and>
     (case sr_durable st of
        None \<Rightarrow> True
      | Some d \<Rightarrow> sd_epoch d < e \<or> d = safety_data_new e 0 0 0 None 0)"

definition net_init :: "setting \<Rightarrow> network \<Rightarrow> bool" where
  "net_init S g \<longleftrightarrow>
     votes g = {} \<and> orders g = {} \<and> timeouts g = {} \<and> signed g = {} \<and>
     (\<forall>a. a \<notin> sg_faulty S \<longrightarrow> fresh_node (sg_epoch S) (nodes g a))"

inductive net_reachable :: "setting \<Rightarrow> network \<Rightarrow> bool" for S where
  init: "net_init S g \<Longrightarrow> net_reachable S g"
| step: "net_reachable S g \<Longrightarrow> net_step S g g' \<Longrightarrow> net_reachable S g'"

section \<open>Abstraction\<close>

definition rnd :: "block_info \<Rightarrow> nat" where
  "rnd b = unat (bi_round b)"

definition abs_data :: "u64 \<Rightarrow> safety_data option \<Rightarrow> voter" where
  "abs_data e x =
     (case x of
        Some d \<Rightarrow>
          if sd_epoch d = e
          then \<lparr>last_voted = unat (sd_last_voted_round d), one_chain = unat (sd_one_chain_round d),
                highest_timeout = unat (sd_highest_timeout_round d)\<rparr>
          else \<lparr>last_voted = 0, one_chain = 0, highest_timeout = 0\<rparr>
      | None \<Rightarrow> \<lparr>last_voted = 0, one_chain = 0, highest_timeout = 0\<rparr>)"

definition abs_net :: "setting \<Rightarrow> network \<Rightarrow> (author, block_info) protocol" where
  "abs_net S g =
     \<lparr>voters = (\<lambda>a. abs_data (sg_epoch S) (sr_durable (nodes g a))),
      voted = {(a, b, p). (a, \<lparr>proposed = b, parent = p\<rparr>) \<in> votes g},
      ordered = {(a, b). (a, b) \<in> orders g \<and> bi_round b \<noteq> 0},
      timed_out = (\<lambda>(a, r, h). (a, unat r, unat h)) ` timeouts g\<rparr>"

section \<open>Invariant\<close>

definition node_inv :: "setting \<Rightarrow> safety_rules \<Rightarrow> bool" where
  "node_inv S st \<longleftrightarrow>
     sr_coherent st \<and> \<not> sr_skip_sig_verify st \<and>
     (\<forall>d. sr_durable st = Some d \<longrightarrow> sd_epoch d \<le> sg_epoch S) \<and>
     (\<forall>es. sr_epoch_state st = Some es \<longrightarrow>
        es = \<lparr>es_epoch = sg_epoch S, es_verifier = sg_verifier S\<rparr> \<and>
        (\<exists>d. sr_durable st = Some d \<and> sd_epoch d = sg_epoch S))"

text \<open>A vote is for a block that is known, with the parent the block names.\<close>

definition vote_ok :: "setting \<Rightarrow> vote_data \<Rightarrow> bool" where
  "vote_ok S vd \<longleftrightarrow>
     vd \<in> sg_vote_data S \<and>
     (\<exists>bd \<in> sg_block_data S. bd_hash (sg_cenv S) bd = bi_id (proposed vd) \<and>
        bd_round bd = bi_round (proposed vd) \<and> bd_parent_id bd = bi_id (parent vd))"

definition same_block :: "block_info \<Rightarrow> block_info \<Rightarrow> bool" where
  "same_block b c \<longleftrightarrow> bi_epoch b = bi_epoch c \<and> bi_round b = bi_round c \<and> bi_id b = bi_id c"

text \<open>A quorum stands behind what a ledger info says.\<close>

definition justified :: "setting \<Rightarrow> network \<Rightarrow> ledger_info \<Rightarrow> bool" where
  "justified S g li \<longleftrightarrow>
     (\<exists>vd \<in> sg_vote_data S. li_consensus_data_hash li = sg_hash S vd \<and>
        cert (sg_quorum S) (sg_faulty S) (abs_net S g) (proposed vd) (parent vd) \<and>
        (li_round li \<noteq> 0 \<longrightarrow>
           same_block (parent vd) (li_commit_info li) \<and> rnd (proposed vd) = Suc (rnd (parent vd)))) \<or>
     li_consensus_data_hash li = 0 \<and>
     (li_round li \<noteq> 0 \<longrightarrow>
        (\<exists>b. supported (sg_quorum S) (sg_faulty S) {a. (a, b) \<in> ordered (abs_net S g)} \<and>
           same_block b (li_commit_info li)))"

definition signed_ok :: "setting \<Rightarrow> network \<Rightarrow> author \<Rightarrow> ledger_info \<Rightarrow> bool" where
  "signed_ok S g a li \<longleftrightarrow>
     (\<exists>vd. (a, vd) \<in> votes g \<and> li_consensus_data_hash li = sg_hash S vd \<and>
        (li_round li \<noteq> 0 \<longrightarrow> li_commit_info li = parent vd \<and> rnd (proposed vd) = Suc (rnd (parent vd)))) \<or>
     li_consensus_data_hash li = 0 \<and> (a, li_commit_info li) \<in> orders g \<or>
     justified S g li"

definition net_inv :: "setting \<Rightarrow> network \<Rightarrow> bool" where
  "net_inv S g \<longleftrightarrow>
     (\<forall>a. a \<notin> sg_faulty S \<longrightarrow> node_inv S (nodes g a)) \<and>
     (\<forall>a vd. (a, vd) \<in> votes g \<longrightarrow> vote_ok S vd) \<and>
     (\<forall>a d v. a \<notin> sg_faulty S \<longrightarrow> sr_durable (nodes g a) = Some d \<longrightarrow> sd_epoch d = sg_epoch S \<longrightarrow>
        sd_last_vote d = Some v \<longrightarrow> (a, vote_vote_data v) \<in> votes g \<and> (a, vote_ledger_info v) \<in> signed g) \<and>
     (\<forall>a li. (a, li) \<in> signed g \<longrightarrow> signed_ok S g a li)"

lemma net_invD:
  assumes "net_inv S g"
  shows "a \<notin> sg_faulty S \<Longrightarrow> node_inv S (nodes g a)"
    and "(a, vd) \<in> votes g \<Longrightarrow> vote_ok S vd"
    and "(a, li) \<in> signed g \<Longrightarrow> signed_ok S g a li"
  using assms by (simp_all add: net_inv_def)

lemma voted_abs [simp]: "(a, proposed vd, parent vd) \<in> voted (abs_net S g) \<longleftrightarrow> (a, vd) \<in> votes g"
  by (cases vd) (simp add: abs_net_def)

lemma sound_settingD:
  assumes "sound_setting S"
  shows "wf_verifier (sg_verifier S)" "tolerates (sg_verifier S) (sg_faulty S)"
    "aggregate_lengths (env_crypto (sg_cenv S))"
    and "vd \<in> sg_vote_data S \<Longrightarrow> vd' \<in> sg_vote_data S \<Longrightarrow> sg_hash S vd = sg_hash S vd' \<Longrightarrow> vd = vd'"
    and "vd \<in> sg_vote_data S \<Longrightarrow> sg_hash S vd \<noteq> 0"
    and "bd \<in> sg_block_data S \<Longrightarrow> bd' \<in> sg_block_data S \<Longrightarrow>
      bd_hash (sg_cenv S) bd = bd_hash (sg_cenv S) bd' \<Longrightarrow> bd_preimage bd = bd_preimage bd'"
  using assms by (auto simp: sound_setting_def bd_hash_def dest: inj_onD)

section \<open>Certificates in the network\<close>

lemma quorum_justified:
  assumes S: "sound_setting S" and inv: "net_inv S g"
    and Q: "sg_quorum S Q" and all: "\<And>a. a \<in> Q \<Longrightarrow> a \<notin> sg_faulty S \<Longrightarrow> (a, li) \<in> signed g"
  shows "justified S g li"
proof (cases "\<exists>a \<in> Q - sg_faulty S. \<exists>vd. (a, vd) \<in> votes g \<and> li_consensus_data_hash li = sg_hash S vd \<and>
    (li_round li \<noteq> 0 \<longrightarrow> li_commit_info li = parent vd \<and> rnd (proposed vd) = Suc (rnd (parent vd)))")
  case True
  then obtain a0 vd0 where a0: "(a0, vd0) \<in> votes g" "li_consensus_data_hash li = sg_hash S vd0"
    "li_round li \<noteq> 0 \<longrightarrow> li_commit_info li = parent vd0 \<and> rnd (proposed vd0) = Suc (rnd (parent vd0))"
    by blast
  then have vd0: "vd0 \<in> sg_vote_data S" using net_invD(2) [OF inv] by (simp add: vote_ok_def)
  note nz = sound_settingD(5) [OF S vd0]
  show ?thesis
  proof (rule ccontr)
    assume no: "\<not> justified S g li"
    have "(a, vd0) \<in> votes g" if a: "a \<in> Q" "a \<notin> sg_faulty S" for a
    proof -
      from net_invD(3) [OF inv all [OF a]] no a0(2) nz obtain vd
        where vd: "(a, vd) \<in> votes g" "sg_hash S vd0 = sg_hash S vd" by (auto simp: signed_ok_def)
      then have "vd \<in> sg_vote_data S" using net_invD(2) [OF inv] by (simp add: vote_ok_def)
      with vd vd0 sound_settingD(4) [OF S] show ?thesis by blast
    qed
    then have "cert (sg_quorum S) (sg_faulty S) (abs_net S g) (proposed vd0) (parent vd0)"
      using Q by (auto simp: cert_def supported_def)
    with no a0(2,3) vd0 show False unfolding justified_def same_block_def by auto
  qed
next
  case False
  show ?thesis
  proof (rule ccontr)
    assume no: "\<not> justified S g li"
    have ord: "li_consensus_data_hash li = 0 \<and> (a, li_commit_info li) \<in> orders g"
      if a: "a \<in> Q" "a \<notin> sg_faulty S" for a
      using net_invD(3) [OF inv all [OF a]] no False a unfolding signed_ok_def by blast
    obtain a0 where "a0 \<in> Q" "a0 \<notin> sg_faulty S"
      using vq.quorum_has_correct [OF Q sound_settingD(2) [OF S]] by blast
    with ord have "li_consensus_data_hash li = 0" by blast
    moreover have "supported (sg_quorum S) (sg_faulty S) {a. (a, li_commit_info li) \<in> ordered (abs_net S g)}"
      if "li_round li \<noteq> 0"
      using Q ord that by (auto simp: supported_def abs_net_def li_round_def)
    ultimately show False using no unfolding justified_def same_block_def by blast
  qed
qed

lemma verified_justified:
  assumes S: "sound_setting S" and inv: "net_inv S g" and genuine: "unforged S g l"
    and ok: "verify_signatures (env_crypto (sg_cenv S)) l (sg_verifier S) = Ok ()"
  shows "justified S g (liws_ledger_info l)"
proof -
  note v = verify_signatures_Ok [OF sound_settingD(1) [OF S] ok]
  show ?thesis
    by (rule quorum_justified [OF S inv, of "signer_set (sg_verifier S) (liws_signatures l)"])
      (use v genuine in \<open>auto simp: unforged_def\<close>)
qed

lemma qc_certified:
  assumes S: "sound_setting S" and inv: "net_inv S g" and genuine: "genuine_qc S g qc"
    and ok: "qc_verify (sg_cenv S) qc (sg_verifier S) = Ok u"
  shows "rnd (certified_block qc) = 0 \<or>
    cert (sg_quorum S) (sg_faulty S) (abs_net S g) (certified_block qc) (parent_block qc)"
proof (cases "bi_round (certified_block qc) = 0")
  case False
  note v = qc_verify_Ok [OF sound_settingD(1) [OF S] ok False]
  have "justified S g (qc_ledger_info qc)"
    by (rule quorum_justified [OF S inv v(1)])
      (use v(2) genuine in \<open>auto simp: genuine_qc_def unforged_def qc_ledger_info_def\<close>)
  moreover note hash = qc_verify_hash [OF ok]
  moreover have vd: "qc_vote_data qc \<in> sg_vote_data S" using genuine by (simp add: genuine_qc_def)
  ultimately obtain vd where "vd \<in> sg_vote_data S" "sg_hash S (qc_vote_data qc) = sg_hash S vd"
    "cert (sg_quorum S) (sg_faulty S) (abs_net S g) (proposed vd) (parent vd)"
    using sound_settingD(5) [OF S vd] unfolding justified_def by auto
  with sound_settingD(4) [OF S vd] show ?thesis
    by (metis certified_block_def parent_block_def)
qed (simp add: rnd_def)

lemma tc_gave_up:
  assumes S: "sound_setting S" and genuine: "genuine_tc S g tc"
    and ok: "tc_verify (sg_cenv S) tc (sg_verifier S) = Ok u"
  shows "gave_up (sg_quorum S) (sg_faulty S) (abs_net S g) (unat (tc_round tc)) (unat (highest_hqc_round tc))"
proof -
  note v = tc_verify_Ok [OF sound_settingD(1) [OF S] ok sound_settingD(3) [OF S]]
  let ?Q = "fst ` set (tc_claims (sg_verifier S) tc)"
  have "\<exists>h \<le> unat (highest_hqc_round tc). (a, unat (tc_round tc), h) \<in> timed_out (abs_net S g)"
    if a: "a \<in> ?Q" "a \<notin> sg_faulty S" for a
  proof -
    from a(1) obtain h where h: "(a, h) \<in> set (tc_claims (sg_verifier S) tc)" by auto
    with genuine ok a(2) have "(a, tc_round tc, h) \<in> timeouts g" by (auto simp: genuine_tc_def)
    moreover have "h \<le> highest_hqc_round tc" using v(4) h by auto
    ultimately show ?thesis by (force simp: abs_net_def word_le_nat_alt)
  qed
  with v(2) show ?thesis unfolding gave_up_def supported_def by blast
qed

section \<open>Updates of the network\<close>

lemma abs_update_node:
  "abs_net S (update_node a st g) = update_voter a (abs_data (sg_epoch S) (sr_durable st)) (abs_net S g)"
  by (auto simp: abs_net_def update_node_def update_voter_def fun_eq_iff)

lemma update_node_fields [simp]:
  "votes (update_node a st g) = votes g" "orders (update_node a st g) = orders g"
  "timeouts (update_node a st g) = timeouts g" "signed (update_node a st g) = signed g"
  "nodes (update_node a st g) = (nodes g)(a := st)"
  by (simp_all add: update_node_def)

lemma abs_fields [simp]:
  "voters (abs_net S g) a = abs_data (sg_epoch S) (sr_durable (nodes g a))"
  "voted (abs_net S g) = {(a, b, p). (a, \<lparr>proposed = b, parent = p\<rparr>) \<in> votes g}"
  "ordered (abs_net S g) = {(a, b). (a, b) \<in> orders g \<and> bi_round b \<noteq> 0}"
  by (simp_all add: abs_net_def)

lemma justified_mono:
  assumes "votes g \<subseteq> votes g'" "orders g \<subseteq> orders g'" "justified S g li"
  shows "justified S g' li"
proof -
  have "cert (sg_quorum S) (sg_faulty S) (abs_net S g) b p \<Longrightarrow>
      cert (sg_quorum S) (sg_faulty S) (abs_net S g') b p" for b p
    unfolding cert_def using assms(1) by (auto elim!: supported_mono)
  moreover have "supported (sg_quorum S) (sg_faulty S) {a. (a, b) \<in> ordered (abs_net S g)} \<Longrightarrow>
      supported (sg_quorum S) (sg_faulty S) {a. (a, b) \<in> ordered (abs_net S g')}" for b
    using assms(2) by (auto elim!: supported_mono)
  ultimately show ?thesis using assms(3) unfolding justified_def by blast
qed

lemma signed_ok_mono:
  assumes "votes g \<subseteq> votes g'" "orders g \<subseteq> orders g'" "signed_ok S g a li"
  shows "signed_ok S g' a li"
  using assms justified_mono [OF assms(1,2)] unfolding signed_ok_def by blast

lemma net_inv_update:
  assumes inv: "net_inv S g" and nodes: "nodes g' = nodes g" and node: "node_inv S st'"
    and mono: "votes g \<subseteq> votes g'" "orders g \<subseteq> orders g'" "signed g \<subseteq> signed g'"
    and votes: "\<And>b vd. (b, vd) \<in> votes g' \<Longrightarrow> (b, vd) \<in> votes g \<or> vote_ok S vd"
    and last: "\<And>d v. sr_durable st' = Some d \<Longrightarrow> sd_epoch d = sg_epoch S \<Longrightarrow> sd_last_vote d = Some v \<Longrightarrow>
      (a, vote_vote_data v) \<in> votes g' \<and> (a, vote_ledger_info v) \<in> signed g'"
    and signed: "\<And>b li. (b, li) \<in> signed g' \<Longrightarrow> (b, li) \<in> signed g \<or> signed_ok S g' b li"
  shows "net_inv S (update_node a st' g')"
proof -
  have ok: "signed_ok S (update_node a st' g') b li" if "(b, li) \<in> signed g'" for b li
  proof -
    have "signed_ok S g' b li" using signed [OF that] net_invD(3) [OF inv] signed_ok_mono [OF mono(1,2)] by blast
    then show ?thesis by (rule signed_ok_mono [rotated 2]) simp_all
  qed
  have old: "(b, vote_vote_data v) \<in> votes g' \<and> (b, vote_ledger_info v) \<in> signed g'"
    if "b \<notin> sg_faulty S" "sr_durable (nodes g b) = Some d" "sd_epoch d = sg_epoch S" "sd_last_vote d = Some v"
    for b d v
    using inv mono that unfolding net_inv_def by blast
  have "vote_ok S vd" if "(b, vd) \<in> votes g'" for b vd
    using votes [OF that] net_invD(2) [OF inv] by blast
  then show ?thesis
    unfolding net_inv_def update_node_fields nodes
    using net_invD(1) [OF inv] node ok old last by (auto split: if_splits)
qed

text \<open>Nothing is recorded and the safety data is kept, or only its epoch is left.\<close>

definition keeps_last_vote :: "safety_data option \<Rightarrow> safety_data option \<Rightarrow> bool" where
  "keeps_last_vote x x' \<longleftrightarrow>
     (\<forall>d'. x' = Some d' \<longrightarrow>
        sd_last_vote d' = None \<or>
        (\<exists>d. x = Some d \<and> sd_epoch d = sd_epoch d' \<and> sd_last_vote d = sd_last_vote d'))"

lemma last_vote_recorded:
  assumes "net_inv S g" "a \<notin> sg_faulty S" "keeps_last_vote (sr_durable (nodes g a)) (sr_durable st')"
    "sr_durable st' = Some d" "sd_epoch d = sg_epoch S" "sd_last_vote d = Some v"
  shows "(a, vote_vote_data v) \<in> votes g \<and> (a, vote_ledger_info v) \<in> signed g"
  using assms unfolding net_inv_def keeps_last_vote_def by fastforce

lemma silent_step:
  assumes inv: "net_inv S g" and a: "a \<notin> sg_faulty S" and node: "node_inv S st'"
    and last: "keeps_last_vote (sr_durable (nodes g a)) (sr_durable st')"
    and grow: "last_voted (abs_data (sg_epoch S) (sr_durable (nodes g a))) \<le> last_voted (abs_data (sg_epoch S) (sr_durable st'))"
      "one_chain (abs_data (sg_epoch S) (sr_durable (nodes g a))) \<le> one_chain (abs_data (sg_epoch S) (sr_durable st'))"
      "highest_timeout (abs_data (sg_epoch S) (sr_durable (nodes g a))) \<le> highest_timeout (abs_data (sg_epoch S) (sr_durable st'))"
  shows "net_inv S (update_node a st' g) \<and>
    spec_step (sg_quorum S) (sg_faulty S) rnd (abs_net S g) (abs_net S (update_node a st' g))"
proof
  show "net_inv S (update_node a st' g)"
    using last_vote_recorded [OF inv a last] by (intro net_inv_update [OF inv refl node]) auto
  show "spec_step (sg_quorum S) (sg_faulty S) rnd (abs_net S g) (abs_net S (update_node a st' g))"
    unfolding abs_update_node by (rule spec_step.advance [OF refl]) (use grow in simp_all)
qed

lemma idle_step:
  assumes "net_inv S g" "a \<notin> sg_faulty S" "node_inv S st'" "sr_durable st' = sr_durable (nodes g a)"
  shows "net_inv S (update_node a st' g) \<and>
    spec_step (sg_quorum S) (sg_faulty S) rnd (abs_net S g) (abs_net S (update_node a st' g))"
  using silent_step [OF assms(1-3)] assms(4) by (auto simp: keeps_last_vote_def)

lemma node_inv_frame:
  assumes "node_inv S st" "sr_frame st st'" "sr_coherent st'"
    and "sr_durable st' = sr_durable st \<or>
      (\<exists>d d'. sr_durable st = Some d \<and> sr_durable st' = Some d' \<and> sd_epoch d' = sd_epoch d)"
  shows "node_inv S st'"
  using assms unfolding node_inv_def sr_frame_def by auto

lemma verified_in_epoch:
  assumes "node_inv S st" "sr_the_epoch_state st = Ok es"
  shows "es_verifier es = sg_verifier S \<and> (\<exists>d. sr_durable st = Some d \<and> sd_epoch d = sg_epoch S)"
  using assms by (auto simp: node_inv_def sr_the_epoch_state_def ok_or_iffs)

lemma sr_verify_qc_in_epoch:
  assumes "node_inv S st" "sr_verify_qc (sg_env S) st qc = Ok u"
  shows "qc_verify (sg_cenv S) qc (sg_verifier S) = Ok () \<and> (\<exists>d. sr_durable st = Some d \<and> sd_epoch d = sg_epoch S)"
proof -
  from assms(2) obtain es where es: "sr_the_epoch_state st = Ok es"
    and ok: "\<not> sr_skip_sig_verify st \<longrightarrow> qc_verify (sg_cenv S) qc (es_verifier es) = Ok ()"
    by (auto simp: sr_verify_qc_def bind_Ok map_err_Ok split: if_splits)
  from verified_in_epoch [OF assms(1) es] ok assms(1) show ?thesis by (simp add: node_inv_def)
qed

lemma verify_maybe_tc_in_epoch:
  assumes "node_inv S st" "verify_maybe_tc (sg_env S) st (Some tc) = Ok u"
  shows "tc_verify (sg_cenv S) tc (sg_verifier S) = Ok ()"
proof -
  from assms(2) obtain es where es: "sr_the_epoch_state st = Ok es"
    and ok: "\<not> sr_skip_sig_verify st \<longrightarrow> tc_verify (sg_cenv S) tc (es_verifier es) = Ok ()"
    by (auto simp: verify_maybe_tc_def sr_verify_tc_def bind_Ok map_err_Ok split: if_splits)
  from verified_in_epoch [OF assms(1) es] ok assms(1) show ?thesis by (simp add: node_inv_def)
qed

section \<open>Votes\<close>

lemma validated_parent_id:
  assumes "validate_signature E b vv = Ok u"
  shows "blk_parent_id b = bi_id (certified_block (blk_quorum_cert b))"
  using assms
  by (auto simp: validate_signature_def blk_parent_id_def bd_parent_id_def blk_quorum_cert_def Let_def
    split: block_type.splits)

lemma checked_parent_id:
  assumes "proposal_checks SE now vp d st = Ok vd" "\<not> sr_skip_sig_verify st"
  shows "blk_parent_id (vp_block vp) = bi_id (certified_block (blk_quorum_cert (vp_block vp)))"
  using assms by (auto simp: proposal_checks_def bind_Ok map_err_Ok intro: validated_parent_id)

text \<open>A vote constructed from a proposal that passed the checks is one the specification allows.\<close>

lemma new_vote_allowed:
  assumes S: "sound_setting S" and inv: "net_inv S g" and a: "a \<notin> sg_faulty S"
    and adm: "admissible S g a (ConstructAndSignVoteTwoChain vp tc)"
    and d: "sr_durable (nodes g a) = Some d"
    and checks: "proposal_checks (sg_env S) now vp d (nodes g a) = Ok vd"
    and tc: "verify_maybe_tc (sg_env S) (nodes g a) tc = Ok ()"
    and new: "construct_vote (sg_env S) (vp_block vp) tc vd d (nodes g a) = Ok (v, d')"
  shows "sd_epoch d = sg_epoch S" "vote_ok S vd" "unat (sd_last_voted_round d) < rnd (proposed vd)"
    "rnd (parent vd) < rnd (proposed vd)"
    "rnd (parent vd) = 0 \<or> certified (sg_quorum S) (sg_faulty S) (abs_net S g) (parent vd)"
    "rnd (proposed vd) = Suc (rnd (parent vd)) \<or>
      gave_up (sg_quorum S) (sg_faulty S) (abs_net S g) (rnd (proposed vd) - 1) (rnd (parent vd))"
proof -
  note node = net_invD(1) [OF inv a]
  note p = proposal_checks_Ok [OF checks]
  note g = gen_vote_data_Ok [OF p(4)]
  note c = construct_vote_Ok [OF new]
  note qc = sr_verify_qc_in_epoch [OF node p(2)]
  from adm have known: "known_block S (vp_block vp)" and genuine: "genuine_qc S g (blk_quorum_cert (vp_block vp))"
    and gtc: "\<And>t. tc = Some t \<Longrightarrow> genuine_tc S g t" and VD: "vd \<in> sg_vote_data S"
    using p(4) by (auto split: option.splits)
  show "sd_epoch d = sg_epoch S" using qc d by simp
  have pid: "blk_parent_id (vp_block vp) = bi_id (parent vd)"
    using checked_parent_id [OF checks] node g(1) by (simp add: node_inv_def)
  show "vote_ok S vd"
    unfolding vote_ok_def
    using VD known g(3,4) pid by (auto simp: known_block_def blk_round_def blk_parent_id_def)
  show "unat (sd_last_voted_round d) < rnd (proposed vd)"
    using c(1) g(3) by (simp add: rnd_def word_less_nat_alt)
  show less: "rnd (parent vd) < rnd (proposed vd)"
    using blk_verify_well_formed_Ok(1) [OF p(3)] g(1,3) by (simp add: rnd_def word_less_nat_alt)
  show "rnd (parent vd) = 0 \<or> certified (sg_quorum S) (sg_faulty S) (abs_net S g) (parent vd)"
    using qc_certified [OF S inv genuine] qc g(1) unfolding certified_def by auto
  from c(2) consider "rnd (proposed vd) = Suc (rnd (parent vd))" | "rnd (proposed vd) = 1"
    | t where "tc = Some t" "rnd (proposed vd) = Suc (unat (tc_round t))"
        "unat (highest_hqc_round t) \<le> rnd (parent vd)"
    unfolding follows_two_chain_def Let_def
    using g(1,3) by (auto simp: rnd_def word_le_nat_alt split: option.splits)
  then show "rnd (proposed vd) = Suc (rnd (parent vd)) \<or>
      gave_up (sg_quorum S) (sg_faulty S) (abs_net S g) (rnd (proposed vd) - 1) (rnd (parent vd))"
  proof cases
    case (3 t)
    from gave_up_le [OF tc_gave_up [OF S gtc [OF 3(1)] verify_maybe_tc_in_epoch [OF node tc [unfolded 3(1)]]] 3(3)] 3(2)
    show ?thesis by simp
  qed (use less in simp_all)
qed

lemma vote_ledger_info_ok:
  assumes checks: "proposal_checks SE now vp d st = Ok vd"
    and new: "construct_vote SE (vp_block vp) tc vd d st = Ok (v, d')"
    and "SE = sg_env S" "(a, vd) \<in> votes g"
  shows "signed_ok S g a (vote_ledger_info v)"
proof -
  note g = gen_vote_data_Ok [OF proposal_checks_Ok(4) [OF checks]]
  note c = construct_vote_Ok [OF new]
  have "li_consensus_data_hash (vote_ledger_info v) = sg_hash S vd" using c(4) assms(3) by simp
  moreover have "li_round (vote_ledger_info v) \<noteq> 0 \<Longrightarrow>
      li_commit_info (vote_ledger_info v) = parent vd \<and> rnd (proposed vd) = Suc (rnd (parent vd))"
    using c(4) g(1,3)
    by (auto simp: li_round_def rnd_def block_info_empty_def split: if_splits)
  ultimately show ?thesis using assms(4) unfolding signed_ok_def by blast
qed

lemma vote_request:
  assumes S: "sound_setting S" and inv: "net_inv S g" and a: "a \<notin> sg_faulty S"
    and adm: "admissible S g a (ConstructAndSignVoteTwoChain vp tc)"
    and run: "guarded_construct_and_sign_vote_two_chain (sg_env S) now vp tc (nodes g a) = (r0, st')"
    and r: "r = (case r0 of Ok v \<Rightarrow> Ok (OutVote v) | Err e \<Rightarrow> Err e | Panic \<Rightarrow> Panic)"
    and g': "g' = update_node a st' (record_events a (ConstructAndSignVoteTwoChain vp tc) r (nodes g a) st' g)"
  shows "net_inv S g' \<and> spec_step (sg_quorum S) (sg_faulty S) rnd (abs_net S g) (abs_net S g')"
proof -
  note node = net_invD(1) [OF inv a]
  have coh: "sr_coherent (nodes g a)" using node by (simp add: node_inv_def)
  note cases = construct_and_sign_vote_cases [OF run coh]
  from cases consider
    (same) "sr_durable st' = sr_durable (nodes g a)" "\<And>v. r0 = Ok v \<Longrightarrow> \<exists>d vd. sr_durable (nodes g a) = Some d \<and>
      proposal_checks (sg_env S) now vp d (nodes g a) = Ok vd \<and> earlier_vote (vp_block vp) d = Some v"
  | (new) d vd v d' where "sr_durable (nodes g a) = Some d"
      "proposal_checks (sg_env S) now vp d (nodes g a) = Ok vd"
      "verify_maybe_tc (sg_env S) (nodes g a) tc = Ok ()"
      "construct_vote (sg_env S) (vp_block vp) tc vd d (nodes g a) = Ok (v, d')"
      "sr_durable st' = Some d'" "is_ok r0 \<longrightarrow> r0 = Ok v"
    by blast
  then show ?thesis
  proof cases
    case same
    have "(a, vote_vote_data v) \<in> votes g \<and> (a, vote_ledger_info v) \<in> signed g"
      if rel: "v \<in> released_votes r (nodes g a) st'" for v
    proof -
      from rel same(1) r have "r0 = Ok v" by (cases r0) (auto simp: released_votes_def)
      from same(2) [OF this] obtain d vd where d: "sr_durable (nodes g a) = Some d"
        "proposal_checks (sg_env S) now vp d (nodes g a) = Ok vd" "earlier_vote (vp_block vp) d = Some v" by blast
      from sr_verify_qc_in_epoch [OF node proposal_checks_Ok(2) [OF d(2)]] d(1) have "sd_epoch d = sg_epoch S" by simp
      moreover from d(3) have "sd_last_vote d = Some v"
        by (auto simp: earlier_vote_def split: option.splits if_splits)
      ultimately show ?thesis using inv a d(1) unfolding net_inv_def by blast
    qed
    then have "record_events a (ConstructAndSignVoteTwoChain vp tc) r (nodes g a) st' g = g"
      by (auto intro!: network.equality)
    moreover have "node_inv S st'" using node_inv_frame [OF node] cases same(1) by blast
    ultimately show ?thesis using idle_step [OF inv a _ same(1)] g' by simp
  next
    case new
    note allowed = new_vote_allowed [OF S inv a adm new(1-4)]
    note c = construct_vote_Ok [OF new(4)]
    have "sd_last_voted_round d' = blk_round (vp_block vp)" using c(5) by simp
    with c(1) have "d' \<noteq> d" by auto
    then have rel: "released_votes r (nodes g a) st' = {v}"
      using new(1,5,6) c(5) r by (cases r0) (auto simp: released_votes_def)
    let ?g = "g\<lparr>votes := insert (a, vd) (votes g), signed := insert (a, vote_ledger_info v) (signed g)\<rparr>"
    have g'_eq: "g' = update_node a st' ?g" using g' rel c(3) by simp
    have "node_inv S st'" using node_inv_frame [OF node] cases new(1,5) c(5) by auto
    then have "net_inv S (update_node a st' ?g)"
    proof (rule net_inv_update [OF inv, rotated])
      show "\<And>d v. sr_durable st' = Some d \<Longrightarrow> sd_epoch d = sg_epoch S \<Longrightarrow> sd_last_vote d = Some v \<Longrightarrow>
          (a, vote_vote_data v) \<in> votes ?g \<and> (a, vote_ledger_info v) \<in> signed ?g"
        using new(5) c(3,5) by auto
      show "\<And>b li. (b, li) \<in> signed ?g \<Longrightarrow> (b, li) \<in> signed g \<or> signed_ok S ?g b li"
        using vote_ledger_info_ok [OF new(2,4) refl, of a ?g] by auto
    qed (use allowed(2) in auto)
    moreover have "spec_step (sg_quorum S) (sg_faulty S) rnd (abs_net S g) (abs_net S (update_node a st' ?g))"
    proof -
      let ?x = "abs_data (sg_epoch S) (Some d)" and ?x' = "abs_data (sg_epoch S) (Some d')"
      have eq: "abs_net S ?g = (abs_net S g)\<lparr>voted := insert (a, proposed vd, parent vd) (voted (abs_net S g))\<rparr>"
        by (cases vd) (auto simp: abs_net_def)
      have "bi_round (proposed vd) = blk_round (vp_block vp)"
        "parent vd = certified_block (blk_quorum_cert (vp_block vp))"
        using gen_vote_data_Ok(1,3) [OF proposal_checks_Ok(4) [OF new(2)]] by simp_all
      then have x': "last_voted ?x' = rnd (proposed vd)" "one_chain ?x' = max (one_chain ?x) (rnd (parent vd))"
        "highest_timeout ?x' = highest_timeout ?x" "last_voted ?x = unat (sd_last_voted_round d)"
        using c(5) allowed(1) by (simp_all add: abs_data_def rnd_def unat_max)
      show ?thesis
        unfolding abs_update_node eq new(5) update_voter_commute
        by (rule spec_step.vote [where x = ?x]) (use allowed x' new(1) in simp_all)
    qed
    ultimately show ?thesis unfolding g'_eq by blast
  qed
qed

section \<open>Timeouts, order votes and commit votes\<close>

lemma timeout_in_epoch:
  assumes "timeout_safety_data (sg_env S) t tc d st = Ok d'" "node_inv S st" "sr_durable st = Some d"
  shows "sd_epoch d = sg_epoch S"
proof -
  from assms(1,2) obtain es where "sr_the_epoch_state st = Ok es"
    by (auto simp: timeout_safety_data_def bind_Ok node_inv_def)
  from verified_in_epoch [OF assms(2) this] assms(3) show ?thesis by simp
qed

lemma timeout_request:
  assumes inv: "net_inv S g" and a: "a \<notin> sg_faulty S"
    and run: "guarded_sign_timeout_with_qc (sg_env S) t tc (nodes g a) = (r0, st')"
    and r: "is_ok r = is_ok r0"
    and g': "g' = update_node a st' (record_events a (SignTimeoutWithQC t tc) r (nodes g a) st' g)"
  shows "net_inv S g' \<and> spec_step (sg_quorum S) (sg_faulty S) rnd (abs_net S g) (abs_net S g')"
proof -
  note node = net_invD(1) [OF inv a]
  have coh: "sr_coherent (nodes g a)" using node by (simp add: node_inv_def)
  note cases = sign_timeout_cases [OF run coh]
  from cases consider (same) "sr_durable st' = sr_durable (nodes g a)" "\<not> is_ok r"
    | (new) d d' where "sr_durable (nodes g a) = Some d"
        "timeout_safety_data (sg_env S) t tc d (nodes g a) = Ok d'" "sr_durable st' = Some d'"
    using r by blast
  then show ?thesis
  proof cases
    case same
    have "node_inv S st'" using node_inv_frame [OF node] cases same(1) by blast
    from idle_step [OF inv a this same(1)] same(2) g' show ?thesis by simp
  next
    case new
    note t = timeout_safety_data_Ok [OF new(2)]
    note e = timeout_in_epoch [OF new(2) node new(1)]
    let ?x = "abs_data (sg_epoch S) (Some d)" and ?x' = "abs_data (sg_epoch S) (Some d')"
    have node': "node_inv S st'" using node_inv_frame [OF node] cases new(1,3) t(4) by auto
    have x: "last_voted ?x \<le> unat (to_round t)" "one_chain ?x \<le> unat (hqc_round t)"
      "last_voted ?x' = unat (to_round t)" "one_chain ?x' = one_chain ?x"
      "highest_timeout ?x' = max (highest_timeout ?x) (unat (to_round t))"
      using t e by (simp_all add: abs_data_def unat_max word_le_nat_alt)
    have last: "keeps_last_vote (sr_durable (nodes g a)) (sr_durable st')"
      using new(1,3) t(4) by (auto simp: keeps_last_vote_def)
    show ?thesis
    proof (cases "is_ok r")
      case False
      from silent_step [OF inv a node' last] x new(1,3) False g' show ?thesis by simp
    next
      case True
      let ?g = "g\<lparr>timeouts := insert (a, to_round t, hqc_round t) (timeouts g)\<rparr>"
      have "net_inv S (update_node a st' ?g)"
        using last_vote_recorded [OF inv a last] by (intro net_inv_update [OF inv _ node']) auto
      moreover have eq: "abs_net S ?g = (abs_net S g)\<lparr>timed_out :=
          insert (a, unat (to_round t), unat (hqc_round t)) (timed_out (abs_net S g))\<rparr>"
        by (simp add: abs_net_def)
      moreover have "spec_step (sg_quorum S) (sg_faulty S) rnd (abs_net S g) (abs_net S (update_node a st' ?g))"
        unfolding abs_update_node eq new(3) update_voter_commute
        by (rule spec_step.timeout [where x = ?x]) (use x new(1) in simp_all)
      ultimately show ?thesis using True g' by simp
    qed
  qed
qed

text \<open>The block of an order vote has the round of the certified block with its id.\<close>

lemma certified_round:
  assumes S: "sound_setting S" and inv: "net_inv S g"
    and cert: "cert (sg_quorum S) (sg_faulty S) (abs_net S g) b p"
    and known: "known_block S blk" "blk_id blk = bi_id b"
  shows "blk_round blk = bi_round b"
proof -
  from cert obtain Q where "sg_quorum S Q" "Q - sg_faulty S \<subseteq> {v. (v, b, p) \<in> voted (abs_net S g)}"
    unfolding cert_def supported_def by blast
  with vq.quorum_has_correct [OF _ sound_settingD(2) [OF S]] obtain v where "(v, \<lparr>proposed = b, parent = p\<rparr>) \<in> votes g"
    by fastforce
  from net_invD(2) [OF inv this] obtain bd where bd: "bd \<in> sg_block_data S" "bd_hash (sg_cenv S) bd = bi_id b"
    "bd_round bd = bi_round b" by (auto simp: vote_ok_def)
  have "bd_preimage bd = bd_preimage (blk_block_data blk)"
    by (rule sound_settingD(6) [OF S bd(1)]) (use known bd(2) in \<open>simp_all add: known_block_def\<close>)
  from bd_preimage_round [OF this] bd(3) show ?thesis by (simp add: blk_round_def)
qed

lemma rnd_eq_0: "rnd b = 0 \<longleftrightarrow> bi_round b = 0"
  by (auto simp: rnd_def unat_eq_0)

lemma order_request:
  assumes S: "sound_setting S" and inv: "net_inv S g" and a: "a \<notin> sg_faulty S"
    and adm: "admissible S g a (ConstructAndSignOrderVote ovp)"
    and run: "guarded_construct_and_sign_order_vote (sg_env S) ovp (nodes g a) = (r0, st')"
    and r: "r = (case r0 of Ok v \<Rightarrow> Ok (OutOrderVote v) | Err e \<Rightarrow> Err e | Panic \<Rightarrow> Panic)"
    and g': "g' = update_node a st' (record_events a (ConstructAndSignOrderVote ovp) r (nodes g a) st' g)"
  shows "net_inv S g' \<and> spec_step (sg_quorum S) (sg_faulty S) rnd (abs_net S g) (abs_net S g')"
proof -
  note node = net_invD(1) [OF inv a]
  have coh: "sr_coherent (nodes g a)" using node by (simp add: node_inv_def)
  note cases = construct_and_sign_order_vote_cases [OF run coh]
  from cases consider (same) "sr_durable st' = sr_durable (nodes g a)" "\<not> is_ok r0"
    | (new) d ov d' where "sr_durable (nodes g a) = Some d"
        "order_checks (sg_env S) ovp d (nodes g a) = Ok ()"
        "construct_order_vote (sg_env S) ovp d (nodes g a) = Ok (ov, d')" "sr_durable st' = Some d'"
        "is_ok r0 \<longrightarrow> r0 = Ok ov"
    by blast
  then show ?thesis
  proof cases
    case same
    have "node_inv S st'" using node_inv_frame [OF node] cases same(1) by blast
    from idle_step [OF inv a this same(1)] same(2) r g' show ?thesis by (cases r0) auto
  next
    case new
    note o = order_checks_Ok [OF new(2)] and c = construct_order_vote_Ok [OF new(3)]
    note qc = sr_verify_qc_in_epoch [OF node o(4)]
    with new(1) have e: "sd_epoch d = sg_epoch S" by simp
    let ?b = "ovp_block_info ovp"
    let ?x = "abs_data (sg_epoch S) (Some d)" and ?x' = "abs_data (sg_epoch S) (Some d')"
    have node': "node_inv S st'" using node_inv_frame [OF node] cases new(1,4) c(3) by (auto simp: observe_qc_eq)
    have x: "last_voted ?x' = last_voted ?x" "one_chain ?x' = max (one_chain ?x) (rnd ?b)"
      "highest_timeout ?x' = highest_timeout ?x" "highest_timeout ?x < unat (blk_round (ovp_block ovp))"
      using c(1,3) e o(2) by (simp_all add: abs_data_def observe_qc_eq rnd_def unat_max word_less_nat_alt)
    have last: "keeps_last_vote (sr_durable (nodes g a)) (sr_durable st')"
      using new(1,4) c(3) by (auto simp: keeps_last_vote_def observe_qc_eq)
    show ?thesis
    proof (cases "is_ok r0")
      case False
      then have "g' = update_node a st' g" using r g' by (cases r0) auto
      with silent_step [OF inv a node' last] x new(1,4) show ?thesis by simp
    next
      case True
      let ?g = "g\<lparr>orders := insert (a, ?b) (orders g), signed := insert (a, ov_ledger_info ov) (signed g)\<rparr>"
      have g'_eq: "g' = update_node a st' ?g" using True new(5) r g' c(2) by simp
      have "signed_ok S ?g a (ov_ledger_info ov)" using c(2) by (simp add: signed_ok_def)
      then have inv': "net_inv S g'"
        unfolding g'_eq using last_vote_recorded [OF inv a last] by (intro net_inv_update [OF inv _ node']) auto
      have "spec_step (sg_quorum S) (sg_faulty S) rnd (abs_net S g) (abs_net S g')"
      proof (cases "bi_round ?b = 0")
        case True
        then have eq: "abs_net S ?g = abs_net S g" by (auto simp: abs_net_def)
        show ?thesis
          unfolding g'_eq abs_update_node eq new(4)
          by (rule spec_step.advance [OF refl]) (use x new(1) in simp_all)
      next
        case False
        then have eq: "abs_net S ?g = (abs_net S g)\<lparr>ordered := insert (a, ?b) (ordered (abs_net S g))\<rparr>"
          by (auto simp: abs_net_def)
        have nz: "rnd ?b \<noteq> 0" using False by (simp add: rnd_eq_0)
        with qc_certified [OF S inv _ conjunct1 [OF qc]] adm o(2) obtain p where
          cert: "cert (sg_quorum S) (sg_faulty S) (abs_net S g) ?b p" by auto
        have "blk_round (ovp_block ovp) = bi_round ?b"
          using certified_round [OF S inv cert] adm o(3) by simp
        then have "highest_timeout ?x < rnd ?b" using x(4) by (simp add: rnd_def)
        with cert nz x new(1) show ?thesis
          unfolding g'_eq abs_update_node eq new(4) update_voter_commute
          by (intro spec_step.order [where x = ?x]) (auto simp: certified_def)
      qed
      with inv' show ?thesis ..
    qed
  qed
qed

lemma commit_justified:
  assumes S: "sound_setting S" and inv: "net_inv S g" and node: "node_inv S st"
    and adm: "admissible S g a (SignCommitVote l li)"
    and ok: "guarded_sign_commit_vote (sg_env S) l li st = Ok sig"
  shows "justified S g li"
proof -
  let ?old = "liws_ledger_info l"
  from ok node obtain es where es: "sr_the_epoch_state st = Ok es"
    and v: "verify_signatures (env_crypto (sg_cenv S)) l (es_verifier es) = Ok ()"
    and m: "match_ordered_only (li_commit_info ?old) (li_commit_info li)"
    by (auto simp: guarded_sign_commit_vote_def Let_def bind_Ok map_err_Ok node_inv_def split: if_splits)
  have "justified S g ?old"
    using verified_justified [OF S inv _ v [unfolded conjunct1 [OF verified_in_epoch [OF node es]]]] adm by simp
  moreover have "same_block b (li_commit_info ?old) \<Longrightarrow> same_block b (li_commit_info li)" for b
    using m by (auto simp: same_block_def match_ordered_only_def)
  moreover have "li_round ?old = li_round li" using m by (simp add: li_round_def match_ordered_only_def)
  moreover have "li_consensus_data_hash li = li_consensus_data_hash ?old" using adm by simp
  ultimately show ?thesis unfolding justified_def by auto
qed

lemma commit_request:
  assumes S: "sound_setting S" and inv: "net_inv S g" and a: "a \<notin> sg_faulty S"
    and adm: "admissible S g a (SignCommitVote l li)"
    and run: "guarded_sign_commit_vote (sg_env S) l li (nodes g a) = r0" and r: "is_ok r = is_ok r0"
    and g': "g' = update_node a (nodes g a) (record_events a (SignCommitVote l li) r (nodes g a) (nodes g a) g)"
  shows "net_inv S g' \<and> spec_step (sg_quorum S) (sg_faulty S) rnd (abs_net S g) (abs_net S g')"
proof (cases "is_ok r")
  case False
  with g' idle_step [OF inv a net_invD(1) [OF inv a] refl] show ?thesis by simp
next
  case True
  note node = net_invD(1) [OF inv a]
  let ?g = "g\<lparr>signed := insert (a, li) (signed g)\<rparr>"
  from True r run obtain sig where "guarded_sign_commit_vote (sg_env S) l li (nodes g a) = Ok sig"
    by (cases r0) auto
  from commit_justified [OF S inv node adm this] have "justified S ?g li"
    by (rule justified_mono [rotated 2]) simp_all
  then have "signed_ok S ?g a li" by (simp add: signed_ok_def)
  then have "net_inv S (update_node a (nodes g a) ?g)"
    using inv a unfolding net_inv_def [of S g]
    by (intro net_inv_update [OF inv _ node]) auto
  moreover have eq: "abs_net S ?g = abs_net S g" by (simp add: abs_net_def)
  have "spec_step (sg_quorum S) (sg_faulty S) rnd (abs_net S g) (abs_net S (update_node a (nodes g a) ?g))"
    unfolding abs_update_node eq by (rule spec_step.advance [OF refl]) simp_all
  ultimately show ?thesis using True g' by simp
qed

section \<open>Initialisation, restarts and failures\<close>

lemma initialize_request:
  assumes inv: "net_inv S g" and a: "a \<notin> sg_faulty S"
    and adm: "admissible S g a (Initialize p)"
    and run: "guarded_initialize (sg_env S) p (nodes g a) = (r0, st')"
  shows "net_inv S (update_node a st' g) \<and>
    spec_step (sg_quorum S) (sg_faulty S) rnd (abs_net S g) (abs_net S (update_node a st' g))"
proof -
  note node = net_invD(1) [OF inv a]
  have coh: "sr_coherent (nodes g a)" using node by (simp add: node_inv_def)
  let ?es = "\<lparr>es_epoch = sg_epoch S, es_verifier = sg_verifier S\<rparr>"
  let ?new = "safety_data_new (sg_epoch S) 0 0 0 None 0"
  from adm have leads: "\<And>es. initialize_leads_to (sg_env S) p (nodes g a) es \<Longrightarrow> es = ?es" by simp
  note cases = initialize_cases [OF run coh]
  from cases leads have dur: "sr_durable st' = sr_durable (nodes g a) \<or>
      (\<exists>d. sr_durable (nodes g a) = Some d \<and> sd_epoch d < sg_epoch S \<and> sr_durable st' = Some ?new)"
    by (metis epoch_state.select_convs(1))
  from cases leads have es: "sr_epoch_state st' = sr_epoch_state (nodes g a) \<or>
      sr_epoch_state st' = Some ?es \<and> (\<exists>d'. sr_durable st' = Some d' \<and> sd_epoch d' = sg_epoch S)"
    by (metis epoch_state.select_convs(1))
  have "sd_epoch ?new = sg_epoch S" by (simp add: safety_data_new_def)
  moreover have "sr_coherent st'" "sr_skip_sig_verify st' = sr_skip_sig_verify (nodes g a)"
    using cases by simp_all
  moreover have "x = ?es \<and> (\<exists>d. sr_durable st' = Some d \<and> sd_epoch d = sg_epoch S)"
    if "sr_epoch_state st' = Some x" for x
    using es
  proof
    assume "sr_epoch_state st' = sr_epoch_state (nodes g a)"
    with that have "sr_epoch_state (nodes g a) = Some x" by simp
    with node have "x = ?es" "\<exists>d. sr_durable (nodes g a) = Some d \<and> sd_epoch d = sg_epoch S"
      unfolding node_inv_def by blast+
    with dur show ?thesis by auto
  qed (use that in auto)
  ultimately have node': "node_inv S st'" using node dur by (auto simp: node_inv_def)
  have last: "keeps_last_vote (sr_durable (nodes g a)) (sr_durable st')"
    using dur by (auto simp: keeps_last_vote_def safety_data_new_def)
  have "abs_data (sg_epoch S) (sr_durable (nodes g a)) = abs_data (sg_epoch S) (sr_durable st')"
    using dur by (auto simp: abs_data_def safety_data_new_def)
  with silent_step [OF inv a node' last] show ?thesis by simp
qed

lemma restart_node:
  assumes "node_inv S st"
  shows "node_inv S (restarted st)" "sr_durable (restarted st) = sr_durable st"
proof -
  show "sr_durable (restarted st) = sr_durable st"
    by (simp add: restarted_def sr_durable_def sr_new_def pss_new_def pss_durable_def)
  with assms show "node_inv S (restarted st)"
    by (simp add: node_inv_def) (simp add: restarted_def sr_coherent_def pss_coherent_def sr_new_def pss_new_def)
qed

lemma faults_node:
  assumes "node_inv S st"
  shows "node_inv S (with_faults gf sf st)" "sr_durable (with_faults gf sf st) = sr_durable st"
proof -
  show d: "sr_durable (with_faults gf sf st) = sr_durable st"
    by (simp add: with_faults_def Let_def sr_durable_def pss_durable_def)
  have "sr_coherent (with_faults gf sf st) = sr_coherent st"
    using d by (simp add: with_faults_def Let_def sr_coherent_def pss_coherent_def sr_durable_def
      split: option.splits)
  with assms d show "node_inv S (with_faults gf sf st)"
    by (simp add: node_inv_def) (simp add: with_faults_def Let_def)
qed

section \<open>Every step is a step of the specification\<close>

lemma net_step_spec:
  assumes S: "sound_setting S" and inv: "net_inv S g" and step: "net_step S g g'"
  shows "net_inv S g' \<and> spec_step (sg_quorum S) (sg_faulty S) rnd (abs_net S g) (abs_net S g')"
  using step
proof cases
  case (restart a)
  note node = restart_node [OF net_invD(1) [OF inv restart(2)]]
  from idle_step [OF inv restart(2) node] restart(1) show ?thesis by simp
next
  case (faults a gf sf)
  note node = faults_node [OF net_invD(1) [OF inv faults(2)]]
  from idle_step [OF inv faults(2) node] faults(1) show ?thesis by simp
next
  case (request a input now trace_enabled r st')
  note node = net_invD(1) [OF inv request(2)]
  have coh: "sr_coherent (nodes g a)" using node by (simp add: node_inv_def)
  show ?thesis
  proof (cases input)
    case ConsensusState
    with request(4) obtain r0 where "guarded_consensus_state trace_enabled (nodes g a) = (r0, st')"
      by (auto elim: m_map_cases)
    note keeps = consensus_state_keeps [OF this coh]
    then have "node_inv S st'" using node_inv_frame [OF node] by blast
    from idle_step [OF inv request(2) this] keeps ConsensusState request(1) show ?thesis by simp
  next
    case (SignProposal bd)
    with request(4) obtain r0 where "guarded_sign_proposal (sg_env S) bd (nodes g a) = (r0, st')"
      by (auto elim: m_map_cases)
    note keeps = sign_proposal_keeps [OF this coh]
    then have "node_inv S st'" using node_inv_frame [OF node] by blast
    from idle_step [OF inv request(2) this] keeps SignProposal request(1) show ?thesis by simp
  next
    case (Initialize p)
    with request(4) obtain r0 where "guarded_initialize (sg_env S) p (nodes g a) = (r0, st')"
      by (auto elim: m_map_cases)
    from initialize_request [OF inv request(2,3) [unfolded Initialize] this] Initialize request(1)
    show ?thesis by simp
  next
    case (SignTimeoutWithQC t tc)
    with request(4) obtain r0 where r0: "guarded_sign_timeout_with_qc (sg_env S) t tc (nodes g a) = (r0, st')"
      "is_ok r = is_ok r0" by (auto elim!: m_map_cases split: res.splits)
    from timeout_request [OF inv request(2) r0 request(1) [unfolded SignTimeoutWithQC]] show ?thesis .
  next
    case (ConstructAndSignVoteTwoChain vp tc)
    with request(4) obtain r0 where
      r0: "guarded_construct_and_sign_vote_two_chain (sg_env S) now vp tc (nodes g a) = (r0, st')"
        "r = (case r0 of Ok v \<Rightarrow> Ok (OutVote v) | Err e \<Rightarrow> Err e | Panic \<Rightarrow> Panic)"
      by (auto elim: m_map_cases)
    from vote_request [OF S inv request(2,3) [unfolded ConstructAndSignVoteTwoChain] r0
        request(1) [unfolded ConstructAndSignVoteTwoChain]] show ?thesis .
  next
    case (ConstructAndSignOrderVote ovp)
    with request(4) obtain r0 where
      r0: "guarded_construct_and_sign_order_vote (sg_env S) ovp (nodes g a) = (r0, st')"
        "r = (case r0 of Ok v \<Rightarrow> Ok (OutOrderVote v) | Err e \<Rightarrow> Err e | Panic \<Rightarrow> Panic)"
      by (auto elim: m_map_cases)
    from order_request [OF S inv request(2,3) [unfolded ConstructAndSignOrderVote] r0
        request(1) [unfolded ConstructAndSignOrderVote]] show ?thesis .
  next
    case (SignCommitVote l li)
    from request(4) have "m_map OutSignature (m_read (guarded_sign_commit_vote (sg_env S) l li)) (nodes g a) = (r, st')"
      by (simp add: SignCommitVote)
    then obtain r0 where "m_read (guarded_sign_commit_vote (sg_env S) l li) (nodes g a) = (r0, st')"
      and r: "r = (case r0 of Ok a \<Rightarrow> Ok (OutSignature a) | Err e \<Rightarrow> Err e | Panic \<Rightarrow> Panic)"
      by (rule m_map_cases)
    then have r0: "guarded_sign_commit_vote (sg_env S) l li (nodes g a) = r0" "is_ok r = is_ok r0"
      "st' = nodes g a" by (simp_all add: m_read_def split: res.splits)
    from commit_request [OF S inv request(2,3) [unfolded SignCommitVote] r0(1,2)
        request(1) [unfolded SignCommitVote r0(3)]] show ?thesis .
  qed
qed

lemma net_init_spec:
  assumes "net_init S g"
  shows "net_inv S g" "spec_init (abs_net S g)"
proof -
  show "spec_init (abs_net S g)" using assms by (simp add: net_init_def spec_init_def abs_net_def)
  have "node_inv S (nodes g a) \<and>
      (\<forall>d. sr_durable (nodes g a) = Some d \<longrightarrow> sd_epoch d = sg_epoch S \<longrightarrow> sd_last_vote d = None)"
    if a: "a \<notin> sg_faulty S" for a
  proof -
    from assms a have "fresh_node (sg_epoch S) (nodes g a)" by (simp add: net_init_def)
    then show ?thesis
      by (cases "sr_durable (nodes g a)") (auto simp: fresh_node_def node_inv_def safety_data_new_def)
  qed
  with assms show "net_inv S g" by (force simp: net_init_def net_inv_def)
qed

lemma net_reachable_spec:
  assumes S: "sound_setting S" and "net_reachable S g"
  shows "net_inv S g \<and> spec_reachable (sg_quorum S) (sg_faulty S) rnd (abs_net S g)"
  using assms(2)
proof induction
  case (init g)
  with net_init_spec [OF init] show ?case by (blast intro: spec_reachable.init)
next
  case (step g g')
  with net_step_spec [OF S] show ?case by (blast intro: spec_reachable.step)
qed

text \<open>The blocks of a run that name another block as their parent, by ids.\<close>

definition child_of :: "setting \<Rightarrow> (hash_value \<times> hash_value) set" where
  "child_of S = {(bd_parent_id bd, bd_hash (sg_cenv S) bd) | bd. bd \<in> sg_block_data S}"

lemma parent_link_child:
  assumes S: "sound_setting S" and inv: "net_inv S g"
    and "(p, b) \<in> parent_link (sg_quorum S) (sg_faulty S) (abs_net S g)"
  shows "(bi_id p, bi_id b) \<in> child_of S"
proof -
  from assms(3) have "supported (sg_quorum S) (sg_faulty S) {v. (v, b, p) \<in> voted (abs_net S g)}"
    by (simp add: parent_link_def cert_def)
  from vq.supported_member [OF sound_settingD(2) [OF S] this this] obtain v
    where "(v, \<lparr>proposed = b, parent = p\<rparr>) \<in> votes g" by auto
  from net_invD(2) [OF inv this] show ?thesis by (force simp: vote_ok_def child_of_def)
qed

lemma chain_ids:
  assumes S: "sound_setting S" and inv: "net_inv S g"
    and "(p, b) \<in> (parent_link (sg_quorum S) (sg_faulty S) (abs_net S g))\<^sup>*"
  shows "(bi_id p, bi_id b) \<in> (child_of S)\<^sup>*"
  using assms(3)
  by induction (auto dest: parent_link_child [OF S inv] intro: rtrancl_into_rtrancl)

lemma justified_committed:
  assumes "justified S g li" "li_round li \<noteq> 0"
  obtains b where "committed (sg_quorum S) (sg_faulty S) rnd (abs_net S g) b" "same_block b (li_commit_info li)"
proof -
  have pos: "1 \<le> rnd b" if "same_block b (li_commit_info li)" for b
    using that assms(2) rnd_eq_0 [of b] by (simp add: same_block_def li_round_def)
  from assms show thesis
    unfolding justified_def using pos that unfolding committed_def by blast
qed

section \<open>A run\<close>

text \<open>One validator that is initialised, votes for the block of round 1 and sends an order vote for it.\<close>

definition solo_verifier :: validator_verifier where
  "solo_verifier = build_index [\<lparr>info_address = 1, info_public_key = PublicKey [1], info_voting_power = 1\<rparr>] 1 1"

definition solo_senv :: safety_env where
  "solo_senv = sample_senv\<lparr>se_env :=
     \<lparr>env_crypto = linear_crypto sample_digest, hash_vote_data = (\<lambda>vd. 1 + ucast (bi_round (proposed vd))),
      hash_block = (\<lambda>_. 5)\<rparr>\<rparr>"

definition solo_epoch_li :: ledger_info_with_signatures where
  "solo_epoch_li =
     \<lparr>liws_ledger_info =
        \<lparr>li_commit_info = (sample_block_info 0)\<lparr>bi_epoch := 0,
           bi_next_epoch_state := Some \<lparr>es_epoch = 1, es_verifier = solo_verifier\<rparr>\<rparr>,
         li_consensus_data_hash = 0\<rparr>,
      liws_signatures = \<lparr>validator_bitmask = \<lparr>inner = []\<rparr>, agg_sig = None\<rparr>\<rparr>"

definition solo_change :: epoch_change_proof where
  "solo_change = \<lparr>ecp_ledger_info_with_sigs = [solo_epoch_li], ecp_more = False\<rparr>"

definition solo_sigs :: aggregate_signature where
  "solo_sigs = \<lparr>validator_bitmask = \<lparr>inner = [0x80]\<rparr>, agg_sig = Some (Signature [7])\<rparr>"

definition solo_genesis_vd :: vote_data where
  "solo_genesis_vd = \<lparr>proposed = sample_block_info 0, parent = sample_block_info 0\<rparr>"

definition solo_genesis_qc :: quorum_cert where
  "solo_genesis_qc =
     \<lparr>qc_vote_data = solo_genesis_vd,
      qc_signed_ledger_info =
        \<lparr>liws_ledger_info = \<lparr>li_commit_info = sample_block_info 0, li_consensus_data_hash = 1\<rparr>,
         liws_signatures = \<lparr>validator_bitmask = \<lparr>inner = []\<rparr>, agg_sig = None\<rparr>\<rparr>\<rparr>"

definition solo_bd :: block_data where
  "solo_bd = bd_new_proposal (DirectMempool []) 1 [] 1 1 solo_genesis_qc"

definition solo_vp :: vote_proposal where
  "solo_vp = (sample_proposal 1 0)\<lparr>vp_block := blk_of (se_env solo_senv) solo_bd (Some (Signature [9]))\<rparr>"

definition solo_vd :: vote_data where
  "solo_vd = vote_data_ordering_only solo_vp"

definition solo_vote_li :: ledger_info where
  "solo_vote_li = \<lparr>li_commit_info = sample_block_info 0, li_consensus_data_hash = 2\<rparr>"

definition solo_ovp :: order_vote_proposal where
  "solo_ovp =
     \<lparr>ovp_block = vp_block solo_vp, ovp_block_info = proposed solo_vd,
      ovp_quorum_cert = \<lparr>qc_vote_data = solo_vd,
        qc_signed_ledger_info = \<lparr>liws_ledger_info = solo_vote_li, liws_signatures = solo_sigs\<rparr>\<rparr>\<rparr>"

definition solo_commit :: ledger_info_with_signatures where
  "solo_commit =
     \<lparr>liws_ledger_info = \<lparr>li_commit_info = proposed solo_vd, li_consensus_data_hash = 0\<rparr>,
      liws_signatures = solo_sigs\<rparr>"

definition solo_setting :: setting where
  "solo_setting =
     \<lparr>sg_env = solo_senv, sg_epoch = 1, sg_verifier = solo_verifier, sg_faulty = {},
      sg_vote_data = {solo_genesis_vd, solo_vd}, sg_block_data = {solo_bd}\<rparr>"

definition solo_node :: "nat \<Rightarrow> safety_rules" where
  "solo_node n =
     (let run = (\<lambda>input st. snd (handle_message solo_senv 0 False input st));
          st0 = sr_new (pss_new (sample_store\<lparr>kv_data :=
            [SAFETY_DATA \<mapsto> VSafetyData (safety_data_new 1 0 0 0 None 0), OWNER_ACCOUNT \<mapsto> VAuthor 1,
             CONSENSUS_KEY \<mapsto> VPrivateKey (PrivateKey [1]),
             WAYPOINT \<mapsto> VWaypoint (waypoint_new_any sample_waypoint_hash (liws_ledger_info solo_epoch_li))]\<rparr>) True) False
      in if n = 0 then st0
         else if n = 1 then run (Initialize solo_change) st0
         else if n = 2 then run (ConstructAndSignVoteTwoChain solo_vp None) (run (Initialize solo_change) st0)
         else run (ConstructAndSignOrderVote solo_ovp)
           (run (ConstructAndSignVoteTwoChain solo_vp None) (run (Initialize solo_change) st0)))"

definition solo_net :: "nat \<Rightarrow> network" where
  "solo_net n =
     \<lparr>nodes = (\<lambda>a. solo_node (if a = 1 then n else 0)),
      votes = (if n < 2 then {} else {(1, solo_vd)}),
      orders = (if n < 3 then {} else {(1, proposed solo_vd)}), timeouts = {},
      signed = (if n < 2 then {} else {(1, solo_vote_li)}) \<union>
        (if n < 3 then {} else {(1, liws_ledger_info solo_commit)})\<rparr>"

lemma solo_runs:
  "fst (handle_message solo_senv 0 False (Initialize solo_change) (solo_node 0)) = Ok OutUnit"
  "initialize_target solo_senv solo_change (solo_node 0) =
     Ok (waypoint_new_any sample_waypoint_hash (liws_ledger_info solo_epoch_li),
         \<lparr>es_epoch = 1, es_verifier = solo_verifier\<rparr>,
         waypoint_new_any sample_waypoint_hash (liws_ledger_info solo_epoch_li))"
  "fst (handle_message solo_senv 0 False (ConstructAndSignVoteTwoChain solo_vp None) (solo_node 1)) =
     Ok (OutVote (vote_new_with_signature solo_vd 1 solo_vote_li (Signature [7])))"
  "map_option sd_last_vote (sr_durable (solo_node 2)) =
     Some (Some (vote_new_with_signature solo_vd 1 solo_vote_li (Signature [7])))"
  "fst (handle_message solo_senv 0 False (ConstructAndSignOrderVote solo_ovp) (solo_node 2)) =
     Ok (OutOrderVote (order_vote_new_with_signature 1 (liws_ledger_info solo_commit) (Signature [7])))"
  by code_simp+

lemma solo_sound: "sound_setting solo_setting"
proof -
  let ?infos = "[\<lparr>info_address = 1, info_public_key = PublicKey [1], info_voting_power = 1\<rparr>]"
  have new: "validator_verifier_new ?infos = (Ok solo_verifier :: (unit, _) res)" by code_simp
  have infos: "validator_infos solo_verifier = ?infos" by (simp add: solo_verifier_def build_index_def)
  have wf: "wf_verifier solo_verifier"
    using new infos by (simp add: wf_verifier_def verifier_len_def)
  have "members solo_verifier = {1}" by (simp add: members_def infos)
  moreover have "weight solo_verifier 1 = 1" by code_simp
  ultimately have "tolerates solo_verifier {}" by (simp add: tolerates_def)
  moreover have "bi_round (proposed solo_vd) = 1" by code_simp
  ultimately show ?thesis
    using wf by (auto simp: sound_setting_def solo_setting_def solo_senv_def linear_crypto_lengths
      solo_genesis_vd_def sample_block_info_def inj_on_def)
qed

lemma solo_signers: "signer_set solo_verifier solo_sigs = {1}"
proof -
  have "aggregate_signature_authors solo_verifier solo_sigs = [1]" by code_simp
  then show ?thesis by (simp add: signer_set_def)
qed

lemma solo_admissible:
  "admissible solo_setting (solo_net 0) 1 (Initialize solo_change)"
  "admissible solo_setting (solo_net 1) 1 (ConstructAndSignVoteTwoChain solo_vp None)"
  "admissible solo_setting (solo_net 2) 1 (ConstructAndSignOrderVote solo_ovp)"
proof -
  show "admissible solo_setting (solo_net 0) 1 (Initialize solo_change)"
    using solo_runs(2) by (simp add: initialize_leads_to_def solo_setting_def solo_net_def)
  have bd: "blk_block_data (vp_block solo_vp) = solo_bd"
    "blk_id (vp_block solo_vp) = bd_hash (se_env solo_senv) solo_bd" by (simp_all add: solo_vp_def blk_of_def)
  then have known: "known_block solo_setting (vp_block solo_vp)"
    by (simp add: known_block_def solo_setting_def)
  have "blk_quorum_cert (vp_block solo_vp) = solo_genesis_qc"
    by (simp add: blk_quorum_cert_def bd solo_bd_def bd_new_proposal_def)
  moreover have "genuine_qc solo_setting (solo_net 1) solo_genesis_qc"
    by (simp add: genuine_qc_def unforged_def certifies_def solo_setting_def solo_genesis_qc_def)
  moreover have "gen_vote_data H solo_vp = Ok solo_vd" for H
    by (simp add: gen_vote_data_def solo_vd_def solo_vp_def sample_proposal_def)
  ultimately show "admissible solo_setting (solo_net 1) 1 (ConstructAndSignVoteTwoChain solo_vp None)"
    using known by (simp add: solo_setting_def)
  have "genuine_qc solo_setting (solo_net 2) (ovp_quorum_cert solo_ovp)"
    by (simp add: genuine_qc_def unforged_def solo_ovp_def solo_setting_def solo_signers solo_net_def)
  with known show "admissible solo_setting (solo_net 2) 1 (ConstructAndSignOrderVote solo_ovp)"
    by (simp add: solo_ovp_def)
qed

lemma solo_node_step:
  "snd (handle_message solo_senv 0 False (Initialize solo_change) (solo_node 0)) = solo_node 1"
  "snd (handle_message solo_senv 0 False (ConstructAndSignVoteTwoChain solo_vp None) (solo_node 1)) = solo_node 2"
  "snd (handle_message solo_senv 0 False (ConstructAndSignOrderVote solo_ovp) (solo_node 2)) = solo_node 3"
  by (simp_all only: solo_node_def Let_def) simp_all

lemma solo_net_update:
  "nodes (solo_net (Suc n)) = (nodes (solo_net n))(1 := solo_node (Suc n))"
  by (auto simp: solo_net_def)

lemma solo_step:
  assumes "admissible solo_setting (solo_net n) 1 input"
    and "fst (handle_message solo_senv 0 False input (solo_node n)) = r"
    and "snd (handle_message solo_senv 0 False input (solo_node n)) = solo_node (Suc n)"
    and "update_node 1 (solo_node (Suc n)) (record_events 1 input r (solo_node n) (solo_node (Suc n)) (solo_net n)) =
      solo_net (Suc n)"
  shows "net_step solo_setting (solo_net n) (solo_net (Suc n))"
proof -
  have "nodes (solo_net n) 1 = solo_node n" by (simp add: solo_net_def)
  with assms net_step.request [of 1 solo_setting "solo_net n" input 0 False r "solo_node (Suc n)"]
  show ?thesis by (simp add: solo_setting_def prod_eq_iff)
qed

lemma solo_reachable: "net_reachable solo_setting (solo_net n)" if "n \<le> 3"
proof -
  let ?v = "vote_new_with_signature solo_vd 1 solo_vote_li (Signature [7])"
  have "fresh_node 1 (solo_node 0)"
    by (simp add: solo_node_def fresh_node_def sr_new_def pss_new_def sr_coherent_def pss_coherent_def
      sr_durable_def pss_durable_def sample_store_def SAFETY_DATA_def OWNER_ACCOUNT_def CONSENSUS_KEY_def WAYPOINT_def)
  then have init: "net_reachable solo_setting (solo_net 0)"
    by (intro net_reachable.init) (simp add: net_init_def solo_net_def solo_setting_def)
  have s1: "net_step solo_setting (solo_net 0) (solo_net 1)"
    using solo_step [OF solo_admissible(1) solo_runs(1)] solo_node_step(1)
    by (simp add: update_node_def) (simp add: solo_net_def fun_eq_iff)
  have "sr_durable (solo_node 1) = Some (safety_data_new 1 0 0 0 None 0)" by code_simp
  with solo_runs(4) have "released_votes (Ok (OutVote ?v)) (solo_node 1) (solo_node 2) = {?v}"
    by (auto simp: released_votes_def safety_data_new_def)
  then have s2: "net_step solo_setting (solo_net 1) (solo_net 2)"
    using solo_step [of 1, OF _ solo_runs(3)] solo_admissible(2) solo_node_step(2)
    by (simp add: update_node_def numeral_2_eq_2)
      (simp add: solo_net_def fun_eq_iff vote_new_with_signature_def)
  have s3: "net_step solo_setting (solo_net 2) (solo_net 3)"
    using solo_step [of 2, OF _ solo_runs(5)] solo_admissible(3) solo_node_step(3)
    by (simp add: update_node_def numeral_3_eq_3)
      (simp add: solo_net_def fun_eq_iff order_vote_new_with_signature_def solo_commit_def insert_commute)
  note reach = init net_reachable.step [OF init s1]
  note reach2 = net_reachable.step [OF reach(2) s2]
  note reach3 = net_reachable.step [OF reach2 s3]
  from that consider "n = 0" | "n = 1" | "n = 2" | "n = 3" by linarith
  then show ?thesis using reach reach2 reach3 by cases simp_all
qed

section \<open>Properties\<close>





end
