(* ===== verification/Pending_Votes.thy ===== *)
theory Pending_Votes
  imports Votes
begin

text \<open>
  Collecting votes: \<^verbatim>\<open>PendingVotes\<close> of \<^verbatim>\<open>consensus/src/pending_votes.rs\<close> and \<^verbatim>\<open>PendingOrderVotes\<close> of
  \<^verbatim>\<open>consensus/src/pending_order_votes.rs\<close>. The methods change the collector and, through the interior
  mutability of the validator verifier, the set of authors that are verified eagerly; the state they
  thread is the pair of the two. A \<^verbatim>\<open>HashMap\<close> that is only read by key is a sorted association list; where
  the code iterates over one, the order is a parameter. Counters and log lines have no model.
\<close>

section \<open>Adding a share\<close>

definition li_crypto :: "consensus_env \<Rightarrow> ledger_info crypto" where
  "li_crypto E = crypto_at SLedgerInfo (env_crypto E)"

type_synonym li_aggregator = "ledger_info signature_aggregator"

datatype vote_status =
  EnoughVotes ledger_info_with_signatures | NotEnoughVotes li_aggregator

text \<open>
  Both collectors add the share to the aggregator of its ledger info and try to form a certificate.
  What comes of it is a certificate, a voting power that is too little, or one of two errors.
\<close>

datatype share_outcome =
  Certified ledger_info_with_signatures | TooFew u128 | AddFailed verify_error
  | AggregateFailed verify_error

definition add_share ::
    "consensus_env \<Rightarrow> validator_verifier \<Rightarrow> author \<Rightarrow> signature_with_status
       \<Rightarrow> (li_aggregator \<times> verify_mode, unit, share_outcome) method_res" where
  "add_share E vv auth s st =
     (let sa = sa_add_signature (fst st) auth s;
          mode = snd st
      in case sa_check_voting_power sa vv True of
           Ok vp \<Rightarrow>
             if vp \<ge> quorum_voting_power vv then
               (case aggregate_and_verify (li_crypto E) vv (sa, mode) of
                  (Ok (li, sig), st) \<Rightarrow>
                    (Ok (Certified \<lparr>liws_ledger_info = li, liws_signatures = sig\<rparr>), st)
                | (Err (TooLittleVotingPower p _), st) \<Rightarrow> (Ok (TooFew p), st)
                | (Err e, st) \<Rightarrow> (Ok (AggregateFailed e), st)
                | (Panic, st) \<Rightarrow> (Panic, st))
             else (Panic, (sa, mode))
         | Err (TooLittleVotingPower p _) \<Rightarrow> (Ok (TooFew p), (sa, mode))
         | Err e \<Rightarrow> (Ok (AddFailed e), (sa, mode))
         | Panic \<Rightarrow> (Panic, (sa, mode)))"

text \<open>The status an aggregator is left with.\<close>

fun status_after :: "(unit, share_outcome) res \<Rightarrow> li_aggregator \<Rightarrow> vote_status" where
  "status_after (Ok (Certified l)) sa = EnoughVotes l"
| "status_after _ sa = NotEnoughVotes sa"

section \<open>Timeout votes\<close>

record two_chain_timeout_votes =
  tcv_timeout_reason :: "(author \<times> round_timeout_reason) list"
  tcv_partial_2chain_tc :: two_chain_timeout_with_partial_signatures

definition tcv_new :: "two_chain_timeout \<Rightarrow> two_chain_timeout_votes" where
  "tcv_new timeout = \<lparr>tcv_timeout_reason = [], tcv_partial_2chain_tc = tps_new timeout\<rparr>"

definition tcv_add ::
    "two_chain_timeout_votes \<Rightarrow> author \<Rightarrow> two_chain_timeout \<Rightarrow> signature \<Rightarrow> round_timeout_reason
       \<Rightarrow> two_chain_timeout_votes" where
  "tcv_add votes auth timeout sig reason =
     votes\<lparr>tcv_partial_2chain_tc := tps_add (tcv_partial_2chain_tc votes) auth timeout sig,
       tcv_timeout_reason :=
         (if contains_key auth (tcv_timeout_reason votes) then tcv_timeout_reason votes
          else btree_insert auth reason (tcv_timeout_reason votes))\<rparr>"

text \<open>
  \<open>entry_add\<close> is \<^verbatim>\<open>*map.entry(k).or_default() += v\<close>, which panics when the sum overflows; a new key is
  appended, since the map has no order of its own.
\<close>

fun entry_add :: "'k \<Rightarrow> u128 \<Rightarrow> ('k \<times> u128) list \<Rightarrow> ('e, ('k \<times> u128) list) res" where
  "entry_add k v [] = Ok [(k, v)]"
| "entry_add k v ((k', v') # m) =
     (if k = k' then bind (unwrap (checked_add v' v)) (\<lambda>s. Ok ((k', s) # m))
      else bind (entry_add k v m) (\<lambda>m'. Ok ((k', v') # m')))"

definition voting_power_of :: "validator_verifier \<Rightarrow> author \<Rightarrow> u128" where
  "voting_power_of vv auth = (case get_voting_power vv auth of Some p \<Rightarrow> ucast p | None \<Rightarrow> 0)"

text \<open>The key a reason is counted under: the variant, with a placeholder for the missing authors.\<close>

fun reason_key :: "validator_verifier \<Rightarrow> round_timeout_reason \<Rightarrow> round_timeout_reason" where
  "reason_key vv (PayloadUnavailable _) =
     PayloadUnavailable (with_num_bits (of_nat (verifier_len vv)))"
| "reason_key vv reason = reason"

fun missing_indices :: "round_timeout_reason \<Rightarrow> nat list" where
  "missing_indices (PayloadUnavailable missing_authors) = iter_ones missing_authors"
| "missing_indices _ = []"

type_synonym reason_tally = "(round_timeout_reason \<times> u128) list \<times> (nat \<times> u128) list"

definition tally_reason ::
    "validator_verifier \<Rightarrow> reason_tally \<Rightarrow> author \<times> round_timeout_reason \<Rightarrow> ('e, reason_tally) res" where
  "tally_reason vv tally entry =
     (let (powers, missing) = tally; (auth, reason) = entry
      in bind (try_fold (\<lambda>m index. entry_add index (voting_power_of vv auth) m) missing
                 (missing_indices reason)) (\<lambda>missing.
         bind (entry_add (reason_key vv reason) (voting_power_of vv auth) powers) (\<lambda>powers.
           Ok (powers, missing))))"

text \<open>\<^verbatim>\<open>Iterator::max_by_key\<close> returns the last of the elements with the greatest key.\<close>

fun max_by_power :: "('k \<times> u128) list \<Rightarrow> ('k \<times> u128) option" where
  "max_by_power [] = None"
| "max_by_power (x # xs) =
     (case max_by_power xs of
        None \<Rightarrow> Some x
      | Some y \<Rightarrow> if snd y \<ge> snd x then Some y else Some x)"

text \<open>\<^verbatim>\<open>check_aggregated_voting_power(power, false).is_ok()\<close>: whether one third of the power is exceeded.\<close>

definition has_one_third :: "validator_verifier \<Rightarrow> u128 \<Rightarrow> ('e, bool) res" where
  "has_one_third vv vp =
     (case check_aggregated_voting_power vv vp False of
        Ok _ \<Rightarrow> Ok True | Err _ \<Rightarrow> Ok False | Panic \<Rightarrow> Panic)"

definition aggregated_missing :: "validator_verifier \<Rightarrow> (nat \<times> u128) list \<Rightarrow> ('e, bit_vec) res" where
  "aggregated_missing vv missing =
     try_fold (\<lambda>bv (index, vp).
         bind (has_one_third vv vp) (\<lambda>enough. Ok (if enough then bv_set bv (of_nat index) else bv)))
       (with_num_bits (of_nat (verifier_len vv))) missing"

text \<open>\<open>order\<close> is the order in which the map of the reasons is iterated over.\<close>

type_synonym reason_order = "(round_timeout_reason \<times> u128) list \<Rightarrow> (round_timeout_reason \<times> u128) list"

definition aggregated_timeout_reason ::
    "reason_order \<Rightarrow> validator_verifier \<Rightarrow> two_chain_timeout_votes \<Rightarrow> ('e, round_timeout_reason) res" where
  "aggregated_timeout_reason order vv votes =
     bind (try_fold (tally_reason vv) ([], []) (tcv_timeout_reason votes)) (\<lambda>(powers, missing).
       case max_by_power (order powers) of
         None \<Rightarrow> Ok Unknown
       | Some (reason, vp) \<Rightarrow>
           bind (has_one_third vv vp) (\<lambda>enough.
             if \<not> enough then Ok Unknown
             else (case reason of
                     PayloadUnavailable _ \<Rightarrow>
                       bind (aggregated_missing vv missing) (\<lambda>bv. Ok (PayloadUnavailable bv))
                   | _ \<Rightarrow> Ok reason)))"

definition unpack_aggregate ::
    "reason_order \<Rightarrow> validator_verifier \<Rightarrow> two_chain_timeout_votes
       \<Rightarrow> ('e, two_chain_timeout_with_partial_signatures \<times> round_timeout_reason) res" where
  "unpack_aggregate order vv votes =
     bind (aggregated_timeout_reason order vv votes) (\<lambda>reason.
       Ok (tcv_partial_2chain_tc votes, reason))"

section \<open>Pending votes\<close>

datatype vote_reception_result =
  VoteAdded u128
| DuplicateVote
| EquivocateVote
| NewQuorumCertificate quorum_cert
| New2ChainTimeoutCertificate two_chain_timeout_certificate
| ErrorAddingVote verify_error
| ErrorAggregatingSignature verify_error
| ErrorAggregatingTimeoutCertificate verify_error
| UnexpectedRound u64 u64
| EchoTimeout u128
| VoteUnknownAuthor author

record pending_votes =
  pv_li_digest_to_votes :: "(hash_value \<times> nat \<times> vote_status) list"
  pv_maybe_2chain_timeout_votes :: "two_chain_timeout_votes option"
  pv_author_to_vote :: "(author \<times> vote \<times> hash_value) list"
  pv_echo_timeout :: bool

definition pv_new :: pending_votes where
  "pv_new =
     \<lparr>pv_li_digest_to_votes = [], pv_maybe_2chain_timeout_votes = None, pv_author_to_vote = [],
      pv_echo_timeout = False\<rparr>"

text \<open>
  The part that \<^verbatim>\<open>insert_round_timeout\<close> and \<^verbatim>\<open>insert_vote\<close> share: the result is what the method returns,
  or the voting power of the timeouts when it goes on.
\<close>

definition add_timeout ::
    "consensus_env \<Rightarrow> validator_verifier \<Rightarrow> author \<Rightarrow> two_chain_timeout \<Rightarrow> signature
       \<Rightarrow> round_timeout_reason \<Rightarrow> (pending_votes, unit, vote_reception_result + u128) method_res" where
  "add_timeout E vv auth timeout sig reason pv =
     (let votes = (case pv_maybe_2chain_timeout_votes pv of Some t \<Rightarrow> t | None \<Rightarrow> tcv_new timeout);
          votes = tcv_add votes auth timeout sig reason;
          pv = pv\<lparr>pv_maybe_2chain_timeout_votes := Some votes\<rparr>;
          partial_tc = tcv_partial_2chain_tc votes
      in case check_voting_power vv (tps_signers partial_tc) True of
           Ok _ \<Rightarrow>
             (case tps_aggregate_signatures E partial_tc vv of
                Ok tc \<Rightarrow> (Ok (Inl (New2ChainTimeoutCertificate tc)), pv)
              | Err e \<Rightarrow> (Ok (Inl (ErrorAggregatingTimeoutCertificate e)), pv)
              | Panic \<Rightarrow> (Panic, pv))
         | Err (TooLittleVotingPower tc_voting_power _) \<Rightarrow>
             if pv_echo_timeout pv then (Ok (Inr tc_voting_power), pv)
             else
               (case bind (unwrap (checked_sub (total_voting_power vv) (quorum_voting_power vv)))
                       (\<lambda>d. unwrap (checked_add d 1)) of
                  Ok f_plus_one \<Rightarrow>
                    if tc_voting_power \<ge> f_plus_one
                    then (Ok (Inl (EchoTimeout tc_voting_power)), pv\<lparr>pv_echo_timeout := True\<rparr>)
                    else (Ok (Inr tc_voting_power), pv)
                | Err e \<Rightarrow> (Err e, pv)
                | Panic \<Rightarrow> (Panic, pv))
         | Err e \<Rightarrow> (Ok (Inl (ErrorAddingVote e)), pv)
         | Panic \<Rightarrow> (Panic, pv))"

definition pv_insert_round_timeout ::
    "consensus_env \<Rightarrow> validator_verifier \<Rightarrow> round_timeout
       \<Rightarrow> (pending_votes, unit, vote_reception_result) method_res" where
  "pv_insert_round_timeout E vv t =
     m_bind (add_timeout E vv (rt_author t) (rt_timeout t) (rt_signature t) (rt_reason t)) (\<lambda>r.
       m_return (case r of Inl result \<Rightarrow> result | Inr tc_voting_power \<Rightarrow> VoteAdded tc_voting_power))"

text \<open>The first step of \<^verbatim>\<open>insert_vote\<close>: what an earlier vote of the author decides.\<close>

definition seen_before :: "pending_votes \<Rightarrow> vote \<Rightarrow> hash_value \<Rightarrow> vote_reception_result option" where
  "seen_before pv v li_digest =
     (case map_of (pv_author_to_vote pv) (vote_author v) of
        None \<Rightarrow> None
      | Some (previously_seen_vote, previous_li_digest) \<Rightarrow>
          if li_digest = previous_li_digest then
            if vote_is_timeout v \<and> \<not> vote_is_timeout previously_seen_vote then None
            else Some DuplicateVote
          else Some EquivocateVote)"

definition store_vote :: "pending_votes \<Rightarrow> vote \<Rightarrow> hash_value \<Rightarrow> pending_votes" where
  "store_vote pv v li_digest =
     pv\<lparr>pv_author_to_vote := btree_insert (vote_author v) (v, li_digest) (pv_author_to_vote pv)\<rparr>"

text \<open>The entry of a ledger info, created when there is none; the index only labels a counter.\<close>

definition entry_for :: "pending_votes \<Rightarrow> vote \<Rightarrow> hash_value \<Rightarrow> nat \<times> vote_status" where
  "entry_for pv v li_digest =
     (case map_of (pv_li_digest_to_votes pv) li_digest of
        Some entry \<Rightarrow> entry
      | None \<Rightarrow> (length (pv_li_digest_to_votes pv) + 1, NotEnoughVotes (sa_new (vote_ledger_info v))))"

definition set_entry :: "hash_value \<Rightarrow> nat \<times> vote_status \<Rightarrow> pending_votes \<Rightarrow> pending_votes" where
  "set_entry li_digest entry pv =
     pv\<lparr>pv_li_digest_to_votes := btree_insert li_digest entry (pv_li_digest_to_votes pv)\<rparr>"

text \<open>The last steps of \<^verbatim>\<open>insert_vote\<close>, when no quorum certificate could be formed.\<close>

definition vote_without_certificate ::
    "consensus_env \<Rightarrow> validator_verifier \<Rightarrow> vote \<Rightarrow> u128
       \<Rightarrow> (pending_votes, unit, vote_reception_result) method_res" where
  "vote_without_certificate E vv v voting_power =
     (case vote_two_chain_timeout v of
        None \<Rightarrow> m_return (VoteAdded voting_power)
      | Some (timeout, sig) \<Rightarrow>
          m_bind (add_timeout E vv (vote_author v) timeout sig Unknown) (\<lambda>r.
            m_return (case r of Inl result \<Rightarrow> result | Inr _ \<Rightarrow> VoteAdded voting_power)))"

text \<open>\<open>LH\<close> is the digest of a ledger info.\<close>

definition pv_insert_vote ::
    "consensus_env \<Rightarrow> (ledger_info \<Rightarrow> hash_value) \<Rightarrow> validator_verifier \<Rightarrow> vote
       \<Rightarrow> (pending_votes \<times> verify_mode, unit, vote_reception_result) method_res" where
  "pv_insert_vote E LH vv v st =
     (let (pv, mode) = st;
          li_digest = LH (vote_ledger_info v)
      in case seen_before pv v li_digest of
           Some result \<Rightarrow> (Ok result, st)
         | None \<Rightarrow>
             let pv = store_vote pv v li_digest;
                 (hash_index, status) = entry_for pv v li_digest;
                 pv = set_entry li_digest (hash_index, status) pv
             in if get_voting_power vv (vote_author v) = None
                then (Ok (VoteUnknownAuthor (vote_author v)), (pv, mode))
                else
                  (case status of
                     EnoughVotes l \<Rightarrow>
                       (Ok (NewQuorumCertificate
                          \<lparr>qc_vote_data = vote_vote_data v, qc_signed_ledger_info = l\<rparr>), (pv, mode))
                   | NotEnoughVotes sa \<Rightarrow>
                       let (outcome, sa, mode) =
                             add_share E vv (vote_author v) (vote_signature v) (sa, mode);
                           pv = set_entry li_digest (hash_index, status_after outcome sa) pv
                       in (case outcome of
                             Ok (Certified l) \<Rightarrow>
                               (Ok (NewQuorumCertificate
                                  \<lparr>qc_vote_data = vote_vote_data v, qc_signed_ledger_info = l\<rparr>), (pv, mode))
                           | Ok (TooFew voting_power) \<Rightarrow>
                               (let (r, pv) = vote_without_certificate E vv v voting_power pv
                                in (r, (pv, mode)))
                           | Ok (AddFailed e) \<Rightarrow> (Ok (ErrorAddingVote e), (pv, mode))
                           | Ok (AggregateFailed e) \<Rightarrow> (Ok (ErrorAggregatingSignature e), (pv, mode))
                           | Err e \<Rightarrow> (Err e, (pv, mode))
                           | Panic \<Rightarrow> (Panic, (pv, mode)))))"

definition drain_votes ::
    "pending_votes \<Rightarrow> ((hash_value \<times> vote_status) list \<times> two_chain_timeout_votes option) \<times> pending_votes"
where
  "drain_votes pv =
     ((map (\<lambda>(key, (_, status)). (key, status)) (pv_li_digest_to_votes pv),
       pv_maybe_2chain_timeout_votes pv),
      pv\<lparr>pv_li_digest_to_votes := [], pv_maybe_2chain_timeout_votes := None\<rparr>)"

section \<open>Pending order votes\<close>

datatype order_vote_reception_result =
  OrderVoteAdded u128
| NewLedgerInfoWithSignatures quorum_cert ledger_info_with_signatures
| ErrorAddingOrderVote verify_error
| ErrorAggregatingOrderVotes verify_error
| OrderVoteUnknownAuthor author

record pending_order_votes =
  pov_li_digest_to_votes :: "(hash_value \<times> quorum_cert \<times> vote_status) list"

definition pov_new :: pending_order_votes where
  "pov_new = \<lparr>pov_li_digest_to_votes = []\<rparr>"

definition pov_exists :: "pending_order_votes \<Rightarrow> hash_value \<Rightarrow> bool" where
  "pov_exists p li_digest = contains_key li_digest (pov_li_digest_to_votes p)"

text \<open>
  \<^verbatim>\<open>OrderVoteStatus\<close> has the same constructors as \<^verbatim>\<open>VoteStatus\<close>. The call of \<^verbatim>\<open>expect\<close> panics when there is
  neither an entry nor a quorum certificate to make one.
\<close>

definition pov_entry_for ::
    "pending_order_votes \<Rightarrow> order_vote \<Rightarrow> quorum_cert option \<Rightarrow> hash_value
       \<Rightarrow> (unit, quorum_cert \<times> vote_status) res" where
  "pov_entry_for p v verified_quorum_cert li_digest =
     (case map_of (pov_li_digest_to_votes p) li_digest of
        Some entry \<Rightarrow> Ok entry
      | None \<Rightarrow> bind (unwrap verified_quorum_cert) (\<lambda>qc.
          Ok (qc, NotEnoughVotes (sa_new (ov_ledger_info v)))))"

definition pov_set_entry ::
    "hash_value \<Rightarrow> quorum_cert \<times> vote_status \<Rightarrow> pending_order_votes \<Rightarrow> pending_order_votes" where
  "pov_set_entry li_digest entry p =
     p\<lparr>pov_li_digest_to_votes := btree_insert li_digest entry (pov_li_digest_to_votes p)\<rparr>"

definition insert_order_vote ::
    "consensus_env \<Rightarrow> (ledger_info \<Rightarrow> hash_value) \<Rightarrow> validator_verifier \<Rightarrow> order_vote
       \<Rightarrow> quorum_cert option \<Rightarrow> (pending_order_votes \<times> verify_mode, unit, order_vote_reception_result) method_res"
where
  "insert_order_vote E LH vv v verified_quorum_cert st =
     (let (p, mode) = st;
          li_digest = LH (ov_ledger_info v)
      in case pov_entry_for p v verified_quorum_cert li_digest of
           Ok (qc, EnoughVotes l) \<Rightarrow> (Ok (NewLedgerInfoWithSignatures qc l), st)
         | Ok (qc, NotEnoughVotes sa) \<Rightarrow>
             if get_voting_power vv (ov_author v) = None
             then (Ok (OrderVoteUnknownAuthor (ov_author v)),
                   (pov_set_entry li_digest (qc, NotEnoughVotes sa) p, mode))
             else
               let (outcome, sa, mode) = add_share E vv (ov_author v) (ov_signature v) (sa, mode);
                   p = pov_set_entry li_digest (qc, status_after outcome sa) p
               in (case outcome of
                     Ok (Certified l) \<Rightarrow> (Ok (NewLedgerInfoWithSignatures qc l), (p, mode))
                   | Ok (TooFew voting_power) \<Rightarrow> (Ok (OrderVoteAdded voting_power), (p, mode))
                   | Ok (AddFailed e) \<Rightarrow> (Ok (ErrorAddingOrderVote e), (p, mode))
                   | Ok (AggregateFailed e) \<Rightarrow> (Ok (ErrorAggregatingOrderVotes e), (p, mode))
                   | Err e \<Rightarrow> (Err e, (p, mode))
                   | Panic \<Rightarrow> (Panic, (p, mode)))
         | Err e \<Rightarrow> (Err e, st)
         | Panic \<Rightarrow> (Panic, st))"

fun status_ledger_info :: "vote_status \<Rightarrow> ledger_info" where
  "status_ledger_info (EnoughVotes l) = liws_ledger_info l"
| "status_ledger_info (NotEnoughVotes sa) = sa_data sa"

definition garbage_collect :: "u64 \<Rightarrow> pending_order_votes \<Rightarrow> pending_order_votes" where
  "garbage_collect ordered_round p =
     p\<lparr>pov_li_digest_to_votes :=
        filter (\<lambda>(_, _, status). bi_round (li_commit_info (status_ledger_info status)) > ordered_round)
          (pov_li_digest_to_votes p)\<rparr>"

definition has_enough_order_votes :: "(ledger_info \<Rightarrow> hash_value) \<Rightarrow> pending_order_votes \<Rightarrow> ledger_info \<Rightarrow> bool"
where
  "has_enough_order_votes LH p li =
     (case map_of (pov_li_digest_to_votes p) (LH li) of
        Some (_, EnoughVotes _) \<Rightarrow> True
      | _ \<Rightarrow> False)"

text \<open>
  The part of \<^verbatim>\<open>RoundManager::process_order_vote_msg\<close> up to the result it acts on: \<open>enabled\<close> is the on-chain
  flag and \<open>ordered_round\<close> the highest ordered round of the block store. The result is \<open>None\<close> when the
  message is ignored.
\<close>

definition process_order_vote_msg ::
    "consensus_env \<Rightarrow> (ledger_info \<Rightarrow> hash_value) \<Rightarrow> validator_verifier \<Rightarrow> bool \<Rightarrow> round
       \<Rightarrow> order_vote \<Rightarrow> quorum_cert
       \<Rightarrow> (pending_order_votes \<times> verify_mode, anyhow_error, order_vote_reception_result option) method_res"
where
  "process_order_vote_msg E LH vv enabled ordered_round v qc st =
     (let li_digest = LH (ov_ledger_info v);
          order_vote_round = bi_round (li_commit_info (ov_ledger_info v));
          insert = (\<lambda>verified_qc.
            case insert_order_vote E LH vv v verified_qc st of
              (Ok result, st) \<Rightarrow> (Ok (Some result), st)
            | (_, st) \<Rightarrow> (Panic, st))
      in if \<not> enabled \<or> has_enough_order_votes LH (fst st) (ov_ledger_info v) then (Ok None, st)
         else if order_vote_round > ordered_round then
           (case checked_add ordered_round 100 of
              None \<Rightarrow> (Panic, st)
            | Some bound \<Rightarrow>
                if order_vote_round < bound then
                  if \<not> pov_exists (fst st) li_digest then
                    (case qc_verify E qc vv of
                       Ok _ \<Rightarrow> insert (Some qc)
                     | Err e \<Rightarrow> (Err (Context ''[OrderVoteMsg QuorumCert verification failed'' e), st)
                     | Panic \<Rightarrow> (Panic, st))
                  else insert None
                else (Ok None, st))
         else (Ok None, st))"

section \<open>Shares of a certificate\<close>

lemma li_crypto_simps:
  "vv_verify (li_crypto E) vv a li sig = vv_verify (env_crypto E) vv a (SLedgerInfo li) sig"
  "verify_multi_signatures (li_crypto E) vv li s =
     verify_multi_signatures (env_crypto E) vv (SLedgerInfo li) s"
  "aggregation_complete (li_crypto E) li \<longleftrightarrow> aggregation_complete (env_crypto E) (SLedgerInfo li)"
  by (simp_all add: li_crypto_def crypto_at_def vv_verify_def verify_multi_signatures_def
      aggregation_complete_def split: option.splits)

lemma try_aggregate_signers:
  assumes wf: "wf_verifier vv" and inv: "sa_inv C vv sa" and ok: "try_aggregate C vv sa = Ok s"
  shows "signer_set vv s = set (all_voters sa)"
proof -
  let ?sigs = "map (\<lambda>(voter, s). (voter, sws_signature s)) (sa_signatures sa)"
  have q: "is_quorum vv (set (all_voters sa))" by (rule try_aggregate_quorum [OF wf inv ok])
  have fst: "map fst ?sigs = all_voters sa" by (auto simp: all_voters_def)
  then have set: "fst ` set ?sigs = set (all_voters sa)" by (metis list.set_map)
  have agg: "aggregate_signatures C vv ?sigs = Ok s"
    using ok by (auto simp: try_aggregate_def res_simps)
  have "bls_aggregate C (map snd ?sigs) \<noteq> None"
  proof
    assume "bls_aggregate C (map snd ?sigs) = None"
    moreover have "fst ` set ?sigs \<subseteq> members vv" using q set by (simp add: is_quorum_def)
    ultimately show False
      using agg aggregate_loop [OF wf, of ?sigs]
      by (simp add: aggregate_signatures_def ok_or_def comp_def split_def)
  qed
  then obtain sig where "bls_aggregate C (map snd ?sigs) = Some sig" by blast
  from aggregate_signatures_Ok [OF wf _ this] q agg set
  have "set (iter_ones (validator_bitmask s)) = index_of vv ` set (all_voters sa)"
    by (auto simp: is_quorum_def)
  with mask_of_authors(2) [OF wf _ sa_inv_distinct [OF inv]] q show ?thesis
    by (simp add: is_quorum_def)
qed

lemma all_voters_add:
  "set (all_voters (sa_add_signature sa a s)) = insert a (set (all_voters sa))"
  by (simp add: all_voters_def sa_add_signature_def)

lemma sa_add_data [simp]: "sa_data (sa_add_signature sa a s) = sa_data sa"
  by (simp add: sa_add_signature_def)

text \<open>What \<open>aggregate_and_verify\<close> leaves behind, and what the signature it returns is made of.\<close>

lemma aggregate_and_verify_state:
  assumes wf: "wf_verifier vv" and inv: "sa_inv C vv sa"
    and r: "aggregate_and_verify C vv (sa, mode) = (r, (sa', mode'))"
  shows "sa_inv C vv sa'" and "sa_data sa' = sa_data sa"
    and "set (all_voters sa') \<subseteq> set (all_voters sa)"
    and "r = Ok (d, s) \<Longrightarrow> signer_set vv s \<subseteq> set (all_voters sa)"
proof -
  have good: "good_voters C vv sa \<subseteq> set (all_voters sa)"
    by (force simp: good_voters_def all_voters_def)
  have "sa_inv C vv sa' \<and> sa_data sa' = sa_data sa \<and> set (all_voters sa') \<subseteq> set (all_voters sa) \<and>
      (\<forall>d s. r = Ok (d, s) \<longrightarrow> signer_set vv s \<subseteq> set (all_voters sa))"
    using aggregate_and_verify_cases [OF r]
  proof (elim disjE exE conjE)
    fix s e assume st: "(sa', mode') = sa_filter_invalid_signatures C vv (sa, mode)"
      and r: "r = bind (try_aggregate C vv (fst (sa', mode'))) (\<lambda>s. Ok (sa_data sa, s))"
    note f = filter_shares [OF inv st [symmetric]]
    have "signer_set vv s \<subseteq> set (all_voters sa)" if "r = Ok (d, s)" for d s
      using try_aggregate_signers [OF wf f(2)] that r f(3) good by (auto simp: res_simps)
    with f good show ?thesis by blast
  qed (use inv try_aggregate_signers [OF wf inv] in auto)
  then show "sa_inv C vv sa'" "sa_data sa' = sa_data sa"
    "set (all_voters sa') \<subseteq> set (all_voters sa)"
    "r = Ok (d, s) \<Longrightarrow> signer_set vv s \<subseteq> set (all_voters sa)" by blast+
qed

text \<open>
  The invariant of an entry: its digest is the one of its ledger info, a certificate in it verifies,
  and the shares in it are of validators.
\<close>

fun status_ok :: "consensus_env \<Rightarrow> validator_verifier \<Rightarrow> vote_status \<Rightarrow> bool" where
  "status_ok E vv (EnoughVotes l) \<longleftrightarrow> verify_signatures (env_crypto E) l vv = Ok ()"
| "status_ok E vv (NotEnoughVotes sa) \<longleftrightarrow>
     sa_inv (li_crypto E) vv sa \<and> set (all_voters sa) \<subseteq> members vv"

fun status_voters :: "validator_verifier \<Rightarrow> vote_status \<Rightarrow> author set" where
  "status_voters vv (EnoughVotes l) = signer_set vv (liws_signatures l)"
| "status_voters vv (NotEnoughVotes sa) = set (all_voters sa)"

definition bls_completes :: "consensus_env \<Rightarrow> bool" where
  "bls_completes E \<longleftrightarrow> (\<forall>li. aggregation_complete (env_crypto E) (SLedgerInfo li))"

definition share_sound ::
    "consensus_env \<Rightarrow> validator_verifier \<Rightarrow> author \<Rightarrow> ledger_info \<Rightarrow> signature_with_status \<Rightarrow> bool" where
  "share_sound E vv a li s \<longleftrightarrow>
     (sws_verified s \<longrightarrow> vv_verify (env_crypto E) vv a (SLedgerInfo li) (sws_signature s) = Ok ())"

lemma add_share_inv:
  assumes wf: "wf_verifier vv" and bls: "bls_completes E"
    and inv: "status_ok E vv (NotEnoughVotes sa)" and a: "a \<in> members vv"
    and s: "share_sound E vv a (sa_data sa) s"
    and run: "add_share E vv a s (sa, mode) = (outcome, (sa', mode'))"
  shows "status_ok E vv (status_after outcome sa')"
    and "status_ledger_info (status_after outcome sa') = sa_data sa"
    and "status_voters vv (status_after outcome sa') \<subseteq> insert a (set (all_voters sa))"
proof -
  let ?C = "li_crypto E" and ?sa = "sa_add_signature sa a s"
  have inv': "sa_inv ?C vv ?sa"
    using inv s by (intro sa_inv_add) (auto simp: share_sound_def li_crypto_simps)
  have mem: "set (all_voters ?sa) \<subseteq> members vv" using inv a by (simp add: all_voters_add)
  have complete: "aggregation_complete ?C (sa_data ?sa)"
    using bls by (simp add: bls_completes_def li_crypto_simps)
  have "status_ok E vv (status_after outcome sa') \<and>
      status_ledger_info (status_after outcome sa') = sa_data sa \<and>
      status_voters vv (status_after outcome sa') \<subseteq> insert a (set (all_voters sa))"
  proof (cases "(outcome, sa', mode') = (outcome, ?sa, mode) \<and> (\<forall>l. outcome \<noteq> Ok (Certified l))")
    case True
    then have "status_after outcome sa' = NotEnoughVotes ?sa"
      by (cases "(outcome, sa')" rule: status_after.cases) auto
    with inv' mem show ?thesis by (simp add: all_voters_add)
  next
    case False
    then obtain r where r: "aggregate_and_verify ?C vv (?sa, mode) = (r, (sa', mode'))"
      and out: "\<And>l. outcome = Ok (Certified l) \<Longrightarrow>
        r = Ok (liws_ledger_info l, liws_signatures l)"
      using run
      by (auto simp: add_share_def Let_def split: res.splits verify_error.splits prod.splits if_splits)
    note st = aggregate_and_verify_state [OF wf inv' r]
    show ?thesis
    proof (cases "\<exists>l. outcome = Ok (Certified l)")
      case True
      then obtain l where l: "outcome = Ok (Certified l)" by blast
      from out [OF l] r have ok: "aggregate_and_verify ?C vv (?sa, mode) =
          (Ok (liws_ledger_info l, liws_signatures l), (sa', mode'))" by simp
      from aggregate_and_verify_Ok [OF wf inv' complete ok] st(4) [OF out [OF l]] l show ?thesis
        by (simp add: verify_signatures_def li_crypto_simps all_voters_add)
    next
      case False
      then have "status_after outcome sa' = NotEnoughVotes sa'"
        by (cases "(outcome, sa')" rule: status_after.cases) auto
      with st(1,2,3) mem show ?thesis by (auto simp: all_voters_add)
    qed
  qed
  then show "status_ok E vv (status_after outcome sa')"
    "status_ledger_info (status_after outcome sa') = sa_data sa"
    "status_voters vv (status_after outcome sa') \<subseteq> insert a (set (all_voters sa))" by blast+
qed

lemma add_share_result:
  assumes wf: "wf_verifier vv" and bls: "bls_completes E"
    and inv: "status_ok E vv (NotEnoughVotes sa)" and a: "a \<in> members vv"
    and s: "share_sound E vv a (sa_data sa) s"
  shows "\<exists>outcome. fst (add_share E vv a s (sa, mode)) = Ok outcome"
proof -
  let ?C = "li_crypto E" and ?sa = "sa_add_signature sa a s"
  have inv': "sa_inv ?C vv ?sa"
    using inv s by (intro sa_inv_add) (auto simp: share_sound_def li_crypto_simps)
  have mem: "set (all_voters ?sa) \<subseteq> members vv" using inv a by (simp add: all_voters_add)
  have no_panic: "try_aggregate ?C vv sa' \<noteq> Panic"
    if i: "sa_inv ?C vv sa'" and m: "set (all_voters sa') \<subseteq> members vv" for sa'
  proof
    let ?sigs = "map (\<lambda>(voter, s). (voter, sws_signature s)) (sa_signatures sa')"
    assume "try_aggregate ?C vv sa' = Panic"
    moreover obtain p where "sum_voting_power vv (all_voters sa') = Ok p"
      using sum_voting_power_total [OF wf sa_inv_distinct [OF i] m] by blast
    then have "check_voting_power vv (all_voters sa') True \<noteq> Panic"
      by (simp add: check_voting_power_def check_aggregated_voting_power_def)
    moreover have "fst ` set ?sigs \<subseteq> members vv" using m by (auto simp: all_voters_def)
    ultimately show False
      using aggregate_loop [OF wf, of ?sigs]
      by (auto simp: try_aggregate_def sa_check_voting_power_def res_simps aggregate_signatures_def
          comp_def split_def)
  qed
  obtain r sa' mode' where r: "aggregate_and_verify ?C vv (?sa, mode) = (r, (sa', mode'))"
    by (metis surj_pair)
  have r_no_panic: "r \<noteq> Panic"
  proof (cases "try_aggregate ?C vv ?sa")
    case (Ok x)
    obtain sa2 m2 where f: "sa_filter_invalid_signatures ?C vv (?sa, mode) = (sa2, m2)"
      by (metis surj_pair)
    note fs = filter_shares [OF inv' f]
    have "set (all_voters sa2) \<subseteq> members vv"
      using fs(3) mem by (force simp: good_voters_def all_voters_def)
    note np = no_panic [OF fs(2) this]
    have "aggregate_and_verify ?C vv (?sa, mode) =
        (case verify_multi_signatures ?C vv (sa_data ?sa) x of
           Ok _ \<Rightarrow> (Ok (sa_data ?sa, x), (?sa, mode))
         | Err _ \<Rightarrow> (bind (try_aggregate ?C vv sa2) (\<lambda>s. Ok (sa_data ?sa, s)), (sa2, m2))
         | Panic \<Rightarrow> (Panic, (?sa, mode)))"
      using f by (cases "try_aggregate ?C vv sa2")
        (simp_all add: aggregate_and_verify_def m_bind_def m_read_def m_modify_def m_return_def Ok
          split: res.splits)
    then show ?thesis
      using r np verify_multi_signatures_no_panic [OF wf, of ?C "sa_data ?sa" x]
      by (auto simp: res_simps split: res.splits)
  qed (use r no_panic [OF inv' mem] in \<open>auto simp: aggregate_and_verify_def m_bind_def m_read_def\<close>)
  obtain p where "sum_voting_power vv (all_voters ?sa) = Ok p"
    using sum_voting_power_total [OF wf sa_inv_distinct [OF inv'] mem] by blast
  then have "sa_check_voting_power ?sa vv True =
      (if p < quorum_voting_power vv then Err (TooLittleVotingPower p (quorum_voting_power vv)) else Ok p)"
    by (simp add: sa_check_voting_power_def check_voting_power_def check_aggregated_voting_power_def)
  with r r_no_panic show ?thesis
    by (cases r) (auto simp: add_share_def Let_def split: verify_error.splits)
qed

section \<open>The invariant of the collector\<close>

text \<open>
  \<open>L\<close> is a set of ledger infos without a collision of their digests. Every entry is sound, and the
  authors of its shares are recorded with a vote for its digest.
\<close>

definition pv_inv ::
    "consensus_env \<Rightarrow> (ledger_info \<Rightarrow> hash_value) \<Rightarrow> ledger_info set \<Rightarrow> validator_verifier
       \<Rightarrow> pending_votes \<Rightarrow> bool" where
  "pv_inv E LH L vv pv \<longleftrightarrow>
     (\<forall>d i status. map_of (pv_li_digest_to_votes pv) d = Some (i, status) \<longrightarrow>
        LH (status_ledger_info status) = d \<and> status_ledger_info status \<in> L \<and> status_ok E vv status \<and>
        (\<forall>a \<in> status_voters vv status. \<exists>v. map_of (pv_author_to_vote pv) a = Some (v, d)))"

definition valid_vote :: "consensus_env \<Rightarrow> validator_verifier \<Rightarrow> vote \<Rightarrow> bool" where
  "valid_vote E vv v \<longleftrightarrow>
     li_consensus_data_hash (vote_ledger_info v) = hash_vote_data E (vote_vote_data v) \<and>
     vote_data_verify (vote_vote_data v) = Ok () \<and> vote_author v \<in> members vv \<and>
     share_sound E vv (vote_author v) (vote_ledger_info v) (vote_signature v)"

lemma valid_voteI:
  assumes "wf_verifier vv" "vote_verify E vv mode v0 = Ok v" "\<not> sws_verified (vote_signature v0)"
  shows "valid_vote E vv v"
proof -
  from assms(2) obtain s where
    h: "li_consensus_data_hash (vote_ledger_info v0) = hash_vote_data E (vote_vote_data v0)"
    and o: "optimistic_verify (env_crypto E) vv mode (vote_author v0) (SLedgerInfo (vote_ledger_info v0))
      (vote_signature v0) = Ok s"
    and d: "vote_data_verify (vote_vote_data v0) = Ok ()" and v: "v = v0\<lparr>vote_signature := s\<rparr>"
    by (auto simp: vote_verify_def res_simps)
  from optimistic_verify_Ok [OF o] assms(3) have "get_public_key vv (vote_author v0) \<noteq> None"
    "sws_verified s \<Longrightarrow> vv_verify (env_crypto E) vv (vote_author v0)
       (SLedgerInfo (vote_ledger_info v0)) (sws_signature s) = Ok ()" by auto
  with h d v show ?thesis
    by (simp add: valid_vote_def share_sound_def wf_get_None [OF assms(1)])
qed

lemma pv_inv_new: "pv_inv E LH L vv pv_new"
  by (simp add: pv_inv_def pv_new_def)

lemma add_timeout_frame:
  assumes "add_timeout E vv a t sig reason pv = (r, pv')"
  shows "pv_li_digest_to_votes pv' = pv_li_digest_to_votes pv"
    and "pv_author_to_vote pv' = pv_author_to_vote pv"
    and "r \<noteq> Ok (Inl (NewQuorumCertificate qc))"
  using assms
  by (auto simp: add_timeout_def Let_def split: res.splits verify_error.splits if_splits)

lemma round_timeout_frame:
  assumes "pv_insert_round_timeout E vv t pv = (r, pv')"
  shows "pv_li_digest_to_votes pv' = pv_li_digest_to_votes pv"
    and "pv_author_to_vote pv' = pv_author_to_vote pv"
  using assms add_timeout_frame
  by (auto simp: pv_insert_round_timeout_def m_bind_def m_return_def split: prod.splits res.splits)

lemma without_certificate_frame:
  assumes "vote_without_certificate E vv v p pv = (r, pv')"
  shows "pv_li_digest_to_votes pv' = pv_li_digest_to_votes pv"
    and "pv_author_to_vote pv' = pv_author_to_vote pv"
    and "r \<noteq> Ok (NewQuorumCertificate qc)"
  using assms
  by (auto simp: vote_without_certificate_def m_bind_def m_return_def dest: add_timeout_frame
      split: prod.splits res.splits option.splits sum.splits)

lemma pv_inv_frame:
  assumes "pv_inv E LH L vv pv" "pv_li_digest_to_votes pv' = pv_li_digest_to_votes pv"
    "pv_author_to_vote pv' = pv_author_to_vote pv"
  shows "pv_inv E LH L vv pv'"
  using assms by (simp add: pv_inv_def)

text \<open>An earlier vote of the author that does not end the method is for the same ledger info.\<close>

lemma not_seen_before:
  "seen_before pv v d = None \<Longrightarrow> map_of (pv_author_to_vote pv) (vote_author v) = Some (v', d') \<Longrightarrow> d' = d"
  by (auto simp: seen_before_def split: if_splits)

lemma pv_inv_set_entry:
  assumes "pv_inv E LH L vv pv" "seen_before pv v d = None"
    and "LH (status_ledger_info status) = d" "status_ledger_info status \<in> L" "status_ok E vv status"
    and old: "\<And>a. a \<in> status_voters vv status \<Longrightarrow>
      a = vote_author v \<or> (\<exists>v. map_of (pv_author_to_vote pv) a = Some (v, d))"
  shows "pv_inv E LH L vv (set_entry d (i, status) (store_vote pv v d))"
proof -
  have "\<exists>v'. map_of (pv_author_to_vote (store_vote pv v d)) a = Some (v', d')"
    if "map_of (pv_author_to_vote pv) a = Some (v', d')" for a v' d'
    using that not_seen_before [OF assms(2)] by (auto simp: store_vote_def)
  moreover have "pv_author_to_vote (set_entry d (i, status) (store_vote pv v d)) =
      pv_author_to_vote (store_vote pv v d)"
    "pv_li_digest_to_votes (store_vote pv v d) = pv_li_digest_to_votes pv"
    "map_of (pv_author_to_vote (store_vote pv v d)) (vote_author v) = Some (v, d)"
    by (simp_all add: set_entry_def store_vote_def)
  ultimately show ?thesis
    using assms(1,3-5) old unfolding pv_inv_def
    by (auto simp: set_entry_def split: if_splits) (metis | blast)+
qed

lemma set_entry_twice [simp]: "set_entry d e (set_entry d e' pv) = set_entry d e pv"
  by (simp add: set_entry_def)

lemma entry_for_store [simp]: "entry_for (store_vote pv v d) v d = entry_for pv v d"
  by (simp add: entry_for_def store_vote_def split: option.splits)

text \<open>The branches of \<open>pv_insert_vote\<close> for a known author.\<close>

lemma insert_vote_cases:
  assumes run: "pv_insert_vote E LH vv v (pv, mode) = (r, (pv', mode'))"
    and known: "get_voting_power vv (vote_author v) \<noteq> None"
  obtains (seen) result where "seen_before pv v (LH (vote_ledger_info v)) = Some result"
      "result = DuplicateVote \<or> result = EquivocateVote" "r = Ok result" "pv' = pv" "mode' = mode"
  | (complete) i l where "seen_before pv v (LH (vote_ledger_info v)) = None"
      "entry_for pv v (LH (vote_ledger_info v)) = (i, EnoughVotes l)"
      "pv' = set_entry (LH (vote_ledger_info v)) (i, EnoughVotes l)
         (store_vote pv v (LH (vote_ledger_info v)))"
      "r = Ok (NewQuorumCertificate \<lparr>qc_vote_data = vote_vote_data v, qc_signed_ledger_info = l\<rparr>)"
  | (added) i sa outcome sa' pv'' where "seen_before pv v (LH (vote_ledger_info v)) = None"
      "entry_for pv v (LH (vote_ledger_info v)) = (i, NotEnoughVotes sa)"
      "add_share E vv (vote_author v) (vote_signature v) (sa, mode) = (outcome, (sa', mode'))"
      "pv'' = set_entry (LH (vote_ledger_info v)) (i, status_after outcome sa')
         (store_vote pv v (LH (vote_ledger_info v)))"
      "(\<exists>l. outcome = Ok (Certified l) \<and> pv' = pv'' \<and>
          r = Ok (NewQuorumCertificate \<lparr>qc_vote_data = vote_vote_data v, qc_signed_ledger_info = l\<rparr>)) \<or>
       (\<exists>p. outcome = Ok (TooFew p) \<and> vote_without_certificate E vv v p pv'' = (r, pv')) \<or>
       (pv' = pv'' \<and> ((\<exists>e. outcome = Ok (AddFailed e) \<and> r = Ok (ErrorAddingVote e)) \<or>
          (\<exists>e. outcome = Ok (AggregateFailed e) \<and> r = Ok (ErrorAggregatingSignature e)) \<or>
          (\<exists>e. outcome = Err e \<and> r = Err e) \<or> outcome = Panic \<and> r = Panic))"
proof (cases "seen_before pv v (LH (vote_ledger_info v))")
  case (Some result)
  then have "result = DuplicateVote \<or> result = EquivocateVote"
    by (auto simp: seen_before_def split: if_splits option.splits)
  with Some run show thesis by (intro seen) (auto simp: pv_insert_vote_def)
next
  case None
  obtain i status where e: "entry_for pv v (LH (vote_ledger_info v)) = (i, status)"
    by (metis surj_pair)
  show thesis
  proof (cases status)
    case (EnoughVotes l)
    with None e run known show thesis
      by (intro complete) (auto simp: pv_insert_vote_def Let_def)
  next
    case (NotEnoughVotes sa)
    obtain outcome sa' m' where a:
        "add_share E vv (vote_author v) (vote_signature v) (sa, mode) = (outcome, (sa', m'))"
      by (metis surj_pair)
    have "m' = mode'"
      using run None e known NotEnoughVotes a
      by (auto simp: pv_insert_vote_def Let_def split: res.splits share_outcome.splits prod.splits)
    with a have a': "add_share E vv (vote_author v) (vote_signature v) (sa, mode) = (outcome, (sa', mode'))"
      by simp
    show thesis
      using run None e known NotEnoughVotes a
      by (intro added [OF None _ a' refl])
        (auto simp: pv_insert_vote_def Let_def split: res.splits share_outcome.splits prod.splits)
  qed
qed

text \<open>What an insertion keeps, and what it returns.\<close>

definition holds_certificate :: "pending_votes \<Rightarrow> hash_value \<Rightarrow> ledger_info_with_signatures \<Rightarrow> bool" where
  "holds_certificate pv d l \<longleftrightarrow> (\<exists>i. map_of (pv_li_digest_to_votes pv) d = Some (i, EnoughVotes l))"

lemma entry_for_inv:
  assumes "pv_inv E LH L vv pv" "entry_for pv v d = (i, status)" "inj_on LH L"
    and "vote_ledger_info v \<in> L" "d = LH (vote_ledger_info v)"
  shows "status_ledger_info status = vote_ledger_info v" and "status_ok E vv status"
    and "\<And>a. a \<in> status_voters vv status \<Longrightarrow> \<exists>v. map_of (pv_author_to_vote pv) a = Some (v, d)"
  using assms
  by (auto simp: pv_inv_def entry_for_def inj_on_def sa_new_def all_voters_def
      sa_inv_new [unfolded sa_new_def] split: option.splits)

lemma insert_vote_inv:
  assumes wf: "wf_verifier vv" and bls: "bls_completes E" and inj: "inj_on LH L"
    and inv: "pv_inv E LH L vv pv" and v: "valid_vote E vv v" and L: "vote_ledger_info v \<in> L"
    and run: "pv_insert_vote E LH vv v (pv, mode) = (r, (pv', mode'))"
  shows "pv_inv E LH L vv pv'"
proof -
  let ?d = "LH (vote_ledger_info v)"
  have known: "get_voting_power vv (vote_author v) \<noteq> None"
    using v by (simp add: valid_vote_def wf_get_None [OF wf])
  from run known show ?thesis
  proof (cases rule: insert_vote_cases)
    case (complete i l)
    note e = entry_for_inv [OF inv complete(2) inj L refl]
    show ?thesis unfolding complete(3)
      by (rule pv_inv_set_entry [OF inv complete(1)]) (use e L in simp_all)
  next
    case (added i sa outcome sa' pv'')
    note e = entry_for_inv [OF inv added(2) inj L refl]
    have "share_sound E vv (vote_author v) (sa_data sa) (vote_signature v)"
      using v e(1) by (simp add: valid_vote_def)
    note s = add_share_inv [OF wf bls e(2) _ this added(3)]
    have "pv_inv E LH L vv pv''" unfolding added(4)
      by (rule pv_inv_set_entry [OF inv added(1)])
        (use s e v L in \<open>auto simp: valid_vote_def\<close>)
    moreover have "pv_li_digest_to_votes pv' = pv_li_digest_to_votes pv''"
      "pv_author_to_vote pv' = pv_author_to_vote pv''"
      using added(5) without_certificate_frame(1,2) by blast+
    ultimately show ?thesis by (rule pv_inv_frame)
  qed (use inv in simp)
qed

lemma insert_vote_keeps:
  assumes wf: "wf_verifier vv" and known: "vote_author v \<in> members vv"
    and run: "pv_insert_vote E LH vv v (pv, mode) = (r, (pv', mode'))"
  shows "holds_certificate pv d l \<Longrightarrow> holds_certificate pv' d l"
    and "r = Ok (NewQuorumCertificate qc) \<Longrightarrow> qc_vote_data qc = vote_vote_data v \<and>
      holds_certificate pv' (LH (vote_ledger_info v)) (qc_signed_ledger_info qc)"
proof -
  have k: "get_voting_power vv (vote_author v) \<noteq> None" using known by (simp add: wf_get_None [OF wf])
  have "(holds_certificate pv d l \<longrightarrow> holds_certificate pv' d l) \<and>
    (r = Ok (NewQuorumCertificate qc) \<longrightarrow> qc_vote_data qc = vote_vote_data v \<and>
      holds_certificate pv' (LH (vote_ledger_info v)) (qc_signed_ledger_info qc))"
    using run k
  proof (cases rule: insert_vote_cases)
    case (complete i l)
    then show ?thesis
      by (auto simp: holds_certificate_def set_entry_def store_vote_def entry_for_def split: option.splits)
  next
    case (added i sa outcome sa' pv'')
    have "pv_li_digest_to_votes pv' = pv_li_digest_to_votes pv''"
      using added(5) without_certificate_frame(1) by blast
    moreover have "r = Ok (NewQuorumCertificate qc) \<Longrightarrow> \<exists>l. outcome = Ok (Certified l) \<and>
        qc = \<lparr>qc_vote_data = vote_vote_data v, qc_signed_ledger_info = l\<rparr>"
      using added(5) without_certificate_frame(3) by blast
    ultimately show ?thesis
      using added(2,4)
      by (auto simp: holds_certificate_def set_entry_def store_vote_def entry_for_def split: option.splits)
  qed auto
  then show "holds_certificate pv d l \<Longrightarrow> holds_certificate pv' d l"
    and "r = Ok (NewQuorumCertificate qc) \<Longrightarrow> qc_vote_data qc = vote_vote_data v \<and>
      holds_certificate pv' (LH (vote_ledger_info v)) (qc_signed_ledger_info qc)" by blast+
qed

section \<open>Runs of a collector\<close>

text \<open>
  One step of a collector: a vote or a round timeout that has passed its verification is inserted. The
  votes are for ledger infos in \<open>L\<close>.
\<close>

inductive pv_step ::
    "consensus_env \<Rightarrow> (ledger_info \<Rightarrow> hash_value) \<Rightarrow> ledger_info set \<Rightarrow> validator_verifier
       \<Rightarrow> pending_votes \<times> verify_mode \<Rightarrow> pending_votes \<times> verify_mode \<Rightarrow> bool"
  for E LH L vv
where
  step_vote: "vote_verify E vv md v0 = Ok v \<Longrightarrow> \<not> sws_verified (vote_signature v0) \<Longrightarrow>
     vote_ledger_info v \<in> L \<Longrightarrow> pv_step E LH L vv st (snd (pv_insert_vote E LH vv v st))"
| step_timeout: "round_timeout_verify E vv t = Ok () \<Longrightarrow>
     pv_step E LH L vv (pv, mode) (snd (pv_insert_round_timeout E vv t pv), mode)"

abbreviation pv_steps where
  "pv_steps E LH L vv \<equiv> (pv_step E LH L vv)\<^sup>*\<^sup>*"

text \<open>The timeouts of a collector: one share and one reason per author, all of validators.\<close>

definition pv_timeouts_ok :: "validator_verifier \<Rightarrow> pending_votes \<Rightarrow> bool" where
  "pv_timeouts_ok vv pv \<longleftrightarrow>
     (\<forall>votes. pv_maybe_2chain_timeout_votes pv = Some votes \<longrightarrow>
        wf_btree (pswr_signatures (tps_signatures (tcv_partial_2chain_tc votes))) \<and>
        set (tps_signers (tcv_partial_2chain_tc votes)) \<subseteq> members vv \<and>
        wf_btree (tcv_timeout_reason votes) \<and> fst ` set (tcv_timeout_reason votes) \<subseteq> members vv)"

lemma tps_add_ok:
  assumes "wf_btree (pswr_signatures (tps_signatures p))" "set (tps_signers p) \<subseteq> members vv"
    and "a \<in> members vv"
  shows "wf_btree (pswr_signatures (tps_signatures (tps_add p a t sig)))"
    and "set (tps_signers (tps_add p a t sig)) \<subseteq> members vv"
  using assms by (auto simp: tps_add_def Let_def pswr_add_signature_def tps_signers_def wf_btree_insert)

lemma tps_aggregate_no_panic:
  assumes wf: "wf_verifier vv" and b: "wf_btree (pswr_signatures (tps_signatures p))"
    and sub: "set (tps_signers p) \<subseteq> members vv"
  shows "tps_aggregate_signatures E p vv \<noteq> Panic"
proof -
  let ?sigs = "pswr_signatures (tps_signatures p)"
  let ?shares = "map (\<lambda>(a, r, s). (a, s)) ?sigs"
  let ?itr = "btree_collect (map (\<lambda>(a, r, sg). (index_of vv a, r)) ?sigs)"
  have sub: "fst ` set ?sigs \<subseteq> members vv" using sub by (simp add: tps_signers_def)
  have fst: "fst ` set ?shares = fst ` set ?sigs" by force
  have g: "get_partial_sig_with_rounds (tps_signatures p) (address_to_validator_index vv) =
      (\<lparr>signatures = ?shares\<rparr>, map snd ?itr)"
    using get_partial_sig_with_rounds_known [OF wf sub b] by (cases "tps_signatures p") simp
  show ?thesis
  proof (cases "bls_aggregate (env_crypto E) (map snd ?shares)")
    case None
    then have "\<exists>e. aggregate_signatures (env_crypto E) vv ?shares = Err e"
      using sub aggregate_loop [OF wf, of ?shares] fst
      by (simp add: aggregate_signatures_def ok_or_def comp_def split_def)
    then show ?thesis by (auto simp: tps_aggregate_signatures_def g)
  next
    case (Some sig)
    from aggregate_signatures_Ok [OF wf _ Some] sub fst obtain s where
      s: "aggregate_signatures (env_crypto E) vv ?shares = Ok s"
      and ones: "set (iter_ones (validator_bitmask s)) = index_of vv ` fst ` set ?sigs"
      and num: "check_num_of_voters (word_of_nat (verifier_len vv)) (validator_bitmask s) = Ok ()"
      by auto
    from claims_by_index(1) [OF wf sub wf_btree_distinct [OF b] ones]
      count_ones_iter_ones [OF check_num_of_voters_wf [OF num]] s show ?thesis
      by (simp add: tps_aggregate_signatures_def g aswr_new_def assert_def get_num_voters_def)
  qed
qed

definition one_third :: "validator_verifier \<Rightarrow> nat" where
  "one_third vv = unat (total_voting_power vv) - unat (quorum_voting_power vv) + 1"

lemma quorum_le_total:
  assumes wf: "wf_verifier vv" and pos: "0 < total_voting_power vv"
  shows "quorum_voting_power vv \<le> total_voting_power vv"
    and "unat (quorum_voting_power vv) = unat (total_voting_power vv) * 2 div 3 + 1"
proof -
  show q: "unat (quorum_voting_power vv) = unat (total_voting_power vv) * 2 div 3 + 1"
    using wf_quorum_power [OF wf] wf_total_power [OF wf] by simp
  have "0 < unat (total_voting_power vv)" using pos by (simp add: word_less_nat_alt)
  with q show "quorum_voting_power vv \<le> total_voting_power vv" by (simp add: word_le_nat_alt)
qed

text \<open>The subtraction and the addition that give the weak target do not overflow.\<close>

lemma f_plus_one:
  assumes wf: "wf_verifier vv" and pos: "0 < total_voting_power vv"
  shows "\<exists>f. bind (unwrap (checked_sub (total_voting_power vv) (quorum_voting_power vv)))
      (\<lambda>d. unwrap (checked_add d 1)) = Ok f \<and> unat f = one_third vv"
proof -
  let ?d = "total_voting_power vv - quorum_voting_power vv"
  note q = quorum_le_total [OF assms]
  have d: "unat ?d = unat (total_voting_power vv) - unat (quorum_voting_power vv)"
    by (rule unat_sub [OF q(1)])
  then have lt: "unat ?d + 1 < 2 ^ 128"
    using q(2) unsigned_less [of "total_voting_power vv", where ?'a = nat] by simp
  then have "checked_add ?d 1 = Some (?d + 1)" "unat (?d + 1) = unat ?d + 1"
    by (simp_all add: checked_add_def unat_add_lem [THEN iffD1])
  with q(1) d show ?thesis by (simp add: checked_sub_def unwrap_def one_third_def)
qed

lemma add_timeout_ok:
  assumes wf: "wf_verifier vv" and pos: "0 < total_voting_power vv"
    and ok: "pv_timeouts_ok vv pv" and a: "a \<in> members vv"
    and run: "add_timeout E vv a t sig reason pv = (r, pv')"
  shows "pv_timeouts_ok vv pv'" and "\<exists>x. r = Ok x"
proof -
  define votes where "votes = tcv_add (case pv_maybe_2chain_timeout_votes pv of Some t \<Rightarrow> t
      | None \<Rightarrow> tcv_new t) a t sig reason"
  let ?p = "tcv_partial_2chain_tc votes"
  have b: "wf_btree (pswr_signatures (tps_signatures ?p))" and sub: "set (tps_signers ?p) \<subseteq> members vv"
    using ok tps_add_ok [OF _ _ a, of "tps_new t"] tps_add_ok [OF _ _ a]
    by (auto simp: votes_def pv_timeouts_ok_def tcv_add_def tcv_new_def tps_new_def tps_signers_def
        split: option.splits)
  have "wf_btree (tcv_timeout_reason votes)" "fst ` set (tcv_timeout_reason votes) \<subseteq> members vv"
    using ok a by (auto simp: votes_def pv_timeouts_ok_def tcv_add_def tcv_new_def wf_btree_insert
        split: option.splits)
  moreover have "pv_maybe_2chain_timeout_votes pv' = Some votes"
    using run by (auto simp: add_timeout_def Let_def votes_def [symmetric]
        split: res.splits verify_error.splits if_splits)
  ultimately show "pv_timeouts_ok vv pv'" using b sub by (simp add: pv_timeouts_ok_def)
  have d: "distinct (tps_signers ?p)" using wf_btree_distinct [OF b] by (simp add: tps_signers_def)
  obtain p where "sum_voting_power vv (tps_signers ?p) = Ok p"
    using sum_voting_power_total [OF wf d sub] by blast
  then have c: "check_voting_power vv (tps_signers ?p) True =
      (if p < quorum_voting_power vv then Err (TooLittleVotingPower p (quorum_voting_power vv)) else Ok p)"
    by (simp add: check_voting_power_def check_aggregated_voting_power_def)
  obtain f where "bind (unwrap (checked_sub (total_voting_power vv) (quorum_voting_power vv)))
      (\<lambda>d. unwrap (checked_add d 1)) = (Ok f :: (unit, u128) res)"
    using f_plus_one [OF wf pos] by blast
  then show "\<exists>x. r = Ok x"
    using run tps_aggregate_no_panic [OF wf b sub, of E] c
    by (auto simp: add_timeout_def Let_def votes_def [symmetric]
        split: res.splits verify_error.splits if_splits)
qed

lemma timeout_author_known:
  assumes "wf_verifier vv" "round_timeout_verify E vv t = Ok ()"
  shows "rt_author t \<in> members vv"
  using assms wf_get_None(2) [OF assms(1), of "rt_author t"]
  by (auto simp: round_timeout_verify_def res_simps vv_verify_def split: option.splits)

lemma insert_round_timeout_ok:
  assumes "wf_verifier vv" "0 < total_voting_power vv" "pv_timeouts_ok vv pv"
    and "round_timeout_verify E vv t = Ok ()"
    and run: "pv_insert_round_timeout E vv t pv = (r, pv')"
  shows "pv_timeouts_ok vv pv' \<and> (\<exists>x. r = Ok x)"
proof -
  obtain x pv1 where a: "add_timeout E vv (rt_author t) (rt_timeout t) (rt_signature t) (rt_reason t) pv =
      (x, pv1)" by (metis surj_pair)
  from add_timeout_ok [OF assms(1-3) timeout_author_known [OF assms(1,4)] a] a run show ?thesis
    by (auto simp: pv_insert_round_timeout_def m_bind_def m_return_def)
qed

lemma insert_vote_ok:
  assumes wf: "wf_verifier vv" and pos: "0 < total_voting_power vv" and bls: "bls_completes E"
    and inj: "inj_on LH L" and inv: "pv_inv E LH L vv pv" and ok: "pv_timeouts_ok vv pv"
    and v: "valid_vote E vv v" and L: "vote_ledger_info v \<in> L"
    and run: "pv_insert_vote E LH vv v (pv, mode) = (r, (pv', mode'))"
  shows "pv_timeouts_ok vv pv' \<and> (\<exists>x. r = Ok x)"
proof -
  have a: "vote_author v \<in> members vv" using v by (simp add: valid_vote_def)
  then have known: "get_voting_power vv (vote_author v) \<noteq> None" by (simp add: wf_get_None [OF wf])
  have same: "pv_timeouts_ok vv (set_entry d e (store_vote pv v d))" for d e
    using ok by (simp add: pv_timeouts_ok_def set_entry_def store_vote_def)
  from run known show ?thesis
  proof (cases rule: insert_vote_cases)
    case (added i sa outcome sa' pv'')
    note e = entry_for_inv [OF inv added(2) inj L refl]
    have "share_sound E vv (vote_author v) (sa_data sa) (vote_signature v)"
      using v e(1) by (simp add: valid_vote_def)
    from add_share_result [OF wf bls e(2) a this, of mode] added(3)
    obtain x where x: "outcome = Ok x" by auto
    have "pv_timeouts_ok vv pv' \<and> (\<exists>x. r = Ok x)"
      if w: "vote_without_certificate E vv v p pv'' = (r, pv')" for p
    proof (cases "vote_two_chain_timeout v")
      case None
      then show ?thesis using w same by (auto simp: vote_without_certificate_def m_return_def added(4))
    next
      case (Some ts)
      obtain y pv1 where y: "add_timeout E vv (vote_author v) (fst ts) (snd ts) Unknown pv'' = (y, pv1)"
        by (metis surj_pair)
      have "pv_timeouts_ok vv pv''" using same added(4) by simp
      from add_timeout_ok [OF wf pos this a y] w Some y show ?thesis
        by (auto simp: vote_without_certificate_def m_bind_def m_return_def split_def)
    qed
    then show ?thesis using added(5) x same by (auto simp: added(4))
  qed (use ok same in auto)
qed

text \<open>Every state that a collector reaches is sound.\<close>

lemma pv_step_inv:
  assumes "pv_step E LH L vv st st'" "wf_verifier vv" "bls_completes E" "inj_on LH L"
    and "pv_inv E LH L vv (fst st)"
  shows "pv_inv E LH L vv (fst st')"
  using assms
proof (cases rule: pv_step.cases)
  case (step_vote md v0 v)
  obtain pv mode r pv' mode' where st: "st = (pv, mode)"
    and run: "pv_insert_vote E LH vv v (pv, mode) = (r, (pv', mode'))" by (metis surj_pair)
  from insert_vote_inv [OF assms(2-4) _ valid_voteI [OF assms(2) step_vote(2,3)] step_vote(4) run]
    assms(5) st run step_vote(1) show ?thesis by simp
next
  case (step_timeout t pv mode)
  then show ?thesis
    using assms(5) pv_inv_frame round_timeout_frame(1,2) [of E vv t pv] by (metis fst_conv surjective_pairing)
qed

lemma pv_steps_inv:
  assumes "pv_steps E LH L vv (pv_new, mode) st" "wf_verifier vv" "bls_completes E" "inj_on LH L"
  shows "pv_inv E LH L vv (fst st)"
  using assms(1)
proof (induction rule: rtranclp_induct)
  case (step st st')
  from pv_step_inv [OF step(2) assms(2-4) step(3)] show ?case .
qed (simp add: pv_inv_new)

lemma pv_steps_timeouts_ok:
  assumes "pv_steps E LH L vv (pv_new, mode) st" "wf_verifier vv" "0 < total_voting_power vv"
    "bls_completes E" "inj_on LH L"
  shows "pv_timeouts_ok vv (fst st)"
  using assms(1)
proof (induction rule: rtranclp_induct)
  case (step st st')
  have inv: "pv_inv E LH L vv (fst st)" by (rule pv_steps_inv [OF step(1) assms(2,4,5)])
  from step(2) show ?case
  proof (cases rule: pv_step.cases)
    case (step_vote md v0 v)
    obtain pv mode r pv' mode' where st: "st = (pv, mode)"
      and run: "pv_insert_vote E LH vv v (pv, mode) = (r, (pv', mode'))" by (metis surj_pair)
    from insert_vote_ok [OF assms(2-5) _ _ valid_voteI [OF assms(2) step_vote(2,3)] step_vote(4) run]
      inv step(3) st run step_vote(1) show ?thesis by simp
  next
    case (step_timeout t pv mode)
    obtain r pv' where run: "pv_insert_round_timeout E vv t pv = (r, pv')" by (metis surj_pair)
    from insert_round_timeout_ok [OF assms(2,3) _ step_timeout(3) run] step(3) step_timeout(1,2) run
    show ?thesis by simp
  qed
qed (simp add: pv_timeouts_ok_def pv_new_def)

lemma pv_steps_keep:
  assumes "pv_steps E LH L vv st st'" "wf_verifier vv" "holds_certificate (fst st) d l"
  shows "holds_certificate (fst st') d l"
  using assms(1)
proof (induction rule: rtranclp_induct)
  case (step st1 st2)
  from step(2) show ?case
  proof (cases rule: pv_step.cases)
    case (step_vote md v0 v)
    obtain pv mode r pv' mode' where st: "st1 = (pv, mode)"
      and run: "pv_insert_vote E LH vv v (pv, mode) = (r, (pv', mode'))" by (metis surj_pair)
    have "vote_author v \<in> members vv"
      using valid_voteI [OF assms(2) step_vote(2,3)] by (simp add: valid_vote_def)
    from insert_vote_keeps(1) [OF assms(2) this run] step(3) st run step_vote(1) show ?thesis by simp
  next
    case (step_timeout t pv mode)
    then show ?thesis
      using step(3) round_timeout_frame(1) [of E vv t pv]
      unfolding holds_certificate_def by (metis fst_conv surjective_pairing)
  qed
qed (rule assms(3))

text \<open>Two certificates in one collector have disjoint signers, unless they are the same.\<close>

lemma certificates_same_digest:
  assumes wf: "wf_verifier vv" and pos: "0 < total_voting_power vv" and inv: "pv_inv E LH L vv pv"
    and l: "holds_certificate pv d l" and l': "holds_certificate pv d' l'"
  shows "d = d'"
proof -
  from l l' inv have ok: "verify_signatures (env_crypto E) l vv = Ok ()"
      "verify_signatures (env_crypto E) l' vv = Ok ()"
    and voters: "\<forall>a \<in> signer_set vv (liws_signatures l). \<exists>v. map_of (pv_author_to_vote pv) a = Some (v, d)"
      "\<forall>a \<in> signer_set vv (liws_signatures l'). \<exists>v. map_of (pv_author_to_vote pv) a = Some (v, d')"
    by (fastforce simp: holds_certificate_def pv_inv_def)+
  have "is_quorum vv (signer_set vv (liws_signatures l))" "is_quorum vv (signer_set vv (liws_signatures l'))"
    using verify_signatures_Ok [OF wf ok(1)] verify_signatures_Ok [OF wf ok(2)] by auto
  moreover have "tolerates vv {}"
    using pos wf_total_power [OF wf] by (simp add: tolerates_def word_less_nat_alt)
  ultimately obtain a where "a \<in> signer_set vv (liws_signatures l)" "a \<in> signer_set vv (liws_signatures l')"
    using vq.intersection wf by blast
  with voters show ?thesis by fastforce
qed

section \<open>Order votes\<close>

definition pov_inv ::
    "consensus_env \<Rightarrow> (ledger_info \<Rightarrow> hash_value) \<Rightarrow> ledger_info set \<Rightarrow> validator_verifier
       \<Rightarrow> pending_order_votes \<Rightarrow> bool" where
  "pov_inv E LH L vv p \<longleftrightarrow>
     wf_btree (pov_li_digest_to_votes p) \<and>
     (\<forall>d qc status. map_of (pov_li_digest_to_votes p) d = Some (qc, status) \<longrightarrow>
        LH (status_ledger_info status) = d \<and> status_ledger_info status \<in> L \<and> status_ok E vv status \<and>
        certified_block qc = li_commit_info (status_ledger_info status) \<and> qc_verify E qc vv = Ok ())"

definition valid_order_vote :: "consensus_env \<Rightarrow> validator_verifier \<Rightarrow> order_vote \<Rightarrow> quorum_cert \<Rightarrow> bool" where
  "valid_order_vote E vv v qc \<longleftrightarrow>
     certified_block qc = li_commit_info (ov_ledger_info v) \<and> ov_author v \<in> members vv \<and>
     share_sound E vv (ov_author v) (ov_ledger_info v) (ov_signature v)"

lemma valid_order_voteI:
  assumes "wf_verifier vv" "verify_order_vote E vv mode sender v0 qc = Ok v"
    and "\<not> sws_verified (ov_signature v0)"
  shows "valid_order_vote E vv v qc"
proof -
  from assms(2) obtain s where c: "certified_block qc = li_commit_info (ov_ledger_info v0)"
    and o: "optimistic_verify (env_crypto E) vv mode (ov_author v0) (SLedgerInfo (ov_ledger_info v0))
      (ov_signature v0) = Ok s" and v: "v = v0\<lparr>ov_signature := s\<rparr>"
    by (auto simp: verify_order_vote_def order_vote_verify_def res_simps)
  from optimistic_verify_Ok [OF o] assms(3) have "get_public_key vv (ov_author v0) \<noteq> None"
    "sws_verified s \<Longrightarrow> vv_verify (env_crypto E) vv (ov_author v0)
       (SLedgerInfo (ov_ledger_info v0)) (sws_signature s) = Ok ()" by auto
  with c v show ?thesis
    by (simp add: valid_order_vote_def share_sound_def wf_get_None [OF assms(1)])
qed

lemma pov_inv_new: "pov_inv E LH L vv pov_new"
  by (simp add: pov_inv_def pov_new_def)

lemma map_of_filter_Some:
  "distinct (map fst m) \<Longrightarrow> map_of (filter P m) k = Some v \<Longrightarrow> map_of m k = Some v"
  by (auto dest!: map_of_SomeD intro: map_of_is_SomeI)

text \<open>The entry an order vote is added to.\<close>

lemma pov_entry_inv:
  assumes "pov_inv E LH L vv p" "inj_on LH L" "ov_ledger_info v \<in> L" "valid_order_vote E vv v qc"
    and vqc: "verified_qc = None \<or> verified_qc = Some qc \<and> qc_verify E qc vv = Ok ()"
    and e: "pov_entry_for p v verified_qc (LH (ov_ledger_info v)) = Ok (qc', status)"
  shows "status_ledger_info status = ov_ledger_info v" and "status_ok E vv status"
    and "certified_block qc' = li_commit_info (ov_ledger_info v)" and "qc_verify E qc' vv = Ok ()"
proof -
  have "status_ledger_info status = ov_ledger_info v \<and> status_ok E vv status \<and>
      certified_block qc' = li_commit_info (ov_ledger_info v) \<and> qc_verify E qc' vv = Ok ()"
  proof (cases "map_of (pov_li_digest_to_votes p) (LH (ov_ledger_info v))")
    case None
    with e vqc assms(4) show ?thesis
      by (auto simp: pov_entry_for_def res_simps valid_order_vote_def sa_new_def all_voters_def
          sa_inv_new [unfolded sa_new_def])
  next
    case (Some entry)
    with e have "map_of (pov_li_digest_to_votes p) (LH (ov_ledger_info v)) = Some (qc', status)"
      by (simp add: pov_entry_for_def)
    with assms(1) have "LH (status_ledger_info status) = LH (ov_ledger_info v)"
      "status_ledger_info status \<in> L" "status_ok E vv status"
      "certified_block qc' = li_commit_info (status_ledger_info status)" "qc_verify E qc' vv = Ok ()"
      unfolding pov_inv_def by blast+
    moreover from calculation have "status_ledger_info status = ov_ledger_info v"
      using inj_onD [OF assms(2) _ _ assms(3)] by blast
    ultimately show ?thesis by simp
  qed
  then show "status_ledger_info status = ov_ledger_info v" "status_ok E vv status"
    "certified_block qc' = li_commit_info (ov_ledger_info v)" "qc_verify E qc' vv = Ok ()" by blast+
qed

lemma pov_inv_set_entry:
  assumes "pov_inv E LH L vv p" "LH (status_ledger_info status) = d" "status_ledger_info status \<in> L"
    "status_ok E vv status" "certified_block qc = li_commit_info (status_ledger_info status)"
    "qc_verify E qc vv = Ok ()"
  shows "pov_inv E LH L vv (pov_set_entry d (qc, status) p)"
  using assms by (simp add: pov_inv_def pov_set_entry_def wf_btree_insert)

lemma garbage_collect_inv:
  assumes "pov_inv E LH L vv p"
  shows "pov_inv E LH L vv (garbage_collect r p)"
proof -
  have "wf_btree (pov_li_digest_to_votes (garbage_collect r p))"
    using assms by (auto simp: pov_inv_def garbage_collect_def wf_btree_def sorted_wrt_map
        intro: sorted_wrt_filter)
  moreover have "map_of (pov_li_digest_to_votes (garbage_collect r p)) d = Some e \<Longrightarrow>
      map_of (pov_li_digest_to_votes p) d = Some e" for d e
    using assms by (auto simp: pov_inv_def garbage_collect_def
        dest: map_of_filter_Some [OF wf_btree_distinct])
  ultimately show ?thesis using assms unfolding pov_inv_def by blast
qed

lemma insert_order_vote_inv:
  assumes wf: "wf_verifier vv" and bls: "bls_completes E" and inj: "inj_on LH L"
    and inv: "pov_inv E LH L vv p" and v: "valid_order_vote E vv v qc" and L: "ov_ledger_info v \<in> L"
    and vqc: "verified_qc = None \<and> pov_exists p (LH (ov_ledger_info v)) \<or>
      verified_qc = Some qc \<and> qc_verify E qc vv = Ok ()"
    and run: "insert_order_vote E LH vv v verified_qc (p, mode) = (r, (p', mode'))"
  shows "pov_inv E LH L vv p'" and "\<exists>x. r = Ok x"
    and "r = Ok (NewLedgerInfoWithSignatures qc' l) \<Longrightarrow>
      liws_ledger_info l = ov_ledger_info v \<and> verify_signatures (env_crypto E) l vv = Ok () \<and>
      certified_block qc' = li_commit_info (ov_ledger_info v) \<and> qc_verify E qc' vv = Ok ()"
proof -
  let ?d = "LH (ov_ledger_info v)"
  obtain qc1 status where e: "pov_entry_for p v verified_qc ?d = Ok (qc1, status)"
    using vqc
    by (cases "map_of (pov_li_digest_to_votes p) ?d")
      (auto simp: pov_entry_for_def pov_exists_def contains_key_def unwrap_def)
  from vqc have vqc': "verified_qc = None \<or> verified_qc = Some qc \<and> qc_verify E qc vv = Ok ()" by blast
  note en = pov_entry_inv [OF inv inj L v vqc' e]
  have a: "ov_author v \<in> members vv" using v by (simp add: valid_order_vote_def)
  then have known: "get_voting_power vv (ov_author v) \<noteq> None" by (simp add: wf_get_None [OF wf])
  have "pov_inv E LH L vv p' \<and> (\<exists>x. r = Ok x) \<and>
    (\<forall>qc' l. r = Ok (NewLedgerInfoWithSignatures qc' l) \<longrightarrow>
      liws_ledger_info l = ov_ledger_info v \<and> verify_signatures (env_crypto E) l vv = Ok () \<and>
      certified_block qc' = li_commit_info (ov_ledger_info v) \<and> qc_verify E qc' vv = Ok ())"
  proof (cases status)
    case (EnoughVotes l)
    with run e en inv show ?thesis by (auto simp: insert_order_vote_def)
  next
    case (NotEnoughVotes sa)
    obtain outcome sa' m' where s: "add_share E vv (ov_author v) (ov_signature v) (sa, mode) =
        (outcome, (sa', m'))" by (metis surj_pair)
    have sound: "share_sound E vv (ov_author v) (sa_data sa) (ov_signature v)"
      using v en(1) NotEnoughVotes by (simp add: valid_order_vote_def)
    have sok: "status_ok E vv (NotEnoughVotes sa)" using en(2) NotEnoughVotes by simp
    note st = add_share_inv [OF wf bls sok a sound s]
    obtain x where x: "outcome = Ok x" using add_share_result [OF wf bls sok a sound, of mode] s by auto
    have "pov_inv E LH L vv (pov_set_entry ?d (qc1, status_after outcome sa') p)"
      by (rule pov_inv_set_entry [OF inv]) (use st en L NotEnoughVotes in auto)
    with run e known NotEnoughVotes s x st en show ?thesis
      by (cases x) (auto simp: insert_order_vote_def)
  qed
  then show "pov_inv E LH L vv p'" "\<exists>x. r = Ok x"
    "r = Ok (NewLedgerInfoWithSignatures qc' l) \<Longrightarrow>
      liws_ledger_info l = ov_ledger_info v \<and> verify_signatures (env_crypto E) l vv = Ok () \<and>
      certified_block qc' = li_commit_info (ov_ledger_info v) \<and> qc_verify E qc' vv = Ok ()" by blast+
qed

section \<open>Reasons of a timeout\<close>

definition tally :: "('k \<times> u128) list \<Rightarrow> 'k \<Rightarrow> nat" where
  "tally m k = (case map_of m k of None \<Rightarrow> 0 | Some v \<Rightarrow> unat v)"

lemma entry_add_tally:
  assumes "tally m k + unat v < 2 ^ 128"
  shows "\<exists>m'. entry_add k v m = Ok m' \<and> tally m' = (tally m)(k := tally m k + unat v) \<and>
    map fst m' = (if k \<in> fst ` set m then map fst m else map fst m @ [k])"
  using assms
proof (induction k v m rule: entry_add.induct)
  case (1 k v)
  show ?case by (auto simp: tally_def fun_eq_iff)
next
  case (2 k v k' v' m)
  show ?case
  proof (cases "k = k'")
    case True
    then have "checked_add v' v = Some (v' + v)" "unat (v' + v) = unat v' + unat v"
      using "2.prems" by (simp_all add: tally_def checked_add_def unat_add_lem [THEN iffD1])
    with True show ?thesis by (auto simp: tally_def fun_eq_iff unwrap_def)
  next
    case False
    with "2.prems" have "tally m k + unat v < 2 ^ 128" by (simp add: tally_def)
    from "2.IH" [OF False this] False show ?thesis
      by (force simp: tally_def fun_eq_iff)
  qed
qed

lemma unat_voting_power_of [simp]: "unat (voting_power_of vv a) = weight vv a"
  by (simp add: voting_power_of_def weight_def split: option.splits)

lemma missing_fold:
  fixes v :: u128
  assumes "distinct is" "\<And>i. i \<in> set is \<Longrightarrow> tally m i + unat v < 2 ^ 128"
  shows "\<exists>m'. try_fold (\<lambda>m index. entry_add index v m) m is = (Ok m' :: ('e, _) res) \<and>
    (\<forall>i. tally m' i = tally m i + (if i \<in> set is then unat v else 0)) \<and>
    (distinct (map fst m) \<longrightarrow> distinct (map fst m'))"
  using assms
proof (induction "is" arbitrary: m)
  case (Cons j "is")
  obtain m1 where m1: "entry_add j v m = (Ok m1 :: ('e, _) res)"
    "tally m1 = (tally m)(j := tally m j + unat v)" 
    "map fst m1 = (if j \<in> fst ` set m then map fst m else map fst m @ [j])"
    using entry_add_tally [of m j v] Cons.prems(2) by auto
  then have "distinct (map fst m) \<longrightarrow> distinct (map fst m1)" by auto
  have "tally m1 l + unat v < 2 ^ 128" if "l \<in> set is" for l
    using Cons.prems m1(2) that by auto
  from Cons.IH [OF _ this] Cons.prems(1) m1 \<open>distinct (map fst m) \<longrightarrow> _\<close> show ?case by auto
qed simp

text \<open>The voting power behind a reason, and behind the report that an author's batches are missing.\<close>

definition reason_support :: "validator_verifier \<Rightarrow> (author \<times> round_timeout_reason) list \<Rightarrow> round_timeout_reason \<Rightarrow> nat"
where
  "reason_support vv rs k = (\<Sum>(a, r) \<leftarrow> rs. if reason_key vv r = k then weight vv a else 0)"

definition missing_support :: "validator_verifier \<Rightarrow> (author \<times> round_timeout_reason) list \<Rightarrow> nat \<Rightarrow> nat" where
  "missing_support vv rs i = (\<Sum>(a, r) \<leftarrow> rs. if i \<in> set (missing_indices r) then weight vv a else 0)"

lemma distinct_missing: "distinct (missing_indices r)"
  by (cases r) (simp_all add: iter_ones_distinct)

lemma tally_fold:
  assumes "(\<Sum>(a, r) \<leftarrow> rs. weight vv a) < 2 ^ 128"
  shows "\<exists>powers missing. try_fold (tally_reason vv) ([], []) rs = (Ok (powers, missing) :: ('e, _) res) \<and>
    (\<forall>k. tally powers k = reason_support vv rs k) \<and> (\<forall>i. tally missing i = missing_support vv rs i) \<and>
    distinct (map fst powers) \<and> distinct (map fst missing) \<and>
    fst ` set powers = reason_key vv ` snd ` set rs"
  using assms
proof (induction rs rule: rev_induct)
  case Nil
  show ?case by (simp add: tally_def reason_support_def missing_support_def)
next
  case (snoc x rs)
  obtain a r where x: "x = (a, r)" by (cases x)
  from snoc obtain ps ms where f: "try_fold (tally_reason vv) ([], []) rs = (Ok (ps, ms) :: ('e, _) res)"
    and t: "\<And>k. tally ps k = reason_support vv rs k" "\<And>i. tally ms i = missing_support vv rs i"
    and d: "distinct (map fst ps)" "distinct (map fst ms)" "fst ` set ps = reason_key vv ` snd ` set rs"
    by (auto simp: x)
  have le: "reason_support vv rs k \<le> (\<Sum>(a, r) \<leftarrow> rs. weight vv a)"
    "missing_support vv rs i \<le> (\<Sum>(a, r) \<leftarrow> rs. weight vv a)" for k i
    unfolding reason_support_def missing_support_def by (auto intro!: sum_list_mono)
  have "tally ms i + unat (voting_power_of vv a) < 2 ^ 128" for i
    using le(2) [of i] snoc.prems t(2) [of i] by (simp add: x)
  from missing_fold [OF distinct_missing [of r] this]
  obtain ms' where ms': "try_fold (\<lambda>m index. entry_add index (voting_power_of vv a) m) ms (missing_indices r) =
      (Ok ms' :: ('e, _) res)"
    "\<forall>i. tally ms' i = tally ms i + (if i \<in> set (missing_indices r) then weight vv a else 0)"
    "distinct (map fst ms')" using d(2) by (auto cong: if_cong)
  have "tally ps (reason_key vv r) + unat (voting_power_of vv a) < 2 ^ 128"
    using le(1) [of "reason_key vv r"] snoc.prems t(1) [of "reason_key vv r"] by (simp add: x)
  from entry_add_tally [OF this] obtain ps' where
    ps': "entry_add (reason_key vv r) (voting_power_of vv a) ps = (Ok ps' :: ('e, _) res)"
    "tally ps' = (tally ps)(reason_key vv r := tally ps (reason_key vv r) + weight vv a)"
    "map fst ps' = (if reason_key vv r \<in> fst ` set ps then map fst ps else map fst ps @ [reason_key vv r])"
    by auto
  have "tally_reason vv (ps, ms) x = (Ok (ps', ms') :: ('e, _) res)"
    by (simp add: tally_reason_def x ms' ps')
  then have "try_fold (tally_reason vv) ([], []) (rs @ [x]) = (Ok (ps', ms') :: ('e, _) res)"
    by (simp add: try_fold_append f)
  moreover have "tally ps' k = reason_support vv (rs @ [x]) k" for k
    using t(1) by (simp add: ps'(2) reason_support_def x)
  moreover have "tally ms' i = missing_support vv (rs @ [x]) i" for i
    using t(2) ms'(2) by (simp add: missing_support_def x)
  moreover have "distinct (map fst ps')" using d(1) by (auto simp: ps'(3))
  moreover have "fst ` set ps' = reason_key vv ` snd ` set (rs @ [x])"
    unfolding set_map [symmetric] ps'(3) using d(3) by (auto simp: x)
  ultimately show ?case using ms'(3) by blast
qed

lemma max_by_power_max:
  assumes "max_by_power m = Some (k, p)"
  shows "(k, p) \<in> set m" and "\<forall>(k', p') \<in> set m. p' \<le> p"
  using assms
proof (induction m arbitrary: k p)
  case (Cons x m)
  {
    case 1
    then show ?case using Cons.IH(1) by (auto split: option.splits if_splits)
  next
    case 2
    show ?case
    proof (cases "max_by_power m")
      case None
      then have "m = []" by (cases m) (auto split: option.splits if_splits)
      with 2 show ?thesis by simp
    next
      case (Some y)
      with Cons.IH(2) [of "fst y" "snd y"] have "\<forall>(k', p') \<in> set m. p' \<le> snd y" by simp
      with 2 Some show ?thesis by (auto split: if_splits)
    qed
  }
qed simp_all

lemma max_by_power_None: "max_by_power m = None \<longleftrightarrow> m = []"
  by (cases m) (auto split: option.splits)

lemma has_one_third_iff:
  assumes "wf_verifier vv" "0 < total_voting_power vv"
  shows "has_one_third vv p = Ok (one_third vv \<le> unat p)"
proof -
  obtain f where "bind (unwrap (checked_sub (total_voting_power vv) (quorum_voting_power vv)))
      (\<lambda>d. unwrap (checked_add d 1)) = (Ok f :: (verify_error, u128) res)" "unat f = one_third vv"
    using f_plus_one [OF assms] by blast
  then show ?thesis
    by (auto simp: has_one_third_def check_aggregated_voting_power_def word_less_nat_alt)
qed

lemma one_third_correct:
  assumes "wf_verifier vv" "tolerates vv F" "A \<subseteq> members vv" "one_third vv \<le> sum (weight vv) A"
  shows "\<exists>a \<in> A. a \<notin> F"
proof (rule ccontr)
  assume "\<not> ?thesis"
  then have "A \<subseteq> F \<inter> members vv" using assms(3) by blast
  then have "sum (weight vv) A \<le> sum (weight vv) (F \<inter> members vv)" by (intro sum_mono2) auto
  then show False
    using assms(2,4) wf_quorum_power [OF assms(1)] wf_total_power [OF assms(1)]
    by (simp add: one_third_def tolerates_def)
qed

lemma support_sum:
  assumes "distinct (map fst rs)"
  shows "(\<Sum>(a, r) \<leftarrow> rs. if P r then weight vv a else 0) =
    sum (weight vv) {a. \<exists>r. (a, r) \<in> set rs \<and> P r}"
  using assms
proof (induction rs)
  case (Cons x rs)
  obtain a r where x: "x = (a, r)" by (cases x)
  have "{b. \<exists>r'. (b, r') \<in> set (x # rs) \<and> P r'} =
      (if P r then insert a {b. \<exists>r'. (b, r') \<in> set rs \<and> P r'} else {b. \<exists>r'. (b, r') \<in> set rs \<and> P r'})"
    by (auto simp: x)
  moreover have "a \<notin> {b. \<exists>r'. (b, r') \<in> set rs \<and> P r'}" using Cons.prems by (force simp: x)
  moreover have "finite {b. \<exists>r'. (b, r') \<in> set rs \<and> P r'}"
    by (rule finite_subset [of _ "fst ` set rs"]) force+
  ultimately show ?case using Cons by (simp add: x)
qed simp

lemma aggregated_missing_positions:
  assumes "wf_verifier vv" "0 < total_voting_power vv"
  shows "\<exists>bv. aggregated_missing vv missing = (Ok bv :: ('e, bit_vec) res) \<and>
    positions bv = (\<lambda>(i, p). unat (of_nat i :: u16)) ` {(i, p) \<in> set missing. one_third vv \<le> unat p}"
proof -
  have "\<exists>bv. try_fold (\<lambda>bv (index, vp). bind (has_one_third vv vp)
      (\<lambda>enough. Ok (if enough then bv_set bv (of_nat index) else bv))) b missing = (Ok bv :: ('e, bit_vec) res) \<and>
    positions bv = positions b \<union>
      (\<lambda>(i, p). unat (of_nat i :: u16)) ` {(i, p) \<in> set missing. one_third vv \<le> unat p}" for b
  proof (induction missing arbitrary: b)
    case (Cons x missing)
    obtain i p where x: "x = (i, p)" by (cases x)
    have "{(j, q) \<in> set (x # missing). one_third vv \<le> unat q} =
        (if one_third vv \<le> unat p then insert (i, p) {(j, q) \<in> set missing. one_third vv \<le> unat q}
         else {(j, q) \<in> set missing. one_third vv \<le> unat q})" by (auto simp: x)
    with Cons.IH [of "bv_set b (of_nat i)"] Cons.IH [of b] show ?case
      by (cases "one_third vv \<le> unat p")
        (simp_all add: x has_one_third_iff [OF assms] positions_bv_set)
  qed simp
  from this [of "with_num_bits (of_nat (verifier_len vv))"] show ?thesis
    by (simp add: aggregated_missing_def)
qed

text \<open>Who is behind a reason, and behind a bit of the missing authors.\<close>

definition reporters :: "two_chain_timeout_votes \<Rightarrow> (round_timeout_reason \<Rightarrow> bool) \<Rightarrow> author set" where
  "reporters votes P = {a. \<exists>r. (a, r) \<in> set (tcv_timeout_reason votes) \<and> P r}"

lemma tally_entry: "distinct (map fst m) \<Longrightarrow> (k, p) \<in> set m \<Longrightarrow> tally m k = unat p"
  by (simp add: tally_def map_of_is_SomeI)

lemma reason_key_twice [simp]: "reason_key vv (reason_key vv r) = reason_key vv r"
  by (cases r) simp_all

lemma reason_key_cases: "reason_key vv r = r \<or> (\<exists>bv. r = PayloadUnavailable bv)"
  by (cases r) simp_all

lemma aggregated_reason_facts:
  assumes wf: "wf_verifier vv" and pos: "0 < total_voting_power vv"
    and d: "distinct (map fst (tcv_timeout_reason votes))"
    and mem: "fst ` set (tcv_timeout_reason votes) \<subseteq> members vv"
    and ord: "\<And>m. mset (order m) = mset m"
  shows "\<exists>reason. aggregated_timeout_reason order vv votes = (Ok reason :: ('e, _) res) \<and>
    (reason = Unknown \<or>
       one_third vv \<le> sum (weight vv) (reporters votes (\<lambda>r. reason_key vv r = reason_key vv reason)) \<and>
       (\<forall>k. sum (weight vv) (reporters votes (\<lambda>r. reason_key vv r = k)) \<le>
          sum (weight vv) (reporters votes (\<lambda>r. reason_key vv r = reason_key vv reason)))) \<and>
    (\<forall>bv. reason = PayloadUnavailable bv \<longrightarrow> (\<forall>j \<in> positions bv. \<exists>i. j = unat (of_nat i :: u16) \<and>
       one_third vv \<le> sum (weight vv) (reporters votes (\<lambda>r. i \<in> set (missing_indices r)))))"
proof -
  let ?rs = "tcv_timeout_reason votes"
  have "{a. \<exists>r. (a, r) \<in> set ?rs} = fst ` set ?rs" by force
  then have "(\<Sum>(a, r) \<leftarrow> ?rs. weight vv a) = sum (weight vv) (fst ` set ?rs)"
    using support_sum [OF d, of "\<lambda>_. True" vv] by simp
  also have "\<dots> \<le> sum (weight vv) (members vv)" using mem by (intro sum_mono2) auto
  also have "\<dots> = unat (total_voting_power vv)" by (simp add: wf_total_power [OF wf])
  also have "\<dots> < 2 ^ 128" by (rule order_less_le_trans [OF unsigned_less]) simp
  finally have "(\<Sum>(a, r) \<leftarrow> ?rs. weight vv a) < 2 ^ 128" .
  from tally_fold [where ?'e = 'e, OF this] obtain ps ms where
    fold: "try_fold (tally_reason vv) ([], []) ?rs = (Ok (ps, ms) :: ('e, _) res)"
    and ps: "\<And>k. tally ps k = reason_support vv ?rs k" "distinct (map fst ps)"
      "fst ` set ps = reason_key vv ` snd ` set ?rs"
    and ms: "\<And>i. tally ms i = missing_support vv ?rs i" "distinct (map fst ms)"
    by (elim exE conjE) (rule that; simp)
  have supp: "reason_support vv ?rs k = sum (weight vv) (reporters votes (\<lambda>r. reason_key vv r = k))"
    "missing_support vv ?rs i = sum (weight vv) (reporters votes (\<lambda>r. i \<in> set (missing_indices r)))" for k i
    unfolding reason_support_def missing_support_def reporters_def by (rule support_sum [OF d])+
  obtain bv where bv: "aggregated_missing vv ms = (Ok bv :: ('e, _) res)"
    "positions bv = (\<lambda>(i, p). unat (of_nat i :: u16)) ` {(i, p) \<in> set ms. one_third vv \<le> unat p}"
    using aggregated_missing_positions [OF wf pos] by blast
  have bits: "\<forall>j \<in> positions bv. \<exists>i. j = unat (of_nat i :: u16) \<and>
      one_third vv \<le> sum (weight vv) (reporters votes (\<lambda>r. i \<in> set (missing_indices r)))"
    using tally_entry [OF ms(2)] ms(1) supp(2) by (fastforce simp: bv(2))
  show ?thesis
  proof (cases "max_by_power (order ps)")
    case None
    with fold show ?thesis by (simp add: aggregated_timeout_reason_def)
  next
    case (Some kp)
    obtain k p where kp: "kp = (k, p)" by (cases kp)
    note m = max_by_power_max [OF Some [unfolded kp], unfolded mset_eq_setD [OF ord]]
    have key: "reason_key vv k = k" using ps(3) m(1) by (metis fst_conv imageE image_eqI reason_key_twice)
    have top: "unat p = sum (weight vv) (reporters votes (\<lambda>r. reason_key vv r = k))"
      using tally_entry [OF ps(2) m(1)] ps(1) supp(1) by simp
    have "reason_support vv ?rs k' \<le> unat p" for k'
    proof (cases "map_of ps k'")
      case (Some q)
      then show ?thesis
        using m(2) map_of_SomeD [OF Some] ps(1) [of k'] by (fastforce simp: tally_def word_le_nat_alt)
    qed (use ps(1) [of k'] in \<open>simp add: tally_def\<close>)
    then have max: "\<forall>k'. sum (weight vv) (reporters votes (\<lambda>r. reason_key vv r = k')) \<le> unat p"
      by (simp add: supp)
    have run: "aggregated_timeout_reason order vv votes =
        (if one_third vv \<le> unat p
         then (case k of PayloadUnavailable _ \<Rightarrow> Ok (PayloadUnavailable bv) | _ \<Rightarrow> Ok k)
         else (Ok Unknown :: ('e, _) res))"
      by (cases k) (simp_all add: aggregated_timeout_reason_def fold Some kp has_one_third_iff [OF wf pos] bv(1))
    show ?thesis
      using run key top max bits by (cases k) auto
  qed
qed

section \<open>Completing a quorum\<close>

lemma add_share_certifies:
  assumes wf: "wf_verifier vv" and bls: "bls_completes E"
    and total: "\<And>sigs. sigs \<noteq> [] \<Longrightarrow> bls_aggregate (env_crypto E) sigs \<noteq> None"
    and inv: "status_ok E vv (NotEnoughVotes sa)" and a: "a \<in> members vv"
    and s: "share_sound E vv a (sa_data sa) s"
    and good: "is_quorum vv (good_voters (li_crypto E) vv (sa_add_signature sa a s))"
  shows "\<exists>l st'. add_share E vv a s (sa, mode) = (Ok (Certified l), st') \<and> liws_ledger_info l = sa_data sa"
proof -
  let ?C = "li_crypto E" and ?sa = "sa_add_signature sa a s"
  have inv': "sa_inv ?C vv ?sa"
    using inv s by (intro sa_inv_add) (auto simp: share_sound_def li_crypto_simps)
  have mem: "set (all_voters ?sa) \<subseteq> members vv" using inv a by (simp add: all_voters_add)
  have sub: "good_voters ?C vv ?sa \<subseteq> set (all_voters ?sa)"
    by (force simp: good_voters_def all_voters_def)
  have "sum (weight vv) (good_voters ?C vv ?sa) \<le> sum (weight vv) (set (all_voters ?sa))"
    using sub by (intro sum_mono2) auto
  with good mem have q: "is_quorum vv (set (all_voters ?sa))" by (auto simp: is_quorum_def)
  obtain p where p: "check_voting_power vv (all_voters ?sa) True = Ok p"
    using check_voting_power_complete [OF q sa_inv_distinct [OF inv']] by blast
  then have "quorum_voting_power vv \<le> p"
    by (auto simp: check_voting_power_def check_aggregated_voting_power_def bind_Ok split: if_splits)
  moreover have "aggregation_complete ?C (sa_data ?sa)"
    using bls by (simp add: bls_completes_def li_crypto_simps)
  moreover have "bls_aggregate ?C sigs \<noteq> None" if "sigs \<noteq> []" for sigs
    using total [OF that] by (simp add: li_crypto_def crypto_at_def)
  ultimately obtain sig st' where "aggregate_and_verify ?C vv (?sa, mode) = (Ok (sa_data ?sa, sig), st')"
    using aggregate_and_verify_live [OF wf inv' _ _ mem good] by blast
  with p \<open>quorum_voting_power vv \<le> p\<close> show ?thesis
    by (simp add: add_share_def sa_check_voting_power_def)
qed

text \<open>The timeouts a collector has after the round timeouts of distinct authors.\<close>

definition collect_timeouts :: "consensus_env \<Rightarrow> validator_verifier \<Rightarrow> round_timeout list \<Rightarrow> pending_votes" where
  "collect_timeouts E vv ts = foldl (\<lambda>pv t. snd (pv_insert_round_timeout E vv t pv)) pv_new ts"

definition timeout_shares :: "round_timeout list \<Rightarrow> (author \<times> two_chain_timeout \<times> signature) list" where
  "timeout_shares ts = map (\<lambda>t. (rt_author t, rt_timeout t, rt_signature t)) ts"

lemma add_timeout_votes:
  "pv_maybe_2chain_timeout_votes (snd (add_timeout E vv a t sig reason pv)) =
     Some (tcv_add (case pv_maybe_2chain_timeout_votes pv of Some v \<Rightarrow> v | None \<Rightarrow> tcv_new t) a t sig reason)"
  by (auto simp: add_timeout_def Let_def split: res.splits verify_error.splits if_splits)

lemma insert_round_timeout_votes:
  "pv_maybe_2chain_timeout_votes (snd (pv_insert_round_timeout E vv t pv)) =
     pv_maybe_2chain_timeout_votes
       (snd (add_timeout E vv (rt_author t) (rt_timeout t) (rt_signature t) (rt_reason t) pv))"
  by (simp add: pv_insert_round_timeout_def m_bind_def m_return_def split: prod.splits res.splits)

lemma collect_timeouts_partial:
  assumes "ts \<noteq> []"
  shows "map_option tcv_partial_2chain_tc (pv_maybe_2chain_timeout_votes (collect_timeouts E vv ts)) =
    Some (tps_collect (timeout_shares ts))"
  using assms
proof (induction ts rule: rev_nonempty_induct)
  case (single t)
  show ?case
    by (simp add: collect_timeouts_def insert_round_timeout_votes add_timeout_votes pv_new_def
        tcv_add_def tcv_new_def tps_collect_def timeout_shares_def)
next
  case (snoc t ts)
  then obtain votes where "pv_maybe_2chain_timeout_votes (collect_timeouts E vv ts) = Some votes"
    "tcv_partial_2chain_tc votes = tps_collect (timeout_shares ts)" by auto
  with snoc(1) show ?case
    by (simp add: collect_timeouts_def insert_round_timeout_votes add_timeout_votes tcv_add_def
        tps_collect_def timeout_shares_def)
qed

text \<open>The result of the last insertion, when it reaches a quorum.\<close>

lemma insert_round_timeout_quorum:
  assumes p: "map_option tcv_partial_2chain_tc (pv_maybe_2chain_timeout_votes
      (snd (pv_insert_round_timeout E vv t pv))) = Some p"
    and q: "check_voting_power vv (tps_signers p) True = Ok x"
    and agg: "tps_aggregate_signatures E p vv = Ok tc"
  shows "fst (pv_insert_round_timeout E vv t pv) = Ok (New2ChainTimeoutCertificate tc)"
proof -
  define votes where "votes = tcv_add (case pv_maybe_2chain_timeout_votes pv of Some v \<Rightarrow> v
      | None \<Rightarrow> tcv_new (rt_timeout t)) (rt_author t) (rt_timeout t) (rt_signature t) (rt_reason t)"
  have "tcv_partial_2chain_tc votes = p"
    using p by (simp add: insert_round_timeout_votes add_timeout_votes votes_def)
  then have "add_timeout E vv (rt_author t) (rt_timeout t) (rt_signature t) (rt_reason t) pv =
      (Ok (Inl (New2ChainTimeoutCertificate tc)), pv\<lparr>pv_maybe_2chain_timeout_votes := Some votes\<rparr>)"
    using q agg by (simp add: add_timeout_def Let_def votes_def [symmetric])
  then show ?thesis by (simp add: pv_insert_round_timeout_def m_bind_def m_return_def)
qed

section \<open>The handler of order votes\<close>

lemma process_order_vote_facts:
  assumes "wf_verifier vv" "bls_completes E" "inj_on LH L" "pov_inv E LH L vv p"
    and "verify_order_vote E vv md sender v0 qc = Ok v" "\<not> sws_verified (ov_signature v0)"
    and "ov_ledger_info v \<in> L" "unat ordered_round + 100 < 2 ^ 64"
    and "process_order_vote_msg E LH vv enabled ordered_round v qc (p, mode) = (r, (p', mode'))"
  shows "pov_inv E LH L vv p' \<and>
    (qc_verify E qc vv = Ok () \<longrightarrow> is_ok r) \<and>
    (\<forall>qc' l. r = Ok (Some (NewLedgerInfoWithSignatures qc' l)) \<longrightarrow>
       liws_ledger_info l = ov_ledger_info v \<and> verify_signatures (env_crypto E) l vv = Ok () \<and>
       certified_block qc' = li_commit_info (ov_ledger_info v) \<and> qc_verify E qc' vv = Ok ())"
proof -
  note v = valid_order_voteI [OF assms(1,5,6)]
  obtain bound where b: "checked_add ordered_round 100 = Some bound"
    using assms(8) by (simp add: checked_add_def)
  define ins where "ins = (\<lambda>vq. case insert_order_vote E LH vv v vq (p, mode) of
      (Ok result, st) \<Rightarrow> (Ok (Some result) :: (anyhow_error, order_vote_reception_result option) res, st)
    | (_, st) \<Rightarrow> (Panic, st))"
  have inserted: "pov_inv E LH L vv p' \<and> is_ok r \<and>
      (\<forall>qc' l. r = Ok (Some (NewLedgerInfoWithSignatures qc' l)) \<longrightarrow>
         liws_ledger_info l = ov_ledger_info v \<and> verify_signatures (env_crypto E) l vv = Ok () \<and>
         certified_block qc' = li_commit_info (ov_ledger_info v) \<and> qc_verify E qc' vv = Ok ())"
    if vqc: "vq = None \<and> pov_exists p (LH (ov_ledger_info v)) \<or> vq = Some qc \<and> qc_verify E qc vv = Ok ()"
      and run: "ins vq = (r, (p', mode'))" for vq
  proof -
    obtain x p1 m1 where x: "insert_order_vote E LH vv v vq (p, mode) = (x, (p1, m1))" by (metis surj_pair)
    note i = insert_order_vote_inv [OF assms(1-4) v assms(7) vqc x]
    from i(2) obtain y where "x = Ok y" by blast
    with i(1,3) x run show ?thesis by (auto simp: ins_def)
  qed
  let ?cond = "enabled \<and> \<not> has_enough_order_votes LH p (ov_ledger_info v) \<and>
      bi_round (li_commit_info (ov_ledger_info v)) > ordered_round \<and>
      bi_round (li_commit_info (ov_ledger_info v)) < bound"
  have run: "(r, (p', mode')) =
      (if ?cond then
         if pov_exists p (LH (ov_ledger_info v)) then ins None
         else (case qc_verify E qc vv of
                 Ok _ \<Rightarrow> ins (Some qc)
               | Err e \<Rightarrow> (Err (Context ''[OrderVoteMsg QuorumCert verification failed'' e), (p, mode))
               | Panic \<Rightarrow> (Panic, (p, mode)))
       else (Ok None, (p, mode)))"
    unfolding assms(9) [symmetric] process_order_vote_msg_def Let_def ins_def [symmetric] by (simp add: b)
  consider "\<not> ?cond" | "?cond" "pov_exists p (LH (ov_ledger_info v))"
    | "?cond" "\<not> pov_exists p (LH (ov_ledger_info v))" "qc_verify E qc vv = Ok ()"
    | "?cond" "\<not> pov_exists p (LH (ov_ledger_info v))" "qc_verify E qc vv \<noteq> Ok ()" by blast
  then show ?thesis
  proof cases
    case 1
    with run have "r = Ok None" "p' = p" by simp_all
    with assms(4) show ?thesis by simp
  next
    case 2
    then have "(r, (p', mode')) = ins None" using run by (simp only: if_True simp_thms)
    from inserted [OF disjI1 [OF conjI [OF refl 2(2)]] this [symmetric]] show ?thesis by blast
  next
    case 3
    then have "(r, (p', mode')) = ins (Some qc)"
      using run by (simp only: if_True if_False simp_thms res.case)
    from inserted [OF disjI2 [OF conjI [OF refl 3(3)]] this [symmetric]] show ?thesis by blast
  next
    case 4
    with run have "p' = p" "\<not> is_ok r" by (cases "qc_verify E qc vv"; simp)+
    with assms(4) 4(3) show ?thesis by auto
  qed
qed

section \<open>A concrete run\<close>

abbreviation sample_cenv :: consensus_env where
  "sample_cenv \<equiv> sample_env"

text \<open>Votes of the sample validators for the block of round 2 that commits the one of round 1.\<close>

definition sample_li :: ledger_info where
  "sample_li = \<lparr>li_commit_info = sample_block_info 1, li_consensus_data_hash = 2\<rparr>"

definition sample_vote :: "author \<Rightarrow> vote" where
  "sample_vote a = vote_new_with_signature (qc_vote_data (sample_qc 2)) a sample_li
     (Signature [ucast a * 7])"

definition sample_votes :: "author list \<Rightarrow> pending_votes \<times> verify_mode" where
  "sample_votes as = foldl (\<lambda>st a. snd (pv_insert_vote sample_cenv (\<lambda>_. 0) sample_verifier (sample_vote a) st))
     (pv_new, sample_mode) as"

definition sample_round_timeout :: "author \<Rightarrow> u64 \<Rightarrow> round_timeout" where
  "sample_round_timeout a q = \<lparr>rt_timeout = sample_timeout 4 q, rt_author = a, rt_reason = Unknown,
     rt_signature = Signature [ucast a * (ucast q + 1)]\<rparr>"

lemma sample_bls:
  "bls_completes sample_cenv" "aggregation_complete_multi (env_crypto sample_cenv)"
  "sigs \<noteq> [] \<Longrightarrow> bls_aggregate (env_crypto sample_cenv) sigs \<noteq> None"
  by (simp_all add: bls_completes_def sample_env_def linear_crypto_complete linear_crypto_multi)
    (simp add: linear_crypto_def)

lemma sample_vote_verifies:
  assumes "a \<in> {1, 2, 3}"
  shows "vote_verify sample_cenv sample_verifier sample_mode (sample_vote a) = Ok (sample_vote a)"
    and "\<not> sws_verified (vote_signature (sample_vote a))" and "vote_ledger_info (sample_vote a) \<in> {sample_li}"
proof -
  have "list_all (\<lambda>a. vote_verify sample_cenv sample_verifier sample_mode (sample_vote a) = Ok (sample_vote a))
    [1, 2, 3]" by code_simp
  with assms show "vote_verify sample_cenv sample_verifier sample_mode (sample_vote a) = Ok (sample_vote a)"
    by auto
qed (simp_all add: sample_vote_def vote_new_with_signature_def sws_from_def)

lemma sample_votes_reachable:
  assumes "set as \<subseteq> {1, 2, 3}"
  shows "pv_steps sample_cenv (\<lambda>_. 0) {sample_li} sample_verifier (pv_new, sample_mode) (sample_votes as)"
  using assms
proof (induction as rule: rev_induct)
  case (snoc a as)
  then have a: "a \<in> {1, 2, 3}" by simp
  have "pv_step sample_cenv (\<lambda>_. 0) {sample_li} sample_verifier (sample_votes as) (sample_votes (as @ [a]))"
    using step_vote [OF sample_vote_verifies [OF a], of "\<lambda>_. 0"] by (simp add: sample_votes_def)
  with snoc show ?case by (auto intro: rtranclp.rtrancl_into_rtrancl)
qed (simp add: sample_votes_def)

lemma sample_total: "0 < total_voting_power sample_verifier"
  by (simp add: sample_verifier_def build_index_def)

definition sample_order_vote :: "author \<Rightarrow> order_vote" where
  "sample_order_vote a = order_vote_new_with_signature a
     \<lparr>li_commit_info = sample_block_info 2, li_consensus_data_hash = 0\<rparr> (Signature [ucast a * 7])"

definition sample_order_votes :: "author list \<Rightarrow> pending_order_votes \<times> verify_mode" where
  "sample_order_votes as = foldl (\<lambda>st a. snd (process_order_vote_msg sample_cenv (\<lambda>_. 0) sample_verifier True 1
     (sample_order_vote a) (sample_qc 2) st)) (pov_new, sample_mode) as"

lemma sample_order_vote_verifies:
  assumes "a \<in> {1, 2, 3}"
  shows "verify_order_vote sample_cenv sample_verifier sample_mode a (sample_order_vote a) (sample_qc 2) =
      Ok (sample_order_vote a)"
    and "\<not> sws_verified (ov_signature (sample_order_vote a))"
    and "ov_ledger_info (sample_order_vote a) \<in> {ov_ledger_info (sample_order_vote 1)}"
proof -
  have "list_all (\<lambda>a. verify_order_vote sample_cenv sample_verifier sample_mode a (sample_order_vote a) (sample_qc 2) =
    Ok (sample_order_vote a)) [1, 2, 3]" by code_simp
  with assms show "verify_order_vote sample_cenv sample_verifier sample_mode a (sample_order_vote a) (sample_qc 2) =
      Ok (sample_order_vote a)" by auto
qed (simp_all add: sample_order_vote_def order_vote_new_with_signature_def sws_from_def)

lemma sample_order_votes_inv:
  assumes "set as \<subseteq> {1, 2, 3}"
  shows "pov_inv sample_cenv (\<lambda>_. 0) {ov_ledger_info (sample_order_vote 1)} sample_verifier
    (fst (sample_order_votes as))"
  using assms
proof (induction as rule: rev_induct)
  case (snoc a as)
  let ?st = "sample_order_votes as"
  obtain r p' m' where run: "process_order_vote_msg sample_cenv (\<lambda>_. 0) sample_verifier True 1
      (sample_order_vote a) (sample_qc 2) (fst ?st, snd ?st) = (r, (p', m'))" by (metis surj_pair)
  have a: "a \<in> {1, 2, 3}" using snoc.prems by simp
  have "pov_inv sample_cenv (\<lambda>_. 0) {ov_ledger_info (sample_order_vote 1)} sample_verifier (fst ?st)"
    using snoc by simp
  from process_order_vote_facts [OF wf_sample sample_bls(1) _ this sample_order_vote_verifies [OF a] _ run]
  have "pov_inv sample_cenv (\<lambda>_. 0) {ov_ledger_info (sample_order_vote 1)} sample_verifier p'" by simp
  with run show ?case by (simp add: sample_order_votes_def)
qed (simp add: sample_order_votes_def pov_inv_new)

section \<open>Properties\<close>

text \<open>
  C23. Collected votes give certificates that verify: in every state that a collector reaches by
  inserting votes and round timeouts which have passed their own verification, inserting a further
  such vote returns, without a panic, and a quorum certificate it returns is for the block voted on
  and is accepted by \<^verbatim>\<open>QuorumCert::verify\<close>. The signatures need not have been verified before.
\<close>

theorem collected_votes_certify:
  assumes "wf_verifier vv" "0 < total_voting_power vv" "bls_completes E" "inj_on LH L"
    and "pv_steps E LH L vv (pv_new, mode) st"
    and "vote_verify E vv md v0 = Ok v" "\<not> sws_verified (vote_signature v0)" "vote_ledger_info v \<in> L"
  shows "\<exists>result. fst (pv_insert_vote E LH vv v st) = Ok result \<and>
    (\<forall>qc. result = NewQuorumCertificate qc \<longrightarrow>
       qc_vote_data qc = vote_vote_data v \<and> qc_ledger_info qc = vote_ledger_info v \<and>
       qc_verify E qc vv = Ok ())"
proof -
  obtain pv m where st: "st = (pv, m)" by (cases st)
  obtain r pv' m' where run: "pv_insert_vote E LH vv v (pv, m) = (r, (pv', m'))" by (metis surj_pair)
  note v = valid_voteI [OF assms(1,6,7)]
  have inv: "pv_inv E LH L vv pv" using pv_steps_inv [OF assms(5,1,3,4)] st by simp
  have t: "pv_timeouts_ok vv pv" using pv_steps_timeouts_ok [OF assms(5,1-4)] st by simp
  obtain result where r: "r = Ok result" using insert_vote_ok [OF assms(1-4) inv t v assms(8) run] by blast
  note inv' = insert_vote_inv [OF assms(1,3,4) inv v assms(8) run]
  have "qc_vote_data qc = vote_vote_data v \<and> qc_ledger_info qc = vote_ledger_info v \<and>
      qc_verify E qc vv = Ok ()" if qc: "result = NewQuorumCertificate qc" for qc
  proof -
    have "vote_author v \<in> members vv" using v by (simp add: valid_vote_def)
    from insert_vote_keeps(2) [OF assms(1) this run] r qc
    have d: "qc_vote_data qc = vote_vote_data v"
      and h: "holds_certificate pv' (LH (vote_ledger_info v)) (qc_signed_ledger_info qc)" by auto
    from h inv' have "LH (qc_ledger_info qc) = LH (vote_ledger_info v)" "qc_ledger_info qc \<in> L"
      and sig: "verify_signatures (env_crypto E) (qc_signed_ledger_info qc) vv = Ok ()"
      by (fastforce simp: holds_certificate_def pv_inv_def qc_ledger_info_def)+
    then have li: "qc_ledger_info qc = vote_ledger_info v" using assms(4,8) by (auto dest: inj_onD)
    have "bi_round (certified_block qc) \<noteq> 0"
      using v d by (auto simp: valid_vote_def certified_block_def vote_data_verify_Ok)
    with v d li sig show ?thesis
      by (simp add: qc_verify_def valid_vote_def ensure_def)
  qed
  with st run r show ?thesis by simp
qed

theorem collected_votes_certify_witness:
  "\<exists>qc. fst (pv_insert_vote sample_cenv (\<lambda>_. 0) sample_verifier (sample_vote 3) (sample_votes [1, 2])) =
      Ok (NewQuorumCertificate qc) \<and> qc_verify sample_cenv qc sample_verifier = Ok ()"
proof -
  have "is_ok (bind (fst (pv_insert_vote sample_cenv (\<lambda>_. 0) sample_verifier (sample_vote 3)
      (sample_votes [1, 2]))) (\<lambda>r. case r of NewQuorumCertificate qc \<Rightarrow> Ok qc | _ \<Rightarrow> Panic))" by code_simp
  moreover have "pv_steps sample_cenv (\<lambda>_. 0) {sample_li} sample_verifier (pv_new, sample_mode) (sample_votes [1, 2])"
    by (rule sample_votes_reachable) simp
  from collected_votes_certify [OF wf_sample sample_total sample_bls(1) _ this
      sample_vote_verifies [of 3]]
  obtain result where "fst (pv_insert_vote sample_cenv (\<lambda>_. 0) sample_verifier (sample_vote 3)
      (sample_votes [1, 2])) = Ok result"
    "\<forall>qc. result = NewQuorumCertificate qc \<longrightarrow> qc_verify sample_cenv qc sample_verifier = Ok ()" by auto
  ultimately show ?thesis by (auto split: vote_reception_result.splits)
qed

text \<open>
  One certificate per round: two quorum certificates that one collector returns, the second after
  any further insertions, are for the same ledger info, whatever the validators sign. A validator that
  votes for two ledger infos is counted for the first one only.
\<close>

theorem one_certificate_per_round:
  assumes "wf_verifier vv" "0 < total_voting_power vv" "bls_completes E" "inj_on LH L"
    and "pv_steps E LH L vv (pv_new, mode) st"
    and "vote_verify E vv md v0 = Ok v" "\<not> sws_verified (vote_signature v0)" "vote_ledger_info v \<in> L"
    and "pv_insert_vote E LH vv v st = (Ok (NewQuorumCertificate qc), st')"
    and "pv_steps E LH L vv st' st2"
    and "vote_verify E vv md2 v2' = Ok v2" "\<not> sws_verified (vote_signature v2')" "vote_ledger_info v2 \<in> L"
    and "pv_insert_vote E LH vv v2 st2 = (Ok (NewQuorumCertificate qc2), st2')"
  shows "vote_ledger_info v2 = vote_ledger_info v \<and> qc_signed_ledger_info qc2 = qc_signed_ledger_info qc"
proof -
  note vs = valid_voteI [OF assms(1,6,7)] valid_voteI [OF assms(1,11,12)]
  have "pv_step E LH L vv st st'" using step_vote [OF assms(6-8), of LH st] assms(9) by simp
  with assms(5,10) have reach: "pv_steps E LH L vv (pv_new, mode) st2" by simp
  have inv: "pv_inv E LH L vv (fst st2)" by (rule pv_steps_inv [OF reach assms(1,3,4)])
  obtain pv m pv' m' where st: "st = (pv, m)" "st' = (pv', m')" by fastforce
  obtain pv2 m2 pv2' m2' where st2: "st2 = (pv2, m2)" "st2' = (pv2', m2')" by fastforce
  have mem: "vote_author v \<in> members vv" "vote_author v2 \<in> members vv"
    using vs by (auto simp: valid_vote_def)
  have run: "pv_insert_vote E LH vv v (pv, m) = (Ok (NewQuorumCertificate qc), (pv', m'))"
    and run2: "pv_insert_vote E LH vv v2 (pv2, m2) = (Ok (NewQuorumCertificate qc2), (pv2', m2'))"
    using assms(9,14) st st2 by simp_all
  have "holds_certificate (fst st') (LH (vote_ledger_info v)) (qc_signed_ledger_info qc)"
    using insert_vote_keeps(2) [OF assms(1) mem(1) run] st by simp
  from insert_vote_keeps(1) [OF assms(1) mem(2) run2] pv_steps_keep [OF assms(10,1) this] st2
  have h: "holds_certificate pv2' (LH (vote_ledger_info v)) (qc_signed_ledger_info qc)" by simp
  have h2: "holds_certificate pv2' (LH (vote_ledger_info v2)) (qc_signed_ledger_info qc2)"
    using insert_vote_keeps(2) [OF assms(1) mem(2) run2] by blast
  have "pv_inv E LH L vv pv2'"
    using insert_vote_inv [OF assms(1,3,4) _ vs(2) assms(13) run2] inv st2 by simp
  from certificates_same_digest [OF assms(1,2) this h2 h]
  have d: "LH (vote_ledger_info v2) = LH (vote_ledger_info v)" .
  with h h2 have "qc_signed_ledger_info qc2 = qc_signed_ledger_info qc"
    by (auto simp: holds_certificate_def)
  with d assms(4,8,13) show ?thesis by (auto dest: inj_onD)
qed

theorem one_certificate_per_round_witness:
  "\<exists>qc qc2. fst (pv_insert_vote sample_cenv (\<lambda>_. 0) sample_verifier (sample_vote 3) (sample_votes [1, 2])) =
      Ok (NewQuorumCertificate qc) \<and>
    fst (pv_insert_vote sample_cenv (\<lambda>_. 0) sample_verifier (sample_vote 4) (sample_votes [1, 2, 3])) =
      Ok (NewQuorumCertificate qc2) \<and> qc_signed_ledger_info qc2 = qc_signed_ledger_info qc"
proof -
  let ?ins = "\<lambda>a st. pv_insert_vote sample_cenv (\<lambda>_. 0) sample_verifier (sample_vote a) st"
  let ?cert = "\<lambda>r. case r of Ok (NewQuorumCertificate qc) \<Rightarrow> Some qc | _ \<Rightarrow> None"
  have "?cert (fst (?ins 3 (sample_votes [1, 2]))) \<noteq> None"
    "?cert (fst (?ins 4 (sample_votes [1, 2, 3]))) \<noteq> None" by code_simp+
  then obtain qc qc2 where qc: "fst (?ins 3 (sample_votes [1, 2])) = Ok (NewQuorumCertificate qc)"
    and qc2: "fst (?ins 4 (sample_votes [1, 2, 3])) = Ok (NewQuorumCertificate qc2)"
    by (auto split: res.splits vote_reception_result.splits)
  have st: "snd (?ins 3 (sample_votes [1, 2])) = sample_votes [1, 2, 3]" by (simp add: sample_votes_def)
  have v4: "vote_verify sample_cenv sample_verifier sample_mode (sample_vote 4) = Ok (sample_vote 4)"
    by code_simp
  have v4': "\<not> sws_verified (vote_signature (sample_vote 4))" "vote_ledger_info (sample_vote 4) \<in> {sample_li}"
    by (simp_all add: sample_vote_def vote_new_with_signature_def sws_from_def)
  have reach: "pv_steps sample_cenv (\<lambda>_. 0) {sample_li} sample_verifier (pv_new, sample_mode) (sample_votes [1, 2])"
    by (rule sample_votes_reachable) simp
  have "?ins 3 (sample_votes [1, 2]) = (Ok (NewQuorumCertificate qc), sample_votes [1, 2, 3])"
    "?ins 4 (sample_votes [1, 2, 3]) = (Ok (NewQuorumCertificate qc2), snd (?ins 4 (sample_votes [1, 2, 3])))"
    using qc qc2 st by (metis prod.collapse)+
  from one_certificate_per_round [OF wf_sample sample_total sample_bls(1) _ reach
      sample_vote_verifies [of 3] this(1) rtranclp.rtrancl_refl v4 v4' this(2)] qc qc2
  show ?thesis by auto
qed

text \<open>
  C24. A quorum of good votes is enough: when the vote is the author's first one and, together with the
  shares collected for its ledger info, good signatures of a quorum are there, inserting it returns a
  quorum certificate, whatever bad signatures other validators have sent.
\<close>

theorem quorum_of_votes_certifies:
  assumes "wf_verifier vv" "bls_completes E" "inj_on LH L"
    and "\<And>sigs. sigs \<noteq> [] \<Longrightarrow> bls_aggregate (env_crypto E) sigs \<noteq> None"
    and "pv_steps E LH L vv (pv_new, mode) (pv, m)"
    and "vote_verify E vv md v0 = Ok v" "\<not> sws_verified (vote_signature v0)" "vote_ledger_info v \<in> L"
    and "map_of (pv_author_to_vote pv) (vote_author v) = None"
    and "snd (entry_for pv v (LH (vote_ledger_info v))) = NotEnoughVotes sa"
    and "is_quorum vv (good_voters (li_crypto E) vv (sa_add_signature sa (vote_author v) (vote_signature v)))"
  shows "\<exists>qc. fst (pv_insert_vote E LH vv v (pv, m)) = Ok (NewQuorumCertificate qc) \<and>
    qc_vote_data qc = vote_vote_data v"
proof -
  note v = valid_voteI [OF assms(1,6,7)]
  have inv: "pv_inv E LH L vv pv" using pv_steps_inv [OF assms(5,1-3)] by simp
  obtain i where e: "entry_for pv v (LH (vote_ledger_info v)) = (i, NotEnoughVotes sa)"
    using assms(10) by (metis prod.collapse)
  note en = entry_for_inv [OF inv e assms(3,8) refl]
  have a: "vote_author v \<in> members vv" and s: "share_sound E vv (vote_author v) (sa_data sa) (vote_signature v)"
    using v en(1) by (auto simp: valid_vote_def)
  obtain l st' where "add_share E vv (vote_author v) (vote_signature v) (sa, m) = (Ok (Certified l), st')"
    using add_share_certifies [OF assms(1,2,4) en(2) a s assms(11)] by blast
  moreover have "seen_before pv v (LH (vote_ledger_info v)) = None"
    using assms(9) by (simp add: seen_before_def)
  moreover have "get_voting_power vv (vote_author v) \<noteq> None" using a by (simp add: wf_get_None [OF assms(1)])
  ultimately show ?thesis using e by (auto simp: pv_insert_vote_def Let_def split: prod.splits)
qed

theorem quorum_of_votes_certifies_witness:
  "\<exists>qc. fst (pv_insert_vote sample_cenv (\<lambda>_. 0) sample_verifier (sample_vote 2) (sample_votes [3, 1])) =
      Ok (NewQuorumCertificate qc)"
proof -
  obtain pv m where st: "sample_votes [3, 1] = (pv, m)" by (cases "sample_votes [3, 1]")
  let ?e = "\<lambda>pv. snd (entry_for pv (sample_vote 2) 0)"
  let ?sa = "\<lambda>pv. case ?e pv of NotEnoughVotes sa \<Rightarrow> sa | _ \<Rightarrow> undefined"
  let ?good = "\<lambda>pv. case ?e pv of NotEnoughVotes sa \<Rightarrow> map fst (filter (\<lambda>(a, s).
      vv_verify (li_crypto sample_cenv) sample_verifier a (sa_data sa) (sws_signature s) = Ok ())
        (sa_signatures (sa_add_signature sa 2 (vote_signature (sample_vote 2))))) | _ \<Rightarrow> []"
  have "map_of (pv_author_to_vote (fst (sample_votes [3, 1]))) 2 = None"
    "?good (fst (sample_votes [3, 1])) = [1, 2, 3]" by code_simp+
  then have n: "map_of (pv_author_to_vote pv) (vote_author (sample_vote 2)) = None" and g: "?good pv = [1, 2, 3]"
    by (simp_all add: st sample_vote_def vote_new_with_signature_def)
  from g obtain sa where sa: "?e pv = NotEnoughVotes sa" by (cases "?e pv") auto
  have "good_voters (li_crypto sample_cenv) sample_verifier
      (sa_add_signature sa (vote_author (sample_vote 2)) (vote_signature (sample_vote 2))) = set (?good pv)"
    unfolding good_voters_filter using sa by (simp add: sample_vote_def vote_new_with_signature_def)
  then have "is_quorum sample_verifier (good_voters (li_crypto sample_cenv) sample_verifier
      (sa_add_signature sa (vote_author (sample_vote 2)) (vote_signature (sample_vote 2))))"
    using quorum_sample by (simp add: g)
  moreover have "pv_steps sample_cenv (\<lambda>_. 0) {sample_li} sample_verifier (pv_new, sample_mode) (pv, m)"
    unfolding st [symmetric] by (rule sample_votes_reachable) simp
  ultimately show ?thesis
    using quorum_of_votes_certifies [OF wf_sample sample_bls(1) _ sample_bls(3) _
        sample_vote_verifies [of 2] n sa] st by auto
qed



text \<open>
  C26. Round timeouts give timeout certificates: when the authors of the round timeouts inserted so far
  and of the next one are distinct and form a quorum, and all of them pass their verification for one
  epoch and round, then inserting the last one returns a timeout certificate that verifies and claims
  of every author the round of its own quorum certificate.
\<close>

theorem round_timeouts_certify:
  assumes "is_quorum vv (rt_author ` set (ts @ [t]))" "distinct (map rt_author (ts @ [t]))"
    and "list_all (\<lambda>t. to_epoch (rt_timeout t) = e \<and> to_round (rt_timeout t) = r \<and>
      round_timeout_verify E vv t = Ok ()) (ts @ [t])"
    and "aggregation_complete_multi (env_crypto E)"
  shows "\<exists>tc. fst (pv_insert_round_timeout E vv t (collect_timeouts E vv ts)) =
      Ok (New2ChainTimeoutCertificate tc) \<and>
    tc_verify E tc vv = Ok () \<and> tc_epoch tc = e \<and> tc_round tc = r \<and>
    set (tc_claims vv tc) = (\<lambda>t. (rt_author t, hqc_round (rt_timeout t))) ` set (ts @ [t])"
proof -
  let ?ts = "ts @ [t]" and ?p = "tps_collect (timeout_shares (ts @ [t]))"
  have authors: "fst ` set (timeout_shares ?ts) = rt_author ` set ?ts"
    and fst: "map fst (timeout_shares ?ts) = map rt_author ?ts"
    by (simp_all add: timeout_shares_def image_image comp_def)
  have claims: "(\<lambda>(a, t, _). (a, hqc_round t)) ` set (timeout_shares ?ts) =
      (\<lambda>t. (rt_author t, hqc_round (rt_timeout t))) ` set ?ts"
    by (simp add: timeout_shares_def image_image)
  have "list_all (\<lambda>(a, t, sig). to_epoch t = e \<and> to_round t = r \<and> timeout_verify E t vv = Ok () \<and>
      vv_verify (env_crypto E) vv a (signing_format t) sig = Ok ()) (timeout_shares ?ts)"
    using assms(3) by (auto simp: list_all_iff timeout_shares_def round_timeout_verify_def res_simps)
  from collected_timeouts_verify [OF _ _ this assms(4)] assms(1,2)
  obtain tc where tc: "tps_aggregate_signatures E ?p vv = Ok tc" "tc_verify E tc vv = Ok ()"
      "tc_epoch tc = e" "tc_round tc = r"
      "set (tc_claims vv tc) = (\<lambda>t. (rt_author t, hqc_round (rt_timeout t))) ` set ?ts"
    unfolding authors fst claims by blast
  have "set (tps_signers ?p) = rt_author ` set ?ts" "tps_inv ?p"
    using tps_collect_inv [of "timeout_shares ?ts"] assms(2) authors unfolding fst
    by (auto simp: timeout_shares_def)
  moreover from this have "distinct (tps_signers ?p)"
    by (simp add: tps_inv_def tps_signers_def wf_btree_distinct)
  ultimately obtain x where q: "check_voting_power vv (tps_signers ?p) True = Ok x"
    using check_voting_power_complete assms(1) by metis
  have "collect_timeouts E vv ?ts = snd (pv_insert_round_timeout E vv t (collect_timeouts E vv ts))"
    by (simp add: collect_timeouts_def)
  with collect_timeouts_partial [of ?ts E vv]
  have "fst (pv_insert_round_timeout E vv t (collect_timeouts E vv ts)) = Ok (New2ChainTimeoutCertificate tc)"
    by (intro insert_round_timeout_quorum [OF _ q tc(1)]) simp
  with tc show ?thesis by blast
qed

theorem round_timeouts_certify_witness:
  "\<exists>tc. fst (pv_insert_round_timeout sample_cenv sample_verifier (sample_round_timeout 2 2)
      (collect_timeouts sample_cenv sample_verifier [sample_round_timeout 3 0, sample_round_timeout 1 1])) =
      Ok (New2ChainTimeoutCertificate tc) \<and> tc_verify sample_cenv tc sample_verifier = Ok () \<and>
      set (tc_claims sample_verifier tc) = {(3, 0), (1, 1), (2, 2)}"
proof -
  let ?ts = "[sample_round_timeout 3 0, sample_round_timeout 1 1] @ [sample_round_timeout 2 2]"
  have q: "is_quorum sample_verifier (rt_author ` set ?ts)" "distinct (map rt_author ?ts)"
    using quorum_sample by (simp_all add: sample_round_timeout_def insert_commute)
  have v: "list_all (\<lambda>t. to_epoch (rt_timeout t) = 1 \<and> to_round (rt_timeout t) = 4 \<and>
      round_timeout_verify sample_cenv sample_verifier t = Ok ()) ?ts" by code_simp
  have claims: "map (\<lambda>t. (rt_author t, hqc_round (rt_timeout t))) ?ts = [(3, 0), (1, 1), (2, 2)]" by code_simp
  have "(\<lambda>t. (rt_author t, hqc_round (rt_timeout t))) ` set ?ts = set [(3, 0), (1, 1), (2, 2)]"
    by (simp only: set_map [symmetric] claims)
  with round_timeouts_certify [OF q v sample_bls(2)] show ?thesis by (simp only: list.set) blast
qed


text \<open>
  C27. The reason of a timeout is not made up by the faulty: on timeouts of distinct validators, whatever
  order the map of the reasons is iterated in, the aggregation of the reasons returns; a reason other
  than \<^verbatim>\<open>Unknown\<close> was reported by a correct validator, and for every author it marks as missing some
  correct validator has reported so, up to the truncation of the index to 16 bits.
\<close>

theorem timeout_reason_from_correct:
  assumes "wf_verifier vv" "0 < total_voting_power vv" "tolerates vv F"
    and "distinct (map fst (tcv_timeout_reason votes))"
    and "fst ` set (tcv_timeout_reason votes) \<subseteq> members vv"
    and "\<And>m. mset (order m) = mset m"
  shows "\<exists>reason. aggregated_timeout_reason order vv votes = (Ok reason :: ('e, _) res) \<and>
    (reason = Unknown \<or>
       (\<exists>a r. a \<notin> F \<and> (a, r) \<in> set (tcv_timeout_reason votes) \<and> reason_key vv r = reason_key vv reason)) \<and>
    (\<forall>bv. reason = PayloadUnavailable bv \<longrightarrow> (\<forall>j \<in> positions bv.
       \<exists>a r i. a \<notin> F \<and> (a, r) \<in> set (tcv_timeout_reason votes) \<and> i \<in> set (missing_indices r) \<and>
         j = unat (of_nat i :: u16)))"
proof -
  have mem: "reporters votes P \<subseteq> members vv" for P using assms(5) by (force simp: reporters_def)
  have correct: "\<exists>a r. a \<notin> F \<and> (a, r) \<in> set (tcv_timeout_reason votes) \<and> P r"
    if "one_third vv \<le> sum (weight vv) (reporters votes P)" for P
    using one_third_correct [OF assms(1,3) mem that] by (auto simp: reporters_def)
  from aggregated_reason_facts [where ?'e = 'e, OF assms(1,2,4-6)] obtain reason where
    run: "aggregated_timeout_reason order vv votes = (Ok reason :: ('e, _) res)"
    and key: "reason \<noteq> Unknown \<Longrightarrow> one_third vv \<le>
      sum (weight vv) (reporters votes (\<lambda>r. reason_key vv r = reason_key vv reason))"
    and bits: "\<And>bv j. reason = PayloadUnavailable bv \<Longrightarrow> j \<in> positions bv \<Longrightarrow> \<exists>i. j = unat (of_nat i :: u16) \<and>
       one_third vv \<le> sum (weight vv) (reporters votes (\<lambda>r. i \<in> set (missing_indices r)))"
    by (elim exE conjE) (rule that, assumption, blast+)
  have "\<exists>a r i. a \<notin> F \<and> (a, r) \<in> set (tcv_timeout_reason votes) \<and> i \<in> set (missing_indices r) \<and>
      j = unat (of_nat i :: u16)" if "reason = PayloadUnavailable bv" "j \<in> positions bv" for bv j
    using bits [OF that] correct [of "\<lambda>r. _ \<in> set (missing_indices r)"] by fast
  with run correct [OF key] show ?thesis by blast
qed

theorem timeout_reason_from_correct_witness:
  "\<exists>votes. aggregated_timeout_reason (\<lambda>m. m) sample_verifier votes = (Ok ProposalNotReceived :: (unit, _) res) \<and>
     (\<exists>a r. a \<notin> {4} \<and> (a, r) \<in> set (tcv_timeout_reason votes) \<and>
        reason_key sample_verifier r = ProposalNotReceived)"
proof -
  let ?v = "\<lparr>tcv_timeout_reason = [(1, ProposalNotReceived), (2, ProposalNotReceived), (4, NoQC)],
    tcv_partial_2chain_tc = tps_new (sample_timeout 4 0)\<rparr>"
  have run: "aggregated_timeout_reason (\<lambda>m. m) sample_verifier ?v = (Ok ProposalNotReceived :: (unit, _) res)"
    by code_simp
  have "distinct (map fst (tcv_timeout_reason ?v))" "fst ` set (tcv_timeout_reason ?v) \<subseteq> members sample_verifier"
    by (simp_all add: members_sample)
  from timeout_reason_from_correct [where ?'e = unit, OF wf_sample sample_total tolerates_sample this refl] run
  obtain reason where "reason = ProposalNotReceived" "reason = Unknown \<or> (\<exists>a r. a \<notin> {4} \<and>
      (a, r) \<in> set (tcv_timeout_reason ?v) \<and> reason_key sample_verifier r = reason_key sample_verifier reason)"
    by (elim exE conjE) (rule that; simp only: res.inject)
  then have "\<exists>a r. a \<notin> {4} \<and> (a, r) \<in> set (tcv_timeout_reason ?v) \<and>
      reason_key sample_verifier r = ProposalNotReceived"
    by (simp only: round_timeout_reason.distinct reason_key.simps simp_thms)
  with run show ?thesis by blast
qed

end
