(* ===== verification/Block_Tree.thy ===== *)
theory Block_Tree
  imports Blocks
begin

text \<open>
  The block tree of \<^verbatim>\<open>consensus/src/block_storage/block_tree.rs\<close>: the blocks a replica knows, linked to
  their parents and children, the roots of ordering, commit and execution window, the highest
  certificates, and pruning with a buffer of pruned blocks that stay in memory. A pipelined block is its
  block; what the execution pipeline attaches to it has no model, nor has the persistent storage whose
  errors \<^verbatim>\<open>commit_callback\<close> ignores. The loops that follow parent or child links end only when the links
  do; they are partial functions, with \<open>None\<close> for a loop that never ends.
\<close>

section \<open>Model\<close>

record linkable_block =
  lb_executed_block :: block
  lb_children :: "hash_value list"

definition lb_new :: "block \<Rightarrow> linkable_block" where
  "lb_new b = \<lparr>lb_executed_block = b, lb_children = []\<rparr>"

definition lb_id :: "linkable_block \<Rightarrow> hash_value" where
  "lb_id lb = blk_id (lb_executed_block lb)"

text \<open>
  The children are a hash set: a list without repetitions, iterated over in an order given by the
  parameter \<open>ord\<close> of the functions that do so. Adding a child twice panics.
\<close>

definition lb_add_child :: "hash_value \<Rightarrow> linkable_block \<Rightarrow> ('e, linkable_block) res" where
  "lb_add_child child_id lb =
     bind (assert (child_id \<notin> set (lb_children lb))) (\<lambda>_. Ok (lb\<lparr>lb_children := lb_children lb @ [child_id]\<rparr>))"

record block_tree =
  bt_id_to_block :: "(hash_value \<times> linkable_block) list"
  bt_ordered_root_id :: hash_value
  bt_commit_root_id :: hash_value
  bt_window_root_id :: hash_value
  bt_highest_certified_block_id :: hash_value
  bt_highest_quorum_cert :: quorum_cert
  bt_highest_2chain_timeout_cert :: "two_chain_timeout_certificate option"
  bt_highest_ordered_cert :: wrapped_ledger_info
  bt_highest_commit_cert :: wrapped_ledger_info
  bt_id_to_quorum_cert :: "(hash_value \<times> quorum_cert) list"
  bt_pruned_block_ids :: "hash_value list"
  bt_max_pruned_blocks_in_mem :: nat
  bt_round_to_ids :: "(round \<times> hash_value) list"

definition bt_new ::
    "hash_value \<Rightarrow> block \<Rightarrow> quorum_cert \<Rightarrow> wrapped_ledger_info \<Rightarrow> wrapped_ledger_info \<Rightarrow> nat
       \<Rightarrow> two_chain_timeout_certificate option \<Rightarrow> ('e, block_tree) res" where
  "bt_new commit_root_id window_root root_quorum_cert root_ordered_cert root_commit_cert
       max_pruned_blocks_in_mem highest_2chain_timeout_cert =
     bind (assert (blk_epoch window_root = bi_epoch (wli_commit_info root_ordered_cert))) (\<lambda>_.
     bind (assert (blk_round window_root \<le> bi_round (wli_commit_info root_ordered_cert))) (\<lambda>_.
       Ok \<lparr>bt_id_to_block = [(blk_id window_root, lb_new window_root)],
           bt_ordered_root_id = commit_root_id,
           bt_commit_root_id = commit_root_id,
           bt_window_root_id = blk_id window_root,
           bt_highest_certified_block_id = commit_root_id,
           bt_highest_quorum_cert = root_quorum_cert,
           bt_highest_2chain_timeout_cert = highest_2chain_timeout_cert,
           bt_highest_ordered_cert = root_ordered_cert,
           bt_highest_commit_cert = root_commit_cert,
           bt_id_to_quorum_cert = [(bi_id (certified_block root_quorum_cert), root_quorum_cert)],
           bt_pruned_block_ids = [],
           bt_max_pruned_blocks_in_mem = max_pruned_blocks_in_mem,
           bt_round_to_ids = [(blk_round window_root, blk_id window_root)]\<rparr>))"

definition get_linkable_block :: "block_tree \<Rightarrow> hash_value \<Rightarrow> linkable_block option" where
  "get_linkable_block t block_id = map_of (bt_id_to_block t) block_id"

definition get_all_quorum_certs_with_commit_info :: "block_tree \<Rightarrow> quorum_cert list" where
  "get_all_quorum_certs_with_commit_info t =
     filter (\<lambda>qc. qc_commit_info qc \<noteq> block_info_empty) (map snd (bt_id_to_quorum_cert t))"

definition linkable_window_root :: "block_tree \<Rightarrow> ('e, linkable_block) res" where
  "linkable_window_root t = unwrap (get_linkable_block t (bt_window_root_id t))"

definition remove_block :: "hash_value \<Rightarrow> block_tree \<Rightarrow> block_tree" where
  "remove_block block_id t =
     (let t' = (case map_of (bt_id_to_block t) block_id of
                  Some lb \<Rightarrow>
                    t\<lparr>bt_id_to_block := btree_remove block_id (bt_id_to_block t),
                      bt_round_to_ids := btree_remove (blk_round (lb_executed_block lb)) (bt_round_to_ids t)\<rparr>
                | None \<Rightarrow> t)
      in t'\<lparr>bt_id_to_quorum_cert := btree_remove block_id (bt_id_to_quorum_cert t')\<rparr>)"

definition block_exists :: "block_tree \<Rightarrow> hash_value \<Rightarrow> bool" where
  "block_exists t block_id = contains_key block_id (bt_id_to_block t)"

definition bt_get_block :: "block_tree \<Rightarrow> hash_value \<Rightarrow> block option" where
  "bt_get_block t block_id = map_option lb_executed_block (get_linkable_block t block_id)"

definition get_block_for_round :: "block_tree \<Rightarrow> round \<Rightarrow> block option" where
  "get_block_for_round t r = Option.bind (map_of (bt_round_to_ids t) r) (bt_get_block t)"

definition ordered_root :: "block_tree \<Rightarrow> ('e, block) res" where
  "ordered_root t = unwrap (bt_get_block t (bt_ordered_root_id t))"

definition commit_root :: "block_tree \<Rightarrow> ('e, block) res" where
  "commit_root t = unwrap (bt_get_block t (bt_commit_root_id t))"

definition highest_certified_block :: "block_tree \<Rightarrow> ('e, block) res" where
  "highest_certified_block t = unwrap (bt_get_block t (bt_highest_certified_block_id t))"

definition replace_2chain_timeout_cert :: "two_chain_timeout_certificate \<Rightarrow> block_tree \<Rightarrow> block_tree" where
  "replace_2chain_timeout_cert tc t = t\<lparr>bt_highest_2chain_timeout_cert := Some tc\<rparr>"

definition get_quorum_cert_for_block :: "block_tree \<Rightarrow> hash_value \<Rightarrow> quorum_cert option" where
  "get_quorum_cert_for_block t block_id = map_of (bt_id_to_quorum_cert t) block_id"

section \<open>The window of a block\<close>

definition calculate_window_start_round :: "round \<Rightarrow> u64 \<Rightarrow> ('e, round) res" where
  "calculate_window_start_round current_round window_size =
     bind (assert (window_size > 0)) (\<lambda>_.
     bind (unwrap (checked_add current_round 1)) (\<lambda>next_r. Ok (saturating_sub next_r window_size)))"

partial_function (option) window_loop ::
    "block_tree \<Rightarrow> round \<Rightarrow> block \<Rightarrow> block list \<Rightarrow> (anyhow_error, block list) res option" where
  "window_loop t window_start_round current_block window =
     (if \<not> bd_is_genesis_block (blk_block_data current_block) \<and>
         bi_round (certified_block (blk_quorum_cert current_block)) \<ge> window_start_round
      then (case bt_get_block t (blk_parent_id current_block) of
              Some b \<Rightarrow> window_loop t window_start_round b (window @ [b])
            | None \<Rightarrow> Some (Err (Msg ''Parent block not found'')))
      else Some (Ok window))"

definition get_ordered_block_window ::
    "block_tree \<Rightarrow> block \<Rightarrow> u64 option \<Rightarrow> (anyhow_error, block list) res option" where
  "get_ordered_block_window t b window_size =
     (case bind (commit_root t) (\<lambda>root.
             ensure (blk_round b \<ge> blk_round root) (Msg ''Block round is less than the commit root round'')) of
        Err e \<Rightarrow> Some (Err e)
      | Panic \<Rightarrow> Some Panic
      | Ok _ \<Rightarrow>
          (case window_size of
             None \<Rightarrow> Some (Ok [])
           | Some wsize \<Rightarrow>
               (case bind (calculate_window_start_round (blk_round b) wsize) (\<lambda>start.
                     bind (unwrap (checked_sub (blk_round b) start)) (\<lambda>d.
                     bind (unwrap (checked_add d 1)) (\<lambda>wsize.
                     bind (ensure (wsize > 0) (Msg ''window_size must be greater than 0'')) (\<lambda>_.
                       Ok (start, wsize))))) of
                  Err e \<Rightarrow> Some (Err e)
                | Panic \<Rightarrow> Some Panic
                | Ok (start, wsize) \<Rightarrow>
                    map_option (\<lambda>r. bind r (\<lambda>window.
                        bind (ensure (length window < unat wsize) (Msg ''window.len() < window_size''))
                          (\<lambda>_. Ok (rev window))))
                      (window_loop t start b []))))"

section \<open>Inserting\<close>

definition set_linkable :: "hash_value \<Rightarrow> linkable_block \<Rightarrow> block_tree \<Rightarrow> block_tree" where
  "set_linkable i lb t = t\<lparr>bt_id_to_block := btree_insert i lb (bt_id_to_block t)\<rparr>"

definition insert_block :: "block \<Rightarrow> (block_tree, anyhow_error, block) method_res" where
  "insert_block b t =
     (case bt_get_block t (blk_id b) of
        Some existing_block \<Rightarrow> (Ok existing_block, t)
      | None \<Rightarrow>
          (case get_linkable_block t (blk_parent_id b) of
             None \<Rightarrow> (Err (Msg ''Parent block not found''), t)
           | Some parent_lb \<Rightarrow>
               (case lb_add_child (blk_id b) parent_lb of
                  Ok parent_lb' \<Rightarrow>
                    let t = set_linkable (blk_parent_id b) parent_lb' t
                    in if block_exists t (blk_id b) then (Panic, t)
                       else
                         let t = set_linkable (blk_id b) (lb_new b) t;
                             t = (if contains_key (blk_round b) (bt_round_to_ids t) then t
                                  else t\<lparr>bt_round_to_ids :=
                                          btree_insert (blk_round b) (blk_id b) (bt_round_to_ids t)\<rparr>)
                         in (Ok b, t)
                | Err e \<Rightarrow> (Err e, t)
                | Panic \<Rightarrow> (Panic, t))))"

definition insert_quorum_cert :: "quorum_cert \<Rightarrow> (block_tree, anyhow_error, unit) method_res" where
  "insert_quorum_cert qc t =
     (let block_id = bi_id (certified_block qc)
      in case bt_get_block t block_id of
           None \<Rightarrow> (Err (Msg ''Block not found''), t)
         | Some b \<Rightarrow>
             (case highest_certified_block t of
                Ok highest \<Rightarrow>
                  let t = (if blk_round b > blk_round highest
                           then t\<lparr>bt_highest_certified_block_id := blk_id b, bt_highest_quorum_cert := qc\<rparr>
                           else t);
                      t = (if contains_key block_id (bt_id_to_quorum_cert t) then t
                           else t\<lparr>bt_id_to_quorum_cert := btree_insert block_id qc (bt_id_to_quorum_cert t)\<rparr>);
                      t = (if bi_round (wli_commit_info (bt_highest_ordered_cert t)) < bi_round (qc_commit_info qc)
                           then t\<lparr>bt_highest_ordered_cert := into_wrapped_ledger_info qc\<rparr>
                           else t)
                  in (Ok (), t)
              | Err e \<Rightarrow> (Err e, t)
              | Panic \<Rightarrow> (Panic, t)))"

definition insert_ordered_cert :: "wrapped_ledger_info \<Rightarrow> block_tree \<Rightarrow> block_tree" where
  "insert_ordered_cert ordered_cert t =
     (if bi_round (wli_commit_info ordered_cert) > bi_round (wli_commit_info (bt_highest_ordered_cert t))
      then t\<lparr>bt_highest_ordered_cert := ordered_cert\<rparr> else t)"

section \<open>Pruning\<close>

text \<open>
  The stack of blocks to be pruned has its top at the head of the list. The aborted pipelines of the
  pruned blocks have no model.
\<close>

partial_function (option) prune_loop ::
    "(hash_value list \<Rightarrow> hash_value list) \<Rightarrow> block_tree \<Rightarrow> hash_value \<Rightarrow> linkable_block list \<Rightarrow> hash_value list
       \<Rightarrow> (anyhow_error, hash_value list) res option" where
  "prune_loop ord t next_window_root_id blocks_to_be_pruned blocks_pruned =
     (case blocks_to_be_pruned of
        [] \<Rightarrow> Some (Ok blocks_pruned)
      | block_to_remove # rest \<Rightarrow>
          (case try_map (\<lambda>child_id. unwrap (get_linkable_block t child_id))
                  (filter (\<lambda>child_id. next_window_root_id \<noteq> child_id) (ord (lb_children block_to_remove))) of
             Ok children \<Rightarrow>
               prune_loop ord t next_window_root_id (rev children @ rest) (blocks_pruned @ [lb_id block_to_remove])
           | Err e \<Rightarrow> Some (Err e)
           | Panic \<Rightarrow> Some Panic))"

definition find_blocks_to_prune ::
    "(hash_value list \<Rightarrow> hash_value list) \<Rightarrow> block_tree \<Rightarrow> hash_value
       \<Rightarrow> (anyhow_error, hash_value list) res option" where
  "find_blocks_to_prune ord t next_window_root_id =
     (if next_window_root_id = bt_window_root_id t then Some (Ok [])
      else (case linkable_window_root t of
              Ok root \<Rightarrow> prune_loop ord t next_window_root_id [root] []
            | Err e \<Rightarrow> Some (Err e)
            | Panic \<Rightarrow> Some Panic))"

definition update_ordered_root :: "hash_value \<Rightarrow> (block_tree, anyhow_error, unit) method_res" where
  "update_ordered_root root_id =
     m_bind (m_read (\<lambda>t. assert (block_exists t root_id))) (\<lambda>_.
       m_modify (\<lambda>t. t\<lparr>bt_ordered_root_id := root_id\<rparr>))"

definition update_commit_root :: "hash_value \<Rightarrow> (block_tree, anyhow_error, unit) method_res" where
  "update_commit_root root_id =
     m_bind (m_read (\<lambda>t. assert (block_exists t root_id))) (\<lambda>_.
       m_modify (\<lambda>t. t\<lparr>bt_commit_root_id := root_id\<rparr>))"

definition update_window_root :: "hash_value \<Rightarrow> (block_tree, anyhow_error, unit) method_res" where
  "update_window_root root_id =
     m_bind (m_read (\<lambda>t. assert (block_exists t root_id))) (\<lambda>_.
       m_modify (\<lambda>t. t\<lparr>bt_window_root_id := root_id\<rparr>))"

definition update_highest_commit_cert :: "wrapped_ledger_info \<Rightarrow> (block_tree, anyhow_error, unit) method_res" where
  "update_highest_commit_cert new_commit_cert t =
     (if bi_round (wli_commit_info new_commit_cert) > bi_round (wli_commit_info (bt_highest_commit_cert t))
      then update_commit_root (bi_id (wli_commit_info new_commit_cert)) (t\<lparr>bt_highest_commit_cert := new_commit_cert\<rparr>)
      else (Ok (), t))"

text \<open>An error of the window is a panic here, as is a block that is not in the tree.\<close>

definition find_window_root ::
    "block_tree \<Rightarrow> hash_value \<Rightarrow> u64 option \<Rightarrow> (anyhow_error, hash_value) res option" where
  "find_window_root t block_to_commit_id window_size =
     (if window_size = Some 0 then Some Panic
      else
        (case bt_get_block t block_to_commit_id of
           None \<Rightarrow> Some Panic
         | Some b \<Rightarrow>
             map_option (\<lambda>r. case r of
                 Ok window \<Rightarrow> Ok (blk_id (case window of [] \<Rightarrow> b | first # _ \<Rightarrow> first))
               | _ \<Rightarrow> Panic)
               (get_ordered_block_window t b window_size)))"

definition process_pruned_blocks :: "hash_value list \<Rightarrow> block_tree \<Rightarrow> block_tree" where
  "process_pruned_blocks newly_pruned_blocks t =
     (let t = t\<lparr>bt_pruned_block_ids := bt_pruned_block_ids t @ newly_pruned_blocks\<rparr>;
          num_blocks_to_remove = length (bt_pruned_block_ids t) - bt_max_pruned_blocks_in_mem t
      in foldl (\<lambda>t id. remove_block id t)
           (t\<lparr>bt_pruned_block_ids := drop num_blocks_to_remove (bt_pruned_block_ids t)\<rparr>)
           (take num_blocks_to_remove (bt_pruned_block_ids t)))"

definition commit_update ::
    "hash_value \<Rightarrow> hash_value list \<Rightarrow> wrapped_ledger_info \<Rightarrow> (block_tree, anyhow_error, unit) method_res" where
  "commit_update window_root_id ids_to_remove commit_proof =
     m_bind (m_modify (process_pruned_blocks ids_to_remove)) (\<lambda>_.
     m_bind (update_window_root window_root_id) (\<lambda>_.
       update_highest_commit_cert commit_proof))"

definition commit_callback ::
    "(hash_value list \<Rightarrow> hash_value list) \<Rightarrow> hash_value \<Rightarrow> wrapped_ledger_info \<Rightarrow> ledger_info_with_signatures
       \<Rightarrow> u64 option \<Rightarrow> block_tree \<Rightarrow> ((anyhow_error, unit) res \<times> block_tree) option" where
  "commit_callback ord block_id finality_proof commit_decision window_size t =
     (case bind (commit_root t) (\<lambda>_. wli_create_merged_with_executed_state finality_proof commit_decision) of
        Ok commit_proof \<Rightarrow>
          (case find_window_root t block_id window_size of
             None \<Rightarrow> None
           | Some (Ok window_root_id) \<Rightarrow>
               (case find_blocks_to_prune ord t window_root_id of
                  None \<Rightarrow> None
                | Some (Ok ids_to_remove) \<Rightarrow> Some (commit_update window_root_id ids_to_remove commit_proof t)
                | Some _ \<Rightarrow> Some (Panic, t))
           | Some _ \<Rightarrow> Some (Panic, t))
      | _ \<Rightarrow> Some (Panic, t))"

section \<open>Paths\<close>

text \<open>The result of the loop is \<open>None\<close> when a block on the way is not in the tree.\<close>

partial_function (option) path_loop ::
    "block_tree \<Rightarrow> round \<Rightarrow> hash_value \<Rightarrow> block list \<Rightarrow> (hash_value \<times> block list) option option" where
  "path_loop t root_round cur_block_id path =
     (case bt_get_block t cur_block_id of
        Some b \<Rightarrow>
          if blk_round b \<le> root_round then Some (Some (cur_block_id, path))
          else path_loop t root_round (blk_parent_id b) (path @ [b])
      | None \<Rightarrow> Some None)"

definition path_from_root_to_block ::
    "block_tree \<Rightarrow> hash_value \<Rightarrow> hash_value \<Rightarrow> round \<Rightarrow> block list option option" where
  "path_from_root_to_block t block_id root_id root_round =
     map_option (\<lambda>r. case r of
         None \<Rightarrow> None
       | Some (cur_block_id, path) \<Rightarrow> if cur_block_id \<noteq> root_id then None else Some (rev path))
       (path_loop t root_round block_id [])"

definition path_from_ordered_root :: "block_tree \<Rightarrow> hash_value \<Rightarrow> ('e, block list option) res option" where
  "path_from_ordered_root t block_id =
     (case ordered_root t of
        Ok root \<Rightarrow> map_option Ok (path_from_root_to_block t block_id (bt_ordered_root_id t) (blk_round root))
      | Err e \<Rightarrow> Some (Err e)
      | Panic \<Rightarrow> Some Panic)"

definition path_from_commit_root :: "block_tree \<Rightarrow> hash_value \<Rightarrow> ('e, block list option) res option" where
  "path_from_commit_root t block_id =
     (case commit_root t of
        Ok root \<Rightarrow> map_option Ok (path_from_root_to_block t block_id (bt_commit_root_id t) (blk_round root))
      | Err e \<Rightarrow> Some (Err e)
      | Panic \<Rightarrow> Some Panic)"

declare window_loop.simps [code] prune_loop.simps [code] path_loop.simps [code]

section \<open>Links\<close>

definition child_link :: "block_tree \<Rightarrow> hash_value \<Rightarrow> hash_value \<Rightarrow> bool" where
  "child_link t p c \<longleftrightarrow> (\<exists>lb. get_linkable_block t p = Some lb \<and> c \<in> set (lb_children lb))"

abbreviation descends :: "block_tree \<Rightarrow> hash_value \<Rightarrow> hash_value \<Rightarrow> bool" where
  "descends t \<equiv> (child_link t)\<^sup>*\<^sup>*"

text \<open>
  A child is in the tree, it names its parent and the round of its parent, and it has a later round.
\<close>

definition links_ok :: "block_tree \<Rightarrow> bool" where
  "links_ok t \<longleftrightarrow>
     (\<forall>i lb. get_linkable_block t i = Some lb \<longrightarrow> lb_id lb = i \<and> distinct (lb_children lb)) \<and>
     (\<forall>p lb c. get_linkable_block t p = Some lb \<longrightarrow> c \<in> set (lb_children lb) \<longrightarrow>
        (\<exists>b. bt_get_block t c = Some b \<and> blk_parent_id b = p \<and>
           blk_round (lb_executed_block lb) < blk_round b \<and>
           bi_round (certified_block (blk_quorum_cert b)) = blk_round (lb_executed_block lb) \<and>
           \<not> bd_is_genesis_block (blk_block_data b)))"

text \<open>
  The pruned blocks that are still in memory are in the order in which they were found, parents before
  their children; none of them descends from the root of the window.
\<close>

definition pruned_ok :: "block_tree \<Rightarrow> bool" where
  "pruned_ok t \<longleftrightarrow>
     distinct (bt_pruned_block_ids t) \<and>
     (\<forall>i \<in> set (bt_pruned_block_ids t). block_exists t i \<and> \<not> descends t (bt_window_root_id t) i) \<and>
     (\<forall>xs i ys p. bt_pruned_block_ids t = xs @ i # ys \<longrightarrow> child_link t p i \<longrightarrow> p \<in> set xs) \<and>
     (\<forall>p. child_link t p (bt_window_root_id t) \<longrightarrow> p \<in> set (bt_pruned_block_ids t))"

definition roots_ok :: "block_tree \<Rightarrow> bool" where
  "roots_ok t \<longleftrightarrow>
     block_exists t (bt_window_root_id t) \<and>
     descends t (bt_window_root_id t) (bt_commit_root_id t) \<and>
     descends t (bt_commit_root_id t) (bt_ordered_root_id t) \<and>
     descends t (bt_window_root_id t) (bt_highest_certified_block_id t)"

definition tree_inv :: "block_tree \<Rightarrow> bool" where
  "tree_inv t \<longleftrightarrow> links_ok t \<and> pruned_ok t \<and> roots_ok t"

lemma get_block_linkable:
  "bt_get_block t i = Some b \<longleftrightarrow> (\<exists>lb. get_linkable_block t i = Some lb \<and> lb_executed_block lb = b)"
  by (auto simp: bt_get_block_def)

lemma block_exists_iff: "block_exists t i \<longleftrightarrow> (\<exists>b. bt_get_block t i = Some b)"
  by (auto simp: block_exists_def contains_key_def bt_get_block_def get_linkable_block_def)

lemma block_id: "links_ok t \<Longrightarrow> bt_get_block t i = Some b \<Longrightarrow> blk_id b = i"
  by (auto simp: links_ok_def get_block_linkable lb_id_def)

text \<open>A link gives both blocks.\<close>

lemma child_linkE:
  assumes "links_ok t" "child_link t p c"
  obtains pb cb where "bt_get_block t p = Some pb" "bt_get_block t c = Some cb"
    "blk_parent_id cb = p" "blk_round pb < blk_round cb"
    "bi_round (certified_block (blk_quorum_cert cb)) = blk_round pb"
    "\<not> bd_is_genesis_block (blk_block_data cb)"
  using assms by (fastforce simp: links_ok_def child_link_def get_block_linkable)

lemma child_exists: "links_ok t \<Longrightarrow> child_link t p c \<Longrightarrow> block_exists t p \<and> block_exists t c"
  by (auto simp: block_exists_iff elim: child_linkE)

lemma unique_parent: "links_ok t \<Longrightarrow> child_link t p c \<Longrightarrow> child_link t p' c \<Longrightarrow> p = p'"
  by (metis child_linkE option.inject)

lemma descends_exists:
  assumes "descends t a b" "links_ok t" "block_exists t a"
  shows "block_exists t b"
  using assms by (induction rule: rtranclp_induct) (auto simp: block_exists_iff elim: child_linkE)

lemma descends_round:
  assumes "descends t a b" "links_ok t" "bt_get_block t a = Some ab" "bt_get_block t b = Some bb"
  shows "a = b \<or> blk_round ab < blk_round bb"
  using assms(1,4)
proof (induction arbitrary: bb rule: rtranclp_induct)
  case (step y z)
  from child_linkE [OF assms(2) step(2)] obtain yb zb where "bt_get_block t y = Some yb"
    "bt_get_block t z = Some zb" "blk_round yb < blk_round zb" by blast
  with step.IH [of yb] step.prems assms(3) show ?case by auto
qed simp

lemma descends_antisym:
  assumes "descends t a b" "descends t b a" "links_ok t" "block_exists t a"
  shows "a = b"
proof -
  obtain ab bb where "bt_get_block t a = Some ab" "bt_get_block t b = Some bb"
    using assms(4) descends_exists [OF assms(1,3,4)] by (auto simp: block_exists_iff)
  with descends_round [OF assms(1,3)] descends_round [OF assms(2,3)] show ?thesis by fastforce
qed

text \<open>The ancestors of a block are a chain.\<close>

lemma ancestors_chain:
  assumes "descends t a x" "descends t b x" "links_ok t"
  shows "descends t a b \<or> descends t b a"
  using assms(1,2)
proof (induction rule: rtranclp_induct)
  case (step y z)
  from step.prems show ?case
  proof (cases rule: rtranclp.cases)
    case (rtrancl_into_rtrancl y')
    with step unique_parent [OF assms(3)] show ?thesis by blast
  qed (use step in auto)
qed blast

lemma tree_invD:
  assumes "tree_inv t"
  shows "links_ok t" "pruned_ok t" "roots_ok t"
  using assms by (auto simp: tree_inv_def)

lemma roots_exist:
  assumes "tree_inv t"
  shows "block_exists t (bt_window_root_id t)" "block_exists t (bt_commit_root_id t)"
    "block_exists t (bt_ordered_root_id t)" "block_exists t (bt_highest_certified_block_id t)"
  using assms descends_exists [OF _ tree_invD(1) [OF assms]] by (auto simp: tree_inv_def roots_ok_def)

section \<open>Inserting keeps the invariant\<close>

definition extends_parent :: "block_tree \<Rightarrow> block \<Rightarrow> bool" where
  "extends_parent t b \<longleftrightarrow>
     (\<exists>pb. bt_get_block t (blk_parent_id b) = Some pb \<and> blk_round pb < blk_round b \<and>
        bi_round (certified_block (blk_quorum_cert b)) = blk_round pb \<and>
        \<not> bd_is_genesis_block (blk_block_data b))"

lemma insert_block_linkable:
  assumes inv: "links_ok t" and ext: "extends_parent t b" and new: "bt_get_block t (blk_id b) = None"
    and run: "insert_block b t = (r, t')"
  shows "r = Ok b"
    and "get_linkable_block t' i =
      (if i = blk_id b then Some (lb_new b)
       else if i = blk_parent_id b
       then map_option (\<lambda>lb. lb\<lparr>lb_children := lb_children lb @ [blk_id b]\<rparr>) (get_linkable_block t i)
       else get_linkable_block t i)"
    and "bt_pruned_block_ids t' = bt_pruned_block_ids t" "bt_window_root_id t' = bt_window_root_id t"
    "bt_commit_root_id t' = bt_commit_root_id t" "bt_ordered_root_id t' = bt_ordered_root_id t"
    "bt_highest_certified_block_id t' = bt_highest_certified_block_id t"
    "bt_highest_commit_cert t' = bt_highest_commit_cert t"
proof -
  obtain lb where lb: "get_linkable_block t (blk_parent_id b) = Some lb"
    using ext by (auto simp: extends_parent_def get_block_linkable)
  have no: "get_linkable_block t (blk_id b) = None" using new by (simp add: bt_get_block_def)
  then have ne: "blk_id b \<noteq> blk_parent_id b" using lb by auto
  have "blk_id b \<notin> set (lb_children lb)"
    using inv lb no by (fastforce simp: links_ok_def bt_get_block_def)
  then have add: "lb_add_child (blk_id b) lb =
      (Ok (lb\<lparr>lb_children := lb_children lb @ [blk_id b]\<rparr>) :: (anyhow_error, _) res)"
    by (simp add: lb_add_child_def assert_def)
  let ?t1 = "set_linkable (blk_parent_id b) (lb\<lparr>lb_children := lb_children lb @ [blk_id b]\<rparr>) t"
  let ?t2 = "set_linkable (blk_id b) (lb_new b) ?t1"
  have "\<not> block_exists ?t1 (blk_id b)"
    using no ne by (simp add: block_exists_def contains_key_def set_linkable_def get_linkable_block_def)
  with run new lb add have r: "r = Ok b"
    and t': "t' = (if contains_key (blk_round b) (bt_round_to_ids ?t2) then ?t2
      else ?t2\<lparr>bt_round_to_ids := btree_insert (blk_round b) (blk_id b) (bt_round_to_ids ?t2)\<rparr>)"
    by (simp_all add: insert_block_def Let_def)
  show "r = Ok b" by (rule r)
  show "get_linkable_block t' i =
      (if i = blk_id b then Some (lb_new b)
       else if i = blk_parent_id b
       then map_option (\<lambda>lb. lb\<lparr>lb_children := lb_children lb @ [blk_id b]\<rparr>) (get_linkable_block t i)
       else get_linkable_block t i)"
    using lb ne by (auto simp: t' get_linkable_block_def set_linkable_def)
  show "bt_pruned_block_ids t' = bt_pruned_block_ids t" "bt_window_root_id t' = bt_window_root_id t"
    "bt_commit_root_id t' = bt_commit_root_id t" "bt_ordered_root_id t' = bt_ordered_root_id t"
    "bt_highest_certified_block_id t' = bt_highest_certified_block_id t"
    "bt_highest_commit_cert t' = bt_highest_commit_cert t"
    by (auto simp: t' set_linkable_def)
qed

lemma insert_block_links:
  assumes inv: "links_ok t" and ext: "extends_parent t b" and new: "bt_get_block t (blk_id b) = None"
    and run: "insert_block b t = (r, t')"
  shows "bt_get_block t' i = (if i = blk_id b then Some b else bt_get_block t i)"
    and "child_link t' p c \<longleftrightarrow> child_link t p c \<or> p = blk_parent_id b \<and> c = blk_id b"
    and "links_ok t'"
proof -
  note ins = insert_block_linkable [OF assms]
  obtain plb where plb: "get_linkable_block t (blk_parent_id b) = Some plb"
    and p: "blk_round (lb_executed_block plb) < blk_round b"
      "bi_round (certified_block (blk_quorum_cert b)) = blk_round (lb_executed_block plb)"
      "\<not> bd_is_genesis_block (blk_block_data b)"
    using ext by (auto simp: extends_parent_def get_block_linkable)
  have no: "get_linkable_block t (blk_id b) = None" using new by (simp add: bt_get_block_def)
  then have ne: "blk_id b \<noteq> blk_parent_id b" using plb by auto
  show get: "bt_get_block t' i = (if i = blk_id b then Some b else bt_get_block t i)" for i
    by (auto simp: bt_get_block_def ins(2) lb_new_def option.map_comp comp_def)
  have nochild: "\<not> child_link t p (blk_id b)" for p
    using inv no by (fastforce simp: links_ok_def child_link_def bt_get_block_def)
  show "child_link t' p c \<longleftrightarrow> child_link t p c \<or> p = blk_parent_id b \<and> c = blk_id b"
    using plb ne no by (auto simp: child_link_def ins(2) lb_new_def)
  have "lb_id lb = i \<and> distinct (lb_children lb)" if "get_linkable_block t' i = Some lb" for i lb
    using that inv nochild plb
    by (auto simp: ins(2) lb_new_def lb_id_def links_ok_def child_link_def split: if_splits)
  moreover have "\<exists>c'. bt_get_block t' c = Some c' \<and> blk_parent_id c' = i \<and>
      blk_round (lb_executed_block lb) < blk_round c' \<and>
      bi_round (certified_block (blk_quorum_cert c')) = blk_round (lb_executed_block lb) \<and>
      \<not> bd_is_genesis_block (blk_block_data c')"
    if lb: "get_linkable_block t' i = Some lb" and c: "c \<in> set (lb_children lb)" for i lb c
  proof (cases "c = blk_id b")
    case True
    with lb c nochild [of i] have "i = blk_parent_id b" "lb_executed_block lb = lb_executed_block plb"
      using plb by (auto simp: ins(2) lb_new_def child_link_def split: if_splits)
    with True p show ?thesis by (simp add: get)
  next
    case False
    with lb c obtain lb0 where "get_linkable_block t i = Some lb0" "c \<in> set (lb_children lb0)"
      "lb_executed_block lb0 = lb_executed_block lb"
      by (auto simp: ins(2) lb_new_def split: if_splits)
    with inv False show ?thesis by (fastforce simp: links_ok_def get)
  qed
  ultimately show "links_ok t'" unfolding links_ok_def by blast
qed

lemma insert_block_descends:
  assumes "links_ok t" "extends_parent t b" "bt_get_block t (blk_id b) = None" "insert_block b t = (r, t')"
  shows "descends t a x \<Longrightarrow> descends t' a x"
    and "descends t' a x \<Longrightarrow> x \<noteq> blk_id b \<Longrightarrow> descends t a x"
proof -
  note link = insert_block_links(2) [OF assms]
  show "descends t a x \<Longrightarrow> descends t' a x"
    by (rule rtranclp_mono [THEN predicate2D]) (auto simp: link)
  have new: "\<not> child_link t (blk_id b) c" for c
    using assms(3) by (simp add: child_link_def bt_get_block_def)
  have "x = blk_id b \<or> descends t a x" if "descends t' a x"
    using that
  proof (induction rule: rtranclp_induct)
    case (step y z)
    with new [of z] show ?case by (auto simp: link intro: rtranclp.rtrancl_into_rtrancl)
  qed simp
  then show "descends t' a x \<Longrightarrow> x \<noteq> blk_id b \<Longrightarrow> descends t a x" by blast
qed

lemma insert_block_inv:
  assumes inv: "tree_inv t" and ext: "extends_parent t b" and new: "bt_get_block t (blk_id b) = None"
    and run: "insert_block b t = (r, t')"
  shows "tree_inv t'"
proof -
  note l = tree_invD(1) [OF inv]
  note ins = insert_block_linkable [OF l ext new run] and link = insert_block_links [OF l ext new run]
    and desc = insert_block_descends [OF l ext new run]
  have ex: "block_exists t i \<Longrightarrow> block_exists t' i \<and> i \<noteq> blk_id b" for i
    using new by (auto simp: block_exists_iff link(1))
  have "pruned_ok t'"
    unfolding pruned_ok_def ins(3,4)
  proof (intro conjI allI impI ballI)
    note p = tree_invD(2) [OF inv, unfolded pruned_ok_def]
    show "distinct (bt_pruned_block_ids t)" using p by blast
    show "block_exists t' i" if "i \<in> set (bt_pruned_block_ids t)" for i using p ex that by blast
    show "\<not> descends t' (bt_window_root_id t) i" if "i \<in> set (bt_pruned_block_ids t)" for i
      using p ex desc(2) that by blast
    show "q \<in> set xs" if "bt_pruned_block_ids t = xs @ i # ys" "child_link t' q i" for xs i ys q
    proof -
      have "i \<noteq> blk_id b" using p ex that(1) by (metis in_set_conv_decomp)
      with that p show ?thesis by (auto simp: link(2))
    qed
    show "q \<in> set (bt_pruned_block_ids t)" if "child_link t' q (bt_window_root_id t)" for q
      using p ex roots_exist(1) [OF inv] that by (auto simp: link(2))
  qed
  moreover have "roots_ok t'"
    using tree_invD(3) [OF inv] desc(1) ex by (auto simp: roots_ok_def ins)
  ultimately show ?thesis using link(3) by (simp add: tree_inv_def)
qed

text \<open>The invariant reads the links, the pruned blocks and the roots only.\<close>

lemma tree_inv_frame:
  assumes "bt_id_to_block t' = bt_id_to_block t" "bt_pruned_block_ids t' = bt_pruned_block_ids t"
    "bt_window_root_id t' = bt_window_root_id t"
  shows "links_ok t' = links_ok t" "pruned_ok t' = pruned_ok t" "child_link t' = child_link t"
    "bt_get_block t' = bt_get_block t" "block_exists t' = block_exists t"
proof -
  have get: "get_linkable_block t' = get_linkable_block t"
    by (simp add: fun_eq_iff get_linkable_block_def assms)
  then show link: "child_link t' = child_link t" and gb: "bt_get_block t' = bt_get_block t"
    by (auto simp: fun_eq_iff child_link_def bt_get_block_def)
  show ex: "block_exists t' = block_exists t" by (simp add: fun_eq_iff block_exists_iff gb)
  show "links_ok t' = links_ok t" by (simp add: links_ok_def get gb)
  show "pruned_ok t' = pruned_ok t" by (simp add: pruned_ok_def link ex assms)
qed

lemma insert_quorum_cert_inv:
  assumes inv: "tree_inv t" and run: "insert_quorum_cert qc t = (r, t')"
    and act: "descends t (bt_window_root_id t) (bi_id (certified_block qc))"
  shows "tree_inv t' \<and> r = Ok ()"
proof -
  let ?i = "bi_id (certified_block qc)"
  obtain b where b: "bt_get_block t ?i = Some b"
    using descends_exists [OF act tree_invD(1) [OF inv] roots_exist(1) [OF inv]] by (auto simp: block_exists_iff)
  obtain h where h: "bt_get_block t (bt_highest_certified_block_id t) = Some h"
    using roots_exist(4) [OF inv] by (auto simp: block_exists_iff)
  have id: "blk_id b = ?i" by (rule block_id [OF tree_invD(1) [OF inv] b])
  have r: "r = Ok ()" and f: "bt_id_to_block t' = bt_id_to_block t"
    "bt_pruned_block_ids t' = bt_pruned_block_ids t" "bt_window_root_id t' = bt_window_root_id t"
    "bt_commit_root_id t' = bt_commit_root_id t" "bt_ordered_root_id t' = bt_ordered_root_id t"
    "bt_highest_certified_block_id t' \<in> {?i, bt_highest_certified_block_id t}"
    using run b h id
    by (auto simp: insert_quorum_cert_def highest_certified_block_def unwrap_def Let_def split: if_splits)
  note fr = tree_inv_frame [OF f(1-3)]
  have "roots_ok t'" using tree_invD(3) [OF inv] act f(3-6) by (auto simp: roots_ok_def fr)
  with r tree_invD(1,2) [OF inv] show ?thesis by (simp add: tree_inv_def fr)
qed

section \<open>Paths end at the root\<close>

text \<open>A list of blocks, each the parent of the next, after the block with a given id.\<close>

fun linked :: "hash_value \<Rightarrow> block list \<Rightarrow> bool" where
  "linked a [] \<longleftrightarrow> True"
| "linked a (b # bs) \<longleftrightarrow> blk_parent_id b = a \<and> linked (blk_id b) bs"

text \<open>From a descendant of a block that is not above the round, the loop ends at an ancestor.\<close>

lemma path_loop_ancestor:
  assumes inv: "links_ok t" and d: "descends t w i" and w: "bt_get_block t w = Some wb" "blk_round wb \<le> r"
  shows "\<exists>j jb path. path_loop t r i acc = Some (Some (j, acc @ rev path)) \<and>
    bt_get_block t j = Some jb \<and> blk_round jb \<le> r \<and> descends t w j \<and> descends t j i \<and>
    linked j path \<and> last (j # map blk_id path) = i \<and>
    (\<forall>b \<in> set path. bt_get_block t (blk_id b) = Some b \<and> r < blk_round b)"
  using d
proof (induction arbitrary: acc rule: rtranclp_induct)
  case base
  have "path_loop t r w acc = Some (Some (w, acc @ rev []))"
    by (subst path_loop.simps) (simp add: w)
  with w show ?case by (intro exI [of _ w] exI [of _ wb] exI [of _ "[]"]) simp
next
  case (step y z)
  obtain yb zb where yz: "bt_get_block t y = Some yb" "bt_get_block t z = Some zb"
    "blk_parent_id zb = y" "blk_round yb < blk_round zb"
    using child_linkE [OF inv step(2)] by blast
  show ?case
  proof (cases "blk_round zb \<le> r")
    case True
    then have "path_loop t r z acc = Some (Some (z, acc @ rev []))"
      by (subst path_loop.simps) (simp add: yz)
    with True yz step(1,2) show ?thesis
      by (intro exI [of _ z] exI [of _ zb] exI [of _ "[]"]) simp
  next
    case False
    then have run: "path_loop t r z acc = path_loop t r y (acc @ [zb])"
      by (subst path_loop.simps) (simp add: yz)
    from step.IH [of "acc @ [zb]"] obtain j jb path where
      p: "path_loop t r y (acc @ [zb]) = Some (Some (j, (acc @ [zb]) @ rev path))"
      "bt_get_block t j = Some jb" "blk_round jb \<le> r" "descends t w j" "descends t j y"
      "linked j path" "last (j # map blk_id path) = y"
      "\<forall>b \<in> set path. bt_get_block t (blk_id b) = Some b \<and> r < blk_round b" by blast
    have id: "blk_id zb = z" by (rule block_id [OF inv yz(2)])
    have "linked j (path @ [zb])"
      using p(6,7) yz(3)
    proof (induction path arbitrary: j)
      case (Cons b bs)
      then show ?case by (cases bs) auto
    qed simp
    moreover have "descends t j z" using p(5) step(2) by (rule rtranclp.rtrancl_into_rtrancl)
    ultimately show ?thesis
      using p run id yz False
      by (intro exI [of _ j] exI [of _ jb] exI [of _ "path @ [zb]"]) (simp add: not_le)
  qed
qed

lemma path_loop_ends:
  assumes inv: "links_ok t" and d: "descends t root i" and r: "bt_get_block t root = Some rb"
  shows "\<exists>path. path_loop t (blk_round rb) i acc = Some (Some (root, acc @ rev path)) \<and>
    linked root path \<and> last (root # map blk_id path) = i \<and>
    (\<forall>b \<in> set path. bt_get_block t (blk_id b) = Some b \<and> blk_round rb < blk_round b)"
proof -
  obtain j jb path where p: "path_loop t (blk_round rb) i acc = Some (Some (j, acc @ rev path))"
    "bt_get_block t j = Some jb" "blk_round jb \<le> blk_round rb" "descends t root j"
    "linked j path" "last (j # map blk_id path) = i"
    "\<forall>b \<in> set path. bt_get_block t (blk_id b) = Some b \<and> blk_round rb < blk_round b"
    using path_loop_ancestor [OF inv d r order.refl, of acc] by blast
  have "j = root"
    using descends_round [OF p(4) inv r p(2)] p(2,3) r by auto
  with p show ?thesis by blast
qed

text \<open>The loop ends on every block of the tree.\<close>

lemma path_loop_terminates:
  assumes inv: "links_ok t" and dec: "\<And>i b pb. bt_get_block t i = Some b \<Longrightarrow>
      bt_get_block t (blk_parent_id b) = Some pb \<Longrightarrow> blk_round pb < blk_round b"
  shows "\<exists>res. path_loop t r i acc = Some res"
proof (induction "case bt_get_block t i of None \<Rightarrow> 0 | Some b \<Rightarrow> Suc (unat (blk_round b))"
    arbitrary: i acc rule: less_induct)
  case less
  show ?case
  proof (cases "bt_get_block t i")
    case None
    then show ?thesis by (subst path_loop.simps) simp
  next
    case (Some b)
    show ?thesis
    proof (cases "blk_round b \<le> r")
      case True
      then show ?thesis by (subst path_loop.simps) (simp add: Some)
    next
      case False
      have "(case bt_get_block t (blk_parent_id b) of None \<Rightarrow> 0 | Some b \<Rightarrow> Suc (unat (blk_round b))) <
          (case bt_get_block t i of None \<Rightarrow> 0 | Some b \<Rightarrow> Suc (unat (blk_round b)))"
        using dec [OF Some] by (auto simp: Some word_less_nat_alt split: option.splits)
      from less [OF this, of "acc @ [b]"] False show ?thesis
        by (subst path_loop.simps) (simp add: Some)
    qed
  qed
qed

section \<open>The window of a block\<close>

text \<open>A block above which the loop does not go.\<close>

definition window_top :: "round \<Rightarrow> block \<Rightarrow> bool" where
  "window_top start b \<longleftrightarrow>
     bd_is_genesis_block (blk_block_data b) \<or> bi_round (certified_block (blk_quorum_cert b)) < start"

lemma window_loop_ends:
  assumes inv: "links_ok t" and d: "descends t root i" and r: "bt_get_block t root = Some rb"
    and top: "window_top start rb" and b: "bt_get_block t i = Some b"
  shows "\<exists>window. window_loop t start b acc = Some (Ok (acc @ window)) \<and>
    (\<forall>w \<in> set window. bt_get_block t (blk_id w) = Some w \<and> start \<le> blk_round w \<and>
       descends t root (blk_id w) \<and> descends t (blk_id w) i) \<and>
    sorted_wrt (\<lambda>x y. blk_round y < blk_round x) (b # window) \<and> window_top start (last (b # window))"
  using d b
proof (induction arbitrary: acc b rule: rtranclp_induct)
  case base
  then have "window_loop t start b acc = Some (Ok acc)"
    using r top by (subst window_loop.simps) (auto simp: window_top_def)
  with base r top show ?case by (intro exI [of _ "[]"]) simp
next
  case (step y z)
  obtain yb where yz: "bt_get_block t y = Some yb" "blk_parent_id b = y" "blk_round yb < blk_round b"
    "bi_round (certified_block (blk_quorum_cert b)) = blk_round yb" "\<not> bd_is_genesis_block (blk_block_data b)"
    using child_linkE [OF inv step(2)] step.prems by (metis option.inject)
  have id: "blk_id yb = y" by (rule block_id [OF inv yz(1)])
  show ?case
  proof (cases "start \<le> blk_round yb")
    case True
    then have run: "window_loop t start b acc = window_loop t start yb (acc @ [yb])"
      by (subst window_loop.simps) (simp add: yz)
    from step.IH [OF yz(1), of "acc @ [yb]"] obtain window where
      w: "window_loop t start yb (acc @ [yb]) = Some (Ok ((acc @ [yb]) @ window))"
      "\<forall>w \<in> set window. bt_get_block t (blk_id w) = Some w \<and> start \<le> blk_round w \<and>
         descends t root (blk_id w) \<and> descends t (blk_id w) y"
      "sorted_wrt (\<lambda>x y. blk_round y < blk_round x) (yb # window)" "window_top start (last (yb # window))"
      by blast
    have "descends t (blk_id w) z" if "w \<in> set window" for w
      using w(2) that step(2) by (meson rtranclp.rtrancl_into_rtrancl)
    moreover have "sorted_wrt (\<lambda>x y. blk_round y < blk_round x) (b # yb # window)"
      using w(3) yz(3) by fastforce
    moreover have "descends t y z" using step(2) by blast
    ultimately show ?thesis
      using w run id yz(1) True step(1) by (intro exI [of _ "yb # window"]) auto
  next
    case False
    then have "window_loop t start b acc = Some (Ok acc)"
      by (subst window_loop.simps) (simp add: yz)
    with False yz show ?thesis by (intro exI [of _ "[]"]) (auto simp: window_top_def)
  qed
qed

text \<open>Rounds that decrease and stay above a bound are few.\<close>

lemma sorted_rounds_length:
  assumes "sorted_wrt (\<lambda>x y. blk_round y < blk_round x) (b # window)" "\<forall>w \<in> set window. start \<le> blk_round w"
  shows "length window \<le> unat (blk_round b) - unat start"
  using assms
proof (induction window arbitrary: b)
  case (Cons w ws)
  then have "length ws \<le> unat (blk_round w) - unat start" by simp
  moreover have "unat (blk_round w) < unat (blk_round b)" "unat start \<le> unat (blk_round w)"
    using Cons.prems by (auto simp: word_less_nat_alt word_le_nat_alt)
  ultimately show ?case by simp
qed simp

definition window_start :: "round \<Rightarrow> u64 \<Rightarrow> round" where
  "window_start r wsize = saturating_sub (r + 1) wsize"

lemma window_start_facts:
  assumes "0 < wsize" "unat r + 1 < 2 ^ 64"
  shows "calculate_window_start_round r wsize = Ok (window_start r wsize)"
    and "window_start r wsize \<le> r"
    and "unat (window_start r wsize) = unat r + 1 - unat wsize"
proof -
  have r1: "unat (r + 1) = unat r + 1" using assms(2) by (simp add: unat_add_lem [THEN iffD1])
  have "checked_add r 1 = Some (r + 1)" using assms(2) by (simp add: checked_add_def)
  then show "calculate_window_start_round r wsize = Ok (window_start r wsize)"
    using assms(1) by (simp add: calculate_window_start_round_def window_start_def assert_def unwrap_def)
  show u: "unat (window_start r wsize) = unat r + 1 - unat wsize"
    using r1 by (auto simp: window_start_def saturating_sub_def word_le_nat_alt unat_sub not_le)
  have "0 < unat wsize" using assms(1) by (simp add: word_less_nat_alt)
  with u show "window_start r wsize \<le> r" by (simp add: word_le_nat_alt)
qed

text \<open>The window that the code returns, from the oldest block to the newest.\<close>

lemma get_ordered_block_window_Ok:
  assumes inv: "links_ok t" and d: "descends t root i" and r: "bt_get_block t root = Some rb"
    and b: "bt_get_block t i = Some b" and size: "0 < wsize" "unat (blk_round b) + 1 < 2 ^ 64"
    and top: "window_top (window_start (blk_round b) wsize) rb"
    and c: "bt_get_block t (bt_commit_root_id t) = Some cb" "blk_round cb \<le> blk_round b"
  shows "\<exists>window. get_ordered_block_window t b (Some wsize) = Some (Ok (rev window)) \<and>
    (\<forall>w \<in> set window. bt_get_block t (blk_id w) = Some w \<and> window_start (blk_round b) wsize \<le> blk_round w \<and>
       descends t root (blk_id w) \<and> descends t (blk_id w) i) \<and>
    sorted_wrt (\<lambda>x y. blk_round y < blk_round x) (b # window) \<and>
    window_top (window_start (blk_round b) wsize) (last (b # window))"
proof -
  let ?s = "window_start (blk_round b) wsize"
  note s = window_start_facts [OF size]
  from window_loop_ends [OF inv d r top b, of "[]"] obtain window where
    w: "window_loop t ?s b [] = Some (Ok window)"
    "\<forall>w \<in> set window. bt_get_block t (blk_id w) = Some w \<and> ?s \<le> blk_round w \<and>
       descends t root (blk_id w) \<and> descends t (blk_id w) i"
    "sorted_wrt (\<lambda>x y. blk_round y < blk_round x) (b # window)" "window_top ?s (last (b # window))" by auto
  have sub: "checked_sub (blk_round b) ?s = Some (blk_round b - ?s)"
    using s(2) by (simp add: checked_sub_Some)
  have us: "unat (blk_round b - ?s) = unat (blk_round b) - unat ?s" by (rule unat_sub [OF s(2)])
  then have lt: "unat (blk_round b - ?s) + 1 < 2 ^ 64" using size(2) by simp
  then have add: "checked_add (blk_round b - ?s) 1 = Some (blk_round b - ?s + 1)"
    and u1: "unat (blk_round b - ?s + 1) = unat (blk_round b) - unat ?s + 1"
    using us by (simp_all add: checked_add_def unat_add_lem [THEN iffD1])
  then have "0 < blk_round b - ?s + 1" by (simp add: word_less_nat_alt)
  moreover have "length window < unat (blk_round b - ?s + 1)"
    using sorted_rounds_length [OF w(3)] w(2) u1 by fastforce
  ultimately have "get_ordered_block_window t b (Some wsize) = Some (Ok (rev window))"
    using c w(1) sub add
    by (simp add: get_ordered_block_window_def commit_root_def unwrap_def ensure_def
        window_start_facts(1) [OF size])
  with w show ?thesis by blast
qed

section \<open>Pruning ends with all that does not descend from the new root\<close>

abbreviation within :: "block_tree \<Rightarrow> hash_value \<Rightarrow> hash_value \<Rightarrow> hash_value \<Rightarrow> bool" where
  "within t n \<equiv> (\<lambda>p c. child_link t p c \<and> c \<noteq> n)\<^sup>*\<^sup>*"

definition subtree :: "block_tree \<Rightarrow> hash_value \<Rightarrow> hash_value \<Rightarrow> hash_value set" where
  "subtree t n i = {c. within t n i c}"

lemma within_descends: "within t n i c \<Longrightarrow> descends t i c"
  by (rule rtranclp_mono [THEN predicate2D]) auto

lemma subtree_unfold:
  "subtree t n i = insert i (\<Union>c \<in> {c. child_link t i c \<and> c \<noteq> n}. subtree t n c)"
  by (auto simp: subtree_def intro: converse_rtranclp_into_rtranclp elim: converse_rtranclpE)

lemma subtree_exists:
  assumes "links_ok t" "block_exists t i"
  shows "subtree t n i \<subseteq> {c. block_exists t c}"
  using descends_exists [OF within_descends assms] by (auto simp: subtree_def)

lemma finite_blocks: "finite {c. block_exists t c}"
proof -
  have "{c. block_exists t c} = dom (map_of (bt_id_to_block t))"
    by (auto simp: block_exists_def contains_key_def)
  then show ?thesis by (simp add: finite_dom_map_of)
qed

lemma finite_subtree: "links_ok t \<Longrightarrow> block_exists t i \<Longrightarrow> finite (subtree t n i)"
  using finite_subset [OF subtree_exists finite_blocks] .

lemma subtree_parent:
  assumes "links_ok t" "child_link t p c"
  shows "p \<notin> subtree t n c"
proof
  assume "p \<in> subtree t n c"
  then have "descends t c p" by (simp add: subtree_def within_descends)
  moreover have "descends t p c" using assms(2) by blast
  moreover have "block_exists t c" using child_exists [OF assms] by blast
  ultimately have "c = p" using descends_antisym assms(1) by blast
  with assms show False by (auto elim: child_linkE)
qed

lemma siblings_disjoint:
  assumes inv: "links_ok t" and c: "child_link t p c" and d: "child_link t p d" and ne: "c \<noteq> d"
  shows "subtree t n c \<inter> subtree t n d = {}"
proof -
  have one: False if "descends t a b" "child_link t p a" "child_link t p b" "a \<noteq> b" for a b
    using that(1)
  proof (cases rule: rtranclp.cases)
    case (rtrancl_into_rtrancl y)
    then have "descends t a p" using unique_parent [OF inv that(3)] by blast
    moreover have "descends t p a" using that(2) by blast
    moreover have "block_exists t p" using child_exists [OF inv that(2)] by blast
    ultimately have "a = p" using descends_antisym inv by metis
    with that(2) inv show False by (auto elim: child_linkE)
  qed (use that in simp)
  show ?thesis
  proof (rule ccontr)
    assume "subtree t n c \<inter> subtree t n d \<noteq> {}"
    then obtain x where "descends t c x" "descends t d x"
      by (auto simp: subtree_def dest: within_descends)
    from ancestors_chain [OF this inv] one c d ne show False by metis
  qed
qed

text \<open>The size of a subtree.\<close>

lemma card_subtree:
  assumes inv: "links_ok t" and ex: "block_exists t i" and cs: "distinct cs"
    "set cs = {c. child_link t i c \<and> c \<noteq> n}"
  shows "card (subtree t n i) = Suc (\<Sum>c \<leftarrow> cs. card (subtree t n c))"
proof -
  have sub: "block_exists t c" if "c \<in> set cs" for c
    using child_exists [OF inv, of i c] cs(2) that by simp
  have fin: "finite (subtree t n c)" if "c \<in> set cs" for c by (rule finite_subtree [OF inv sub [OF that]])
  have "i \<notin> (\<Union>c \<in> set cs. subtree t n c)" using subtree_parent [OF inv] cs(2) by auto
  moreover have "subtree t n i = insert i (\<Union>c \<in> set cs. subtree t n c)"
    using subtree_unfold [of t n i] cs(2) by simp
  ultimately have "card (subtree t n i) = Suc (card (\<Union>c \<in> set cs. subtree t n c))"
    using fin by (simp add: card_insert_if)
  also have "card (\<Union>c \<in> set cs. subtree t n c) = (\<Sum>c \<in> set cs. card (subtree t n c))"
    by (rule card_UN_disjoint) (use fin siblings_disjoint [OF inv, of i] cs(2) in simp_all)
  finally show ?thesis using cs(1) by (simp add: sum_list_distinct_conv_sum_set)
qed

text \<open>The blocks pushed for the children of a block.\<close>

lemma children_pushed:
  assumes inv: "links_ok t" and lb: "get_linkable_block t (lb_id lb) = Some lb"
    and ord: "\<And>xs. mset (ord xs) = mset xs"
  shows "\<exists>lbs. try_map (\<lambda>child_id. unwrap (get_linkable_block t child_id))
      (filter (\<lambda>child_id. n \<noteq> child_id) (ord (lb_children lb))) = (Ok lbs :: ('e, _) res) \<and>
    distinct (map lb_id lbs) \<and> set (map lb_id lbs) = {c. child_link t (lb_id lb) c \<and> c \<noteq> n} \<and>
    (\<forall>lb' \<in> set lbs. get_linkable_block t (lb_id lb') = Some lb')"
proof -
  let ?cs = "filter (\<lambda>child_id. n \<noteq> child_id) (ord (lb_children lb))"
  have "distinct (lb_children lb)" using inv lb by (auto simp: links_ok_def)
  then have d: "distinct ?cs" by (metis distinct_filter mset_eq_imp_distinct_iff ord)
  have set: "set ?cs = {c. child_link t (lb_id lb) c \<and> c \<noteq> n}"
    using mset_eq_setD [OF ord] lb by (auto simp: child_link_def)
  have ex: "\<exists>l. get_linkable_block t c = Some l \<and> lb_id l = c" if "c \<in> set ?cs" for c
    using child_exists [OF inv, of "lb_id lb" c] set that inv
    by (fastforce simp: block_exists_iff get_block_linkable links_ok_def)
  let ?l = "\<lambda>c. the (get_linkable_block t c)"
  have run: "try_map (\<lambda>c. unwrap (get_linkable_block t c)) cs = (Ok (map ?l cs) :: ('e, _) res)"
    if "set cs \<subseteq> set ?cs" for cs
    using that
  proof (induction cs)
    case (Cons c cs)
    then show ?case using ex [of c] by (auto simp: unwrap_def)
  qed simp
  have ids: "map lb_id (map ?l cs) = cs" if "set cs \<subseteq> set ?cs" for cs
    using that ex by (induction cs) fastforce+
  have "\<forall>l \<in> set (map ?l ?cs). get_linkable_block t (lb_id l) = Some l" using ex by fastforce
  with run [OF order_refl] ids [OF order_refl] d set show ?thesis
    by (intro exI [of _ "map ?l ?cs"] conjI) simp_all
qed

lemma prune_loop_ends:
  assumes inv: "links_ok t" and ord: "\<And>xs. mset (ord xs) = mset xs"
    and st: "\<forall>lb \<in> set stack. get_linkable_block t (lb_id lb) = Some lb"
    and dis: "sorted_wrt (\<lambda>x y. subtree t n (lb_id x) \<inter> subtree t n (lb_id y) = {}) stack"
  shows "\<exists>xs. prune_loop ord t n stack acc = Some (Ok (acc @ xs)) \<and> distinct xs \<and>
    set xs = (\<Union>lb \<in> set stack. subtree t n (lb_id lb)) \<and>
    (\<forall>ys i zs p. xs = ys @ i # zs \<longrightarrow> child_link t p i \<longrightarrow> p \<in> set ys \<or> i \<in> lb_id ` set stack)"
  using st dis
proof (induction "\<Sum>lb \<leftarrow> stack. card (subtree t n (lb_id lb))" arbitrary: stack acc rule: less_induct)
  case less
  show ?case
  proof (cases stack)
    case Nil
    then have "prune_loop ord t n stack acc = Some (Ok (acc @ []))" by (subst prune_loop.simps) simp
    with Nil show ?thesis by (intro exI [of _ "[]"]) simp
  next
    case (Cons lb rest)
    have lb: "get_linkable_block t (lb_id lb) = Some lb" using less.prems Cons by simp
    then have ex: "block_exists t (lb_id lb)" by (auto simp: block_exists_iff get_block_linkable)
    obtain lbs where lbs: "try_map (\<lambda>child_id. unwrap (get_linkable_block t child_id))
        (filter (\<lambda>child_id. n \<noteq> child_id) (ord (lb_children lb))) = (Ok lbs :: (anyhow_error, _) res)"
      "distinct (map lb_id lbs)" "set (map lb_id lbs) = {c. child_link t (lb_id lb) c \<and> c \<noteq> n}"
      "\<forall>lb' \<in> set lbs. get_linkable_block t (lb_id lb') = Some lb'"
      using children_pushed [where ?'e = anyhow_error, OF inv lb ord, of n] by (elim exE conjE) (rule that)
    have run: "prune_loop ord t n stack acc = prune_loop ord t n (rev lbs @ rest) (acc @ [lb_id lb])"
      by (subst prune_loop.simps) (simp add: Cons lbs(1))
    have sub: "subtree t n (lb_id lb) = insert (lb_id lb) (\<Union>l \<in> set lbs. subtree t n (lb_id l))"
      using subtree_unfold [of t n "lb_id lb"] by (simp add: lbs(3) [symmetric])
    have smaller: "(\<Sum>l \<leftarrow> rev lbs @ rest. card (subtree t n (lb_id l))) <
        (\<Sum>l \<leftarrow> stack. card (subtree t n (lb_id l)))"
      using card_subtree [OF inv ex lbs(2,3)] by (simp add: Cons rev_map [symmetric] comp_def)
    have kids: "child_link t (lb_id lb) (lb_id l)" if "l \<in> set lbs" for l
      using lbs(3) that by auto
    have "sorted_wrt (\<lambda>x y. subtree t n (lb_id x) \<inter> subtree t n (lb_id y) = {}) lbs"
      using lbs(2) kids
    proof (induction lbs)
      case (Cons l ls)
      then show ?case using siblings_disjoint [OF inv, of "lb_id lb"] by (force simp: image_iff)
    qed simp
    then have "sorted_wrt (\<lambda>x y. subtree t n (lb_id x) \<inter> subtree t n (lb_id y) = {}) (rev lbs)"
      by (simp add: sorted_wrt_rev Int_commute)
    then have dis': "sorted_wrt (\<lambda>x y. subtree t n (lb_id x) \<inter> subtree t n (lb_id y) = {}) (rev lbs @ rest)"
      using less.prems(2) sub by (fastforce simp: Cons sorted_wrt_append)
    have st': "\<forall>l \<in> set (rev lbs @ rest). get_linkable_block t (lb_id l) = Some l"
      using lbs(4) less.prems(1) Cons by auto
    from less.hyps [OF smaller st' dis', of "acc @ [lb_id lb]"] obtain xs where
      xs: "prune_loop ord t n (rev lbs @ rest) (acc @ [lb_id lb]) = Some (Ok ((acc @ [lb_id lb]) @ xs))"
      "distinct xs" "set xs = (\<Union>l \<in> set (rev lbs @ rest). subtree t n (lb_id l))"
      "\<forall>ys i zs p. xs = ys @ i # zs \<longrightarrow> child_link t p i \<longrightarrow> p \<in> set ys \<or> i \<in> lb_id ` set (rev lbs @ rest)"
      by (elim exE conjE) (rule that)
    have new: "lb_id lb \<notin> set xs"
      using subtree_parent [OF inv kids] less.prems(2) sub by (auto simp: xs(3) Cons)
    have order: "p \<in> set ys \<or> i \<in> lb_id ` set stack"
      if eq: "lb_id lb # xs = ys @ i # zs" and link: "child_link t p i" for ys i zs p
    proof (cases ys)
      case Nil
      with eq show ?thesis by (simp add: Cons)
    next
      case (Cons y ys')
      with eq have "xs = ys' @ i # zs" "y = lb_id lb" by auto
      from xs(4) [rule_format, OF this(1) link]
      have "p \<in> set ys' \<or> i \<in> lb_id ` set lbs \<or> i \<in> lb_id ` set rest" by auto
      moreover have "p = lb_id lb" if "i \<in> lb_id ` set lbs"
        using that kids link unique_parent [OF inv] by blast
      ultimately show ?thesis using \<open>stack = _\<close> Cons \<open>y = _\<close> by auto
    qed
    show ?thesis
      using run xs new order sub by (intro exI [of _ "lb_id lb # xs"]) (auto simp: Cons)
  qed
qed

lemma subtree_split:
  assumes inv: "links_ok t" and n: "descends t w n" "w \<noteq> n" and ex: "block_exists t w"
  shows "descends t n x \<Longrightarrow> x \<notin> subtree t n w"
    and "descends t w x \<Longrightarrow> x \<in> subtree t n w \<or> descends t n x"
proof -
  have "x \<notin> subtree t n w" if "descends t n x"
    using that
  proof (induction rule: rtranclp_induct)
    case base
    have "\<not> within t n w n" using n(2) by (auto elim: rtranclp.cases)
    then show ?case by (simp add: subtree_def)
  next
    case (step y z)
    show ?case
    proof
      assume "z \<in> subtree t n w"
      then have "within t n w z" by (simp add: subtree_def)
      then show False
      proof (cases rule: rtranclp.cases)
        case rtrancl_refl
        then have "descends t w y" "descends t y w" using step(1,2) n(1) by auto
        then have "w = y" using descends_antisym inv ex by blast
        with step(2) rtrancl_refl inv show False by (auto elim: child_linkE)
      next
        case (rtrancl_into_rtrancl y')
        then have "y' = y" using unique_parent [OF inv] step(2) by blast
        with rtrancl_into_rtrancl step.IH show False by (simp add: subtree_def)
      qed
    qed
  qed
  then show "descends t n x \<Longrightarrow> x \<notin> subtree t n w" .
  have "x \<in> subtree t n w \<or> descends t n x" if "descends t w x"
    using that
  proof (induction rule: rtranclp_induct)
    case (step y z)
    then show ?case
      by (cases "z = n") (auto simp: subtree_def intro: rtranclp.rtrancl_into_rtrancl)
  qed (simp add: subtree_def)
  then show "descends t w x \<Longrightarrow> x \<in> subtree t n w \<or> descends t n x" .
qed

lemma find_blocks_to_prune_Ok:
  assumes inv: "links_ok t" and ex: "block_exists t (bt_window_root_id t)"
    and n: "descends t (bt_window_root_id t) n" and ord: "\<And>xs. mset (ord xs) = mset xs"
  shows "\<exists>xs. find_blocks_to_prune ord t n = Some (Ok xs) \<and> distinct xs \<and>
    set xs = {x. descends t (bt_window_root_id t) x \<and> \<not> descends t n x} \<and>
    (\<forall>ys i zs p. xs = ys @ i # zs \<longrightarrow> child_link t p i \<longrightarrow> p \<in> set ys \<or> i = bt_window_root_id t)"
proof (cases "n = bt_window_root_id t")
  case True
  then show ?thesis by (intro exI [of _ "[]"]) (simp add: find_blocks_to_prune_def)
next
  case False
  let ?w = "bt_window_root_id t"
  obtain lb where lb: "get_linkable_block t ?w = Some lb" "lb_id lb = ?w"
    using ex inv by (auto simp: block_exists_iff get_block_linkable links_ok_def)
  have st: "\<forall>l \<in> set [lb]. get_linkable_block t (lb_id l) = Some l" using lb by simp
  have "sorted_wrt (\<lambda>x y. subtree t n (lb_id x) \<inter> subtree t n (lb_id y) = {}) [lb]" by simp
  from prune_loop_ends [OF inv ord st this, of "[]"] obtain xs where
    xs: "prune_loop ord t n [lb] [] = Some (Ok xs)" "distinct xs" "set xs = subtree t n ?w"
    "\<forall>ys i zs p. xs = ys @ i # zs \<longrightarrow> child_link t p i \<longrightarrow> p \<in> set ys \<or> i = ?w"
    by (auto simp: lb(2))
  have "find_blocks_to_prune ord t n = Some (Ok xs)"
    using xs(1) lb(1) False by (simp add: find_blocks_to_prune_def linkable_window_root_def unwrap_def)
  moreover have "set xs = {x. descends t ?w x \<and> \<not> descends t n x}"
  proof -
    have split: "descends t n x \<Longrightarrow> x \<notin> subtree t n ?w"
      "descends t ?w x \<Longrightarrow> x \<in> subtree t n ?w \<or> descends t n x"
      "x \<in> subtree t n ?w \<Longrightarrow> descends t ?w x" for x
      using subtree_split [OF inv n False [symmetric] ex] within_descends by (auto simp: subtree_def)
    show ?thesis unfolding xs(3) using split by blast
  qed
  ultimately show ?thesis using xs(2,4) by blast
qed

section \<open>Removing pruned blocks\<close>

lemma remove_block_simps [simp]:
  "bt_pruned_block_ids (remove_block i t) = bt_pruned_block_ids t"
  "bt_window_root_id (remove_block i t) = bt_window_root_id t"
  "bt_commit_root_id (remove_block i t) = bt_commit_root_id t"
  "bt_ordered_root_id (remove_block i t) = bt_ordered_root_id t"
  "bt_highest_certified_block_id (remove_block i t) = bt_highest_certified_block_id t"
  "bt_highest_commit_cert (remove_block i t) = bt_highest_commit_cert t"
  "bt_max_pruned_blocks_in_mem (remove_block i t) = bt_max_pruned_blocks_in_mem t"
  "remove_block i (t\<lparr>bt_pruned_block_ids := ids\<rparr>) = (remove_block i t)\<lparr>bt_pruned_block_ids := ids\<rparr>"
  "remove_block i (t\<lparr>bt_window_root_id := w\<rparr>) = (remove_block i t)\<lparr>bt_window_root_id := w\<rparr>"
  by (simp_all add: remove_block_def Let_def split: option.splits)

lemma get_linkable_remove [simp]:
  "get_linkable_block (remove_block i t) j = (if j = i then None else get_linkable_block t j)"
  by (simp add: remove_block_def get_linkable_block_def Let_def split: option.splits)

lemma get_linkable_fields [simp]:
  "get_linkable_block (t\<lparr>bt_pruned_block_ids := ids\<rparr>) = get_linkable_block t"
  "get_linkable_block (t\<lparr>bt_window_root_id := w\<rparr>) = get_linkable_block t"
  by (simp_all add: fun_eq_iff get_linkable_block_def)

lemma get_block_remove [simp]:
  "bt_get_block (remove_block i t) j = (if j = i then None else bt_get_block t j)"
  by (simp add: bt_get_block_def)

lemma block_exists_remove [simp]: "block_exists (remove_block i t) j \<longleftrightarrow> j \<noteq> i \<and> block_exists t j"
  by (simp add: block_exists_iff)

lemma child_link_remove [simp]: "child_link (remove_block i t) p c \<longleftrightarrow> p \<noteq> i \<and> child_link t p c"
  by (simp add: child_link_def)

text \<open>The part of the invariant that does not speak of the commit root and of the certificates.\<close>

definition core_inv :: "block_tree \<Rightarrow> bool" where
  "core_inv t \<longleftrightarrow> links_ok t \<and> pruned_ok t \<and> block_exists t (bt_window_root_id t)"

lemma remove_oldest:
  assumes inv: "core_inv t" and p: "bt_pruned_block_ids t = i # rest"
  defines "t' \<equiv> (remove_block i t)\<lparr>bt_pruned_block_ids := rest\<rparr>"
  shows "core_inv t'" and "descends t (bt_window_root_id t) x \<Longrightarrow> descends t' (bt_window_root_id t) x"
proof -
  let ?w = "bt_window_root_id t"
  have links: "links_ok t" and ok: "pruned_ok t" and w: "block_exists t ?w"
    using inv by (auto simp: core_inv_def)
  have gone: "\<not> child_link t q i" for q using ok p unfolding pruned_ok_def by fastforce
  have inactive: "\<not> descends t ?w i" using ok p by (simp add: pruned_ok_def)
  have f: "child_link t' = (\<lambda>q c. q \<noteq> i \<and> child_link t q c)"
    "bt_get_block t' = (\<lambda>j. if j = i then None else bt_get_block t j)"
    "block_exists t' = (\<lambda>j. j \<noteq> i \<and> block_exists t j)"
    "get_linkable_block t' = (\<lambda>j. if j = i then None else get_linkable_block t j)"
    by (simp_all add: fun_eq_iff t'_def child_link_def bt_get_block_def block_exists_iff)
  have sub: "descends t' a c \<Longrightarrow> descends t a c" for a c
    by (rule rtranclp_mono [THEN predicate2D, of "child_link t'"]) (auto simp: f)
  show keep: "descends t ?w x \<Longrightarrow> descends t' ?w x" for x
  proof (induction rule: rtranclp_induct)
    case (step y z)
    have "y \<noteq> i" using step(1) inactive by blast
    then have "child_link t' y z" using step(2) by (simp add: f)
    with step(3) show ?case by (rule rtranclp.rtrancl_into_rtrancl)
  qed simp
  have "links_ok t'"
    unfolding links_ok_def f
  proof (intro conjI allI impI)
    fix q lb c assume lb: "(if q = i then None else get_linkable_block t q) = Some lb" and c: "c \<in> set (lb_children lb)"
    then have "get_linkable_block t q = Some lb" by (simp split: if_splits)
    moreover from this c gone have "c \<noteq> i" by (auto simp: child_link_def)
    ultimately show "\<exists>b. (if c = i then None else bt_get_block t c) = Some b \<and> blk_parent_id b = q \<and>
        blk_round (lb_executed_block lb) < blk_round b \<and>
        bi_round (certified_block (blk_quorum_cert b)) = blk_round (lb_executed_block lb) \<and>
        \<not> bd_is_genesis_block (blk_block_data b)"
      using links c unfolding links_ok_def by simp
  qed (use links in \<open>auto simp: links_ok_def split: if_splits\<close>)
  moreover have "pruned_ok t'"
    unfolding pruned_ok_def
  proof (intro conjI allI impI ballI)
    have ids: "bt_pruned_block_ids t' = rest" and w': "bt_window_root_id t' = ?w" by (simp_all add: t'_def)
    show "distinct (bt_pruned_block_ids t')" using ok p by (simp add: pruned_ok_def ids)
    show "block_exists t' j" if "j \<in> set (bt_pruned_block_ids t')" for j
      using ok p that by (auto simp: pruned_ok_def ids f)
    show "\<not> descends t' (bt_window_root_id t') j" if "j \<in> set (bt_pruned_block_ids t')" for j
      using ok p that sub unfolding w' ids pruned_ok_def by auto
    show "q \<in> set xs" if "bt_pruned_block_ids t' = xs @ j # ys" "child_link t' q j" for xs j ys q
    proof -
      have "bt_pruned_block_ids t = (i # xs) @ j # ys" using that(1) p by (simp add: ids)
      with ok that(2) have "q \<in> set (i # xs)" unfolding pruned_ok_def f by blast
      with that(2) show ?thesis by (simp add: f)
    qed
    show "q \<in> set (bt_pruned_block_ids t')" if "child_link t' q (bt_window_root_id t')" for q
      using ok p that unfolding pruned_ok_def w' ids f by auto
  qed
  moreover have "bt_window_root_id t' = ?w" by (simp add: t'_def)
  then have "block_exists t' (bt_window_root_id t')" using w inactive by (auto simp: f)
  ultimately show "core_inv t'" by (simp add: core_inv_def)
qed

lemma remove_pruned:
  assumes "core_inv t" "bt_pruned_block_ids t = xs @ ys"
  defines "t' \<equiv> foldl (\<lambda>t i. remove_block i t) (t\<lparr>bt_pruned_block_ids := ys\<rparr>) xs"
  shows "core_inv t'" and "descends t (bt_window_root_id t) x \<Longrightarrow> descends t' (bt_window_root_id t) x"
    and "bt_pruned_block_ids t' = ys" "bt_window_root_id t' = bt_window_root_id t"
    "bt_commit_root_id t' = bt_commit_root_id t" "bt_ordered_root_id t' = bt_ordered_root_id t"
    "bt_highest_certified_block_id t' = bt_highest_certified_block_id t"
    "bt_highest_commit_cert t' = bt_highest_commit_cert t"
    "bt_get_block t' j = (if j \<in> set xs then None else bt_get_block t j)"
proof -
  have "core_inv t' \<and> (descends t (bt_window_root_id t) x \<longrightarrow> descends t' (bt_window_root_id t) x) \<and>
    bt_pruned_block_ids t' = ys \<and> bt_window_root_id t' = bt_window_root_id t \<and>
    bt_commit_root_id t' = bt_commit_root_id t \<and> bt_ordered_root_id t' = bt_ordered_root_id t \<and>
    bt_highest_certified_block_id t' = bt_highest_certified_block_id t \<and>
    bt_highest_commit_cert t' = bt_highest_commit_cert t \<and>
    bt_get_block t' j = (if j \<in> set xs then None else bt_get_block t j)"
    using assms(1,2) unfolding t'_def
  proof (induction xs arbitrary: t)
    case Nil
    then have same: "t\<lparr>bt_pruned_block_ids := ys\<rparr> = t" by simp
    show ?case unfolding foldl.simps same using Nil by simp
  next
    case (Cons i xs)
    let ?t1 = "(remove_block i t)\<lparr>bt_pruned_block_ids := xs @ ys\<rparr>"
    have p: "bt_pruned_block_ids t = i # (xs @ ys)" using Cons.prems by simp
    note one = remove_oldest [OF Cons.prems(1) p]
    have "bt_get_block ?t1 j = (if j = i then None else bt_get_block t j)"
      by (simp add: bt_get_block_def)
    with Cons.IH [OF one(1)] one(2) [of x] show ?case by (simp cong: if_cong)
  qed
  then show "core_inv t'" "descends t (bt_window_root_id t) x \<Longrightarrow> descends t' (bt_window_root_id t) x"
    "bt_pruned_block_ids t' = ys" "bt_window_root_id t' = bt_window_root_id t"
    "bt_commit_root_id t' = bt_commit_root_id t" "bt_ordered_root_id t' = bt_ordered_root_id t"
    "bt_highest_certified_block_id t' = bt_highest_certified_block_id t"
    "bt_highest_commit_cert t' = bt_highest_commit_cert t"
    "bt_get_block t' j = (if j \<in> set xs then None else bt_get_block t j)" by blast+
qed

section \<open>Committing\<close>

text \<open>The tree after the new window root is set and the blocks found are in the list of pruned ones.\<close>

lemma prune_core_inv:
  assumes inv: "core_inv t" and n: "descends t (bt_window_root_id t) n"
    and xs: "distinct xs" "set xs = {x. descends t (bt_window_root_id t) x \<and> \<not> descends t n x}"
    and order: "\<forall>ys i zs p. xs = ys @ i # zs \<longrightarrow> child_link t p i \<longrightarrow> p \<in> set ys \<or> i = bt_window_root_id t"
  shows "core_inv (t\<lparr>bt_window_root_id := n, bt_pruned_block_ids := bt_pruned_block_ids t @ xs\<rparr>)"
proof -
  let ?w = "bt_window_root_id t" and ?old = "bt_pruned_block_ids t"
  let ?t = "t\<lparr>bt_window_root_id := n, bt_pruned_block_ids := ?old @ xs\<rparr>"
  have links: "links_ok t" and ok: "pruned_ok t" and w: "block_exists t ?w"
    using inv by (auto simp: core_inv_def)
  have f: "get_linkable_block ?t = get_linkable_block t" by (simp add: fun_eq_iff get_linkable_block_def)
  then have g: "child_link ?t = child_link t" "bt_get_block ?t = bt_get_block t" "block_exists ?t = block_exists t"
    by (auto simp: fun_eq_iff child_link_def bt_get_block_def block_exists_iff)
  have old: "block_exists t i \<and> \<not> descends t ?w i" if "i \<in> set ?old" for i
    using ok that unfolding pruned_ok_def by blast
  have old_n: "\<not> descends t n i" if "i \<in> set ?old" for i
    using old [OF that] n by (meson rtranclp_trans)
  have "links_ok ?t" using links by (simp add: links_ok_def f g)
  moreover have "pruned_ok ?t"
    unfolding pruned_ok_def g
  proof (intro conjI allI impI ballI)
    show "distinct (bt_pruned_block_ids ?t)" using ok old xs unfolding pruned_ok_def by auto
    show "block_exists t i" if "i \<in> set (bt_pruned_block_ids ?t)" for i
      using old xs(2) that descends_exists [OF _ links w] by auto
    show "\<not> descends t (bt_window_root_id ?t) i" if "i \<in> set (bt_pruned_block_ids ?t)" for i
      using old_n xs(2) that by auto
    show "p \<in> set ys" if eq: "bt_pruned_block_ids ?t = ys @ i # zs" and link: "child_link t p i" for ys i zs p
    proof -
      from eq have "?old @ xs = ys @ i # zs" by simp
      then consider us where "?old = ys @ i # us" | us where "ys = ?old @ us" "xs = us @ i # zs"
        unfolding append_eq_append_conv2 append_eq_Cons_conv by (metis append_Nil2 append.simps(1))
      then show ?thesis
      proof cases
        case (1 us)
        with ok link show ?thesis unfolding pruned_ok_def by blast
      next
        case (2 us)
        from order [rule_format, OF 2(2) link] show ?thesis
        proof
          assume "i = ?w"
          with ok link show ?thesis unfolding pruned_ok_def using 2(1) by auto
        qed (use 2(1) in simp)
      qed
    qed
    show "p \<in> set (bt_pruned_block_ids ?t)" if "child_link t p (bt_window_root_id ?t)" for p
    proof (cases "n = ?w")
      case True
      with ok that show ?thesis unfolding pruned_ok_def by simp
    next
      case False
      have pn: "child_link t p n" using that by simp
      from n False obtain y where "descends t ?w y" "child_link t y n" by (auto elim: rtranclp.cases)
      with unique_parent [OF links pn] have "descends t ?w p" by blast
      moreover have "\<not> descends t n p"
        using subtree_parent [OF links pn] descends_antisym [OF _ _ links, of n p] pn child_exists [OF links pn]
        by (metis r_into_rtranclp child_linkE links less_irrefl option.inject)
      ultimately show ?thesis using xs(2) by simp
    qed
  qed
  moreover have "block_exists ?t (bt_window_root_id ?t)" using descends_exists [OF n links w] g by simp
  ultimately show ?thesis by (simp add: core_inv_def)
qed

text \<open>
  The window is kept: nothing that a later commit may ask for lies above the root of the window.
\<close>

definition window_ok :: "u64 option \<Rightarrow> block_tree \<Rightarrow> bool" where
  "window_ok window_size t \<longleftrightarrow>
     (case window_size of
        None \<Rightarrow> True
      | Some wsize \<Rightarrow> 0 < wsize \<and>
          (\<forall>wb cb. bt_get_block t (bt_window_root_id t) = Some wb \<longrightarrow>
             bt_get_block t (bt_commit_root_id t) = Some cb \<longrightarrow> window_top (window_start (blk_round cb) wsize) wb))"

lemma window_top_mono: "window_top s b \<Longrightarrow> s \<le> s' \<Longrightarrow> window_top s' b"
  by (auto simp: window_top_def)

lemma window_start_mono:
  assumes "0 < wsize" "unat r' + 1 < 2 ^ 64" "r \<le> r'"
  shows "window_start r wsize \<le> window_start r' wsize"
proof -
  have "unat r \<le> unat r'" using assms(3) by (simp add: word_le_nat_alt)
  with assms window_start_facts(3) [of wsize r] window_start_facts(3) [of wsize r'] show ?thesis
    by (simp add: word_le_nat_alt)
qed

text \<open>The new root of the window lies between the old one and the block to commit.\<close>

lemma find_window_root_Ok:
  assumes inv: "tree_inv t" and win: "window_ok ws t"
    and b: "bt_get_block t i = Some b" "descends t (bt_commit_root_id t) i" and r: "unat (blk_round b) + 1 < 2 ^ 64"
  shows "\<exists>n nb. find_window_root t i ws = Some (Ok n) \<and> bt_get_block t n = Some nb \<and>
    descends t (bt_window_root_id t) n \<and> descends t n i \<and>
    (\<forall>wsize. ws = Some wsize \<longrightarrow> window_top (window_start (blk_round b) wsize) nb)"
proof -
  note links = tree_invD(1) [OF inv]
  obtain cb wb where c: "bt_get_block t (bt_commit_root_id t) = Some cb"
    and wb: "bt_get_block t (bt_window_root_id t) = Some wb"
    using roots_exist(1,2) [OF inv] by (auto simp: block_exists_iff)
  have le: "blk_round cb \<le> blk_round b" using descends_round [OF b(2) links c b(1)] c b(1) by auto
  have d: "descends t (bt_window_root_id t) i"
    using tree_invD(3) [OF inv] b(2) by (auto simp: roots_ok_def intro: rtranclp_trans)
  have id: "blk_id b = i" by (rule block_id [OF links b(1)])
  show ?thesis
  proof (cases ws)
    case None
    have "get_ordered_block_window t b None = Some (Ok [])"
      using c le by (simp add: get_ordered_block_window_def commit_root_def unwrap_def ensure_def)
    with None b id d show ?thesis by (simp add: find_window_root_def)
  next
    case (Some wsize)
    with win wb c have pos: "0 < wsize" and top: "window_top (window_start (blk_round cb) wsize) wb"
      by (auto simp: window_ok_def)
    have top': "window_top (window_start (blk_round b) wsize) wb"
      by (rule window_top_mono [OF top window_start_mono [OF pos r le]])
    from get_ordered_block_window_Ok [OF links d wb b(1) pos r top' c le] obtain window where
      w: "get_ordered_block_window t b (Some wsize) = Some (Ok (rev window))"
      "\<forall>w \<in> set window. bt_get_block t (blk_id w) = Some w \<and> descends t (bt_window_root_id t) (blk_id w) \<and>
         descends t (blk_id w) i"
      "window_top (window_start (blk_round b) wsize) (last (b # window))" by blast
    have "find_window_root t i ws = Some (Ok (blk_id (last (b # window))))"
      using w(1) b(1) pos Some by (cases window rule: rev_cases) (auto simp: find_window_root_def)
    moreover have "bt_get_block t (blk_id (last (b # window))) = Some (last (b # window)) \<and>
        descends t (bt_window_root_id t) (blk_id (last (b # window))) \<and> descends t (blk_id (last (b # window))) i"
      using w(2) b(1) d id by (cases window rule: rev_cases) auto
    ultimately show ?thesis using w(3) Some by auto
  qed
qed

lemma foldl_remove_window:
  "foldl (\<lambda>t i. remove_block i t) (t\<lparr>bt_window_root_id := n\<rparr>) xs =
     (foldl (\<lambda>t i. remove_block i t) t xs)\<lparr>bt_window_root_id := n\<rparr>"
  by (induction xs arbitrary: t) simp_all

lemma window_pruned_commute:
  "t\<lparr>bt_pruned_block_ids := ids, bt_window_root_id := n\<rparr> = t\<lparr>bt_window_root_id := n, bt_pruned_block_ids := ids\<rparr>"
  by (cases t) simp

text \<open>The highest commit certificate is for the commit root.\<close>

definition commit_ok :: "block_tree \<Rightarrow> bool" where
  "commit_ok t \<longleftrightarrow>
     bi_id (wli_commit_info (bt_highest_commit_cert t)) = bt_commit_root_id t \<and>
     (\<forall>cb. bt_get_block t (bt_commit_root_id t) = Some cb \<longrightarrow>
        bi_round (wli_commit_info (bt_highest_commit_cert t)) = blk_round cb)"

text \<open>The blocks a commit keeps and the state it leads to.\<close>

lemma process_pruned_blocks_inv:
  assumes inv: "tree_inv t" and n: "descends t (bt_window_root_id t) n"
    and xs: "distinct xs" "set xs = {x. descends t (bt_window_root_id t) x \<and> \<not> descends t n x}"
    and order: "\<forall>ys i zs p. xs = ys @ i # zs \<longrightarrow> child_link t p i \<longrightarrow> p \<in> set ys \<or> i = bt_window_root_id t"
  defines "t' \<equiv> (process_pruned_blocks xs t)\<lparr>bt_window_root_id := n\<rparr>"
  shows "core_inv t'" and "descends t n x \<Longrightarrow> descends t' n x"
    and "descends t n x \<Longrightarrow> bt_get_block t' x = bt_get_block t x"
    and "length (bt_pruned_block_ids t') \<le> bt_max_pruned_blocks_in_mem t"
    and "bt_window_root_id t' = n" "bt_commit_root_id t' = bt_commit_root_id t"
    "bt_ordered_root_id t' = bt_ordered_root_id t"
    "bt_highest_certified_block_id t' = bt_highest_certified_block_id t"
    "bt_highest_commit_cert t' = bt_highest_commit_cert t"
proof -
  let ?P = "bt_pruned_block_ids t @ xs" and ?max = "bt_max_pruned_blocks_in_mem t"
  let ?k = "length ?P - ?max"
  let ?T = "t\<lparr>bt_window_root_id := n, bt_pruned_block_ids := ?P\<rparr>"
  have c: "core_inv t" using inv roots_exist(1) [OF inv] by (simp add: core_inv_def tree_inv_def)
  have core: "core_inv ?T" by (rule prune_core_inv [OF c n xs order])
  have P: "bt_pruned_block_ids ?T = take ?k ?P @ drop ?k ?P" by (simp only: append_take_drop_id) simp
  have t': "t' = foldl (\<lambda>t i. remove_block i t) (?T\<lparr>bt_pruned_block_ids := drop ?k ?P\<rparr>) (take ?k ?P)"
    unfolding t'_def process_pruned_blocks_def Let_def foldl_remove_window [symmetric]
    by (simp add: window_pruned_commute)
  note rp = remove_pruned [OF core P, folded t']
  have link: "child_link ?T = child_link t" and get: "bt_get_block ?T = bt_get_block t"
    by (auto simp: fun_eq_iff child_link_def bt_get_block_def get_linkable_block_def)
  show "core_inv t'" by (rule rp(1))
  show "descends t n x \<Longrightarrow> descends t' n x" using rp(2) [of x] by (simp add: link)
  show "bt_get_block t' x = bt_get_block t x" if "descends t n x"
  proof -
    have "x \<notin> set ?P"
      using that core [unfolded core_inv_def pruned_ok_def] by (auto simp: link)
    then show ?thesis using rp(9) [of x] in_set_takeD [of x ?k ?P] by (auto simp: get)
  qed
  show "length (bt_pruned_block_ids t') \<le> ?max" by (simp add: rp(3))
  show "bt_window_root_id t' = n" "bt_commit_root_id t' = bt_commit_root_id t"
    "bt_ordered_root_id t' = bt_ordered_root_id t"
    "bt_highest_certified_block_id t' = bt_highest_certified_block_id t"
    "bt_highest_commit_cert t' = bt_highest_commit_cert t"
    by (simp_all add: rp(4-8))
qed

lemma block_exists_window [simp]: "block_exists (t\<lparr>bt_window_root_id := n\<rparr>) = block_exists t"
  by (simp add: fun_eq_iff block_exists_def)

lemma commit_callback_facts:
  assumes inv: "tree_inv t" and win: "window_ok ws t" and com: "commit_ok t"
    and b: "bt_get_block t i = Some b" and r: "unat (blk_round b) + 1 < 2 ^ 64"
    and chain: "descends t (bt_commit_root_id t) i" "descends t i (bt_ordered_root_id t)"
      "descends t i (bt_highest_certified_block_id t)"
    and m: "match_ordered_only (wli_commit_info finality_proof) (liws_commit_info decision)"
    and d: "bi_id (liws_commit_info decision) = i" "bi_round (liws_commit_info decision) = blk_round b"
    and ord: "\<And>xs. mset (ord xs) = mset xs"
  shows "\<exists>t'. commit_callback ord i finality_proof decision ws t = Some (Ok (), t') \<and>
    tree_inv t' \<and> window_ok ws t' \<and> commit_ok t' \<and> bt_commit_root_id t' = i \<and>
    descends t (bt_window_root_id t) (bt_window_root_id t') \<and> descends t (bt_window_root_id t') i \<and>
    (\<forall>x. descends t (bt_window_root_id t') x \<longrightarrow>
       descends t' (bt_window_root_id t') x \<and> bt_get_block t' x = bt_get_block t x) \<and>
    length (bt_pruned_block_ids t') \<le> bt_max_pruned_blocks_in_mem t"
proof -
  note links = tree_invD(1) [OF inv]
  obtain cb where c: "bt_get_block t (bt_commit_root_id t) = Some cb"
    using roots_exist(2) [OF inv] by (auto simp: block_exists_iff)
  obtain n nb where n: "find_window_root t i ws = Some (Ok n)" "bt_get_block t n = Some nb"
    "descends t (bt_window_root_id t) n" "descends t n i"
    "\<forall>wsize. ws = Some wsize \<longrightarrow> window_top (window_start (blk_round b) wsize) nb"
    using find_window_root_Ok [OF inv win b chain(1) r] by blast
  obtain xs where xs: "find_blocks_to_prune ord t n = Some (Ok xs)" "distinct xs"
    "set xs = {x. descends t (bt_window_root_id t) x \<and> \<not> descends t n x}"
    "\<forall>ys i zs p. xs = ys @ i # zs \<longrightarrow> child_link t p i \<longrightarrow> p \<in> set ys \<or> i = bt_window_root_id t"
    using find_blocks_to_prune_Ok [OF links roots_exist(1) [OF inv] n(3) ord] by blast
  define t1 where "t1 = (process_pruned_blocks xs t)\<lparr>bt_window_root_id := n\<rparr>"
  note p = process_pruned_blocks_inv [OF inv n(3) xs(2-4), folded t1_def]
  let ?proof = "\<lparr>wli_vote_data = wli_vote_data finality_proof, wli_signed_ledger_info = decision\<rparr>"
  have ex: "block_exists t1 x" if "descends t n x" for x
    using descends_exists [OF that links] n(2) p(3) [OF that] by (auto simp: block_exists_iff)
  have merged: "wli_create_merged_with_executed_state finality_proof decision = Ok ?proof"
    using m by (simp add: wli_create_merged_with_executed_state_def ensure_def)
  have info: "wli_commit_info ?proof = liws_commit_info decision" by (simp add: wli_commit_info_def)
  have upd: "commit_update n xs ?proof t = update_highest_commit_cert ?proof t1"
    using ex [of n]
    by (simp add: commit_update_def update_window_root_def m_bind_def m_read_def m_modify_def assert_def t1_def)
  define t' where "t' = (if bi_round (liws_commit_info decision) > bi_round (wli_commit_info (bt_highest_commit_cert t))
      then t1\<lparr>bt_highest_commit_cert := ?proof, bt_commit_root_id := i\<rparr> else t1)"
  have same: "i = bt_commit_root_id t" if "\<not> bi_round (liws_commit_info decision) > bi_round (wli_commit_info (bt_highest_commit_cert t))"
    using that com descends_round [OF chain(1) links c b] c d(2) by (auto simp: commit_ok_def)
  have "update_highest_commit_cert ?proof t1 = (Ok (), t')"
    using ex [OF n(4)] p(9) d(1)
    by (auto simp: update_highest_commit_cert_def info update_commit_root_def m_bind_def m_read_def
        m_modify_def assert_def t'_def block_exists_def)
  then have run: "commit_callback ord i finality_proof decision ws t = Some (Ok (), t')"
    using merged n(1) xs(1) upd c by (simp add: commit_callback_def commit_root_def unwrap_def)
  have f: "bt_id_to_block t' = bt_id_to_block t1" "bt_pruned_block_ids t' = bt_pruned_block_ids t1"
    "bt_window_root_id t' = bt_window_root_id t1"
    "bt_ordered_root_id t' = bt_ordered_root_id t" "bt_highest_certified_block_id t' = bt_highest_certified_block_id t"
    by (simp_all add: t'_def p)
  have com': "bt_commit_root_id t' = i" using same p(6) by (auto simp: t'_def)
  note fr = tree_inv_frame [OF f(1-3)]
  have w': "bt_window_root_id t' = n" by (simp add: f p)
  have desc: "descends t' n x" if "descends t n x" for x using p(2) [OF that] by (simp add: fr)
  have io: "descends t' i x" if x: "descends t i x" for x
    using x
  proof (induction rule: rtranclp_induct)
    case (step y z)
    have "descends t n z" using n(4) step(1,2) by (meson rtranclp.rtrancl_into_rtrancl rtranclp_trans)
    then have "descends t' n z" by (rule desc)
    moreover have "z \<noteq> n"
    proof
      assume "z = n"
      then have "descends t n y" "descends t y n" using n(4) step(1,2) by (auto intro: rtranclp_trans)
      then have "n = y" using descends_antisym links n(2) by (auto simp: block_exists_iff)
      with step(2) \<open>z = n\<close> links show False by (auto elim: child_linkE)
    qed
    ultimately obtain y' where "descends t' n y'" "child_link t' y' z" by (auto elim: rtranclp.cases)
    moreover have "y' = y"
    proof -
      have l1: "links_ok t'" using p(1) by (simp add: core_inv_def fr)
      have "descends t n z" by (rule \<open>descends t n z\<close>)
      then have "bt_get_block t' z = bt_get_block t z" using p(3) by (simp add: fr)
      with \<open>child_link t' y' z\<close> step(2) show ?thesis
        by (metis child_linkE l1 links option.inject)
    qed
    ultimately show ?case using step(3) by auto
  qed simp
  have "tree_inv t'"
    using p(1) desc io chain(2,3) n(4) f(4,5) com' w'
    by (auto simp: tree_inv_def roots_ok_def core_inv_def fr p(5) intro: rtranclp_trans)
  moreover have "window_ok ws t'"
    using n(2,5) p(3) [of n] p(3) [OF n(4)] b win
    by (auto simp: window_ok_def w' com' fr split: option.splits)
  moreover have "commit_ok t'"
  proof -
    have "bt_get_block t' i = Some b" using p(3) [OF n(4)] b by (simp add: fr)
    moreover have "bi_id (wli_commit_info (bt_highest_commit_cert t')) = i \<and>
        bi_round (wli_commit_info (bt_highest_commit_cert t')) = blk_round b"
    proof (cases "bi_round (liws_commit_info decision) > bi_round (wli_commit_info (bt_highest_commit_cert t))")
      case True
      then show ?thesis using d by (simp add: t'_def info)
    next
      case False
      with same [OF False] com c b p(9) show ?thesis by (simp add: t'_def commit_ok_def)
    qed
    ultimately show ?thesis unfolding commit_ok_def com' by simp
  qed
  ultimately show ?thesis
    using run com' w' n(3,4) desc p(3,4) f(2) by (auto simp: fr)
qed

section \<open>Runs of a block tree\<close>

definition good_tree :: "u64 option \<Rightarrow> block_tree \<Rightarrow> bool" where
  "good_tree ws t \<longleftrightarrow> tree_inv t \<and> window_ok ws t \<and> commit_ok t"

text \<open>
  What the block store asks of the tree. A new block names its parent with the parent's round and has a
  later round, as a well-formed block does; a certified block that is in the tree descends from the root
  of the window, and a block that is committed lies on the branch of what is ordered and certified, as
  the agreement property of the protocol provides.
\<close>

inductive bt_step ::
    "(hash_value list \<Rightarrow> hash_value list) \<Rightarrow> u64 option \<Rightarrow> block_tree \<Rightarrow> block_tree \<Rightarrow> bool" for ord ws
where
  bt_insert: "(\<And>pb. bt_get_block t (blk_id b) = None \<Longrightarrow> bt_get_block t (blk_parent_id b) = Some pb \<Longrightarrow>
       blk_round pb < blk_round b \<and> bi_round (certified_block (blk_quorum_cert b)) = blk_round pb \<and>
       \<not> bd_is_genesis_block (blk_block_data b)) \<Longrightarrow>
     insert_block b t = (r, t') \<Longrightarrow> bt_step ord ws t t'"
| bt_quorum_cert: "(block_exists t (bi_id (certified_block qc)) \<Longrightarrow>
       descends t (bt_window_root_id t) (bi_id (certified_block qc))) \<Longrightarrow>
     insert_quorum_cert qc t = (r, t') \<Longrightarrow> bt_step ord ws t t'"
| bt_ordered_cert: "bt_step ord ws t (insert_ordered_cert wli t)"
| bt_timeout_cert: "bt_step ord ws t (replace_2chain_timeout_cert tc t)"
| bt_ordered_root: "descends t (bt_commit_root_id t) i \<Longrightarrow> update_ordered_root i t = (r, t') \<Longrightarrow> bt_step ord ws t t'"
| bt_commit: "bt_get_block t i = Some b \<Longrightarrow> unat (blk_round b) + 1 < 2 ^ 64 \<Longrightarrow>
     descends t (bt_commit_root_id t) i \<Longrightarrow> descends t i (bt_ordered_root_id t) \<Longrightarrow>
     descends t i (bt_highest_certified_block_id t) \<Longrightarrow>
     match_ordered_only (wli_commit_info finality_proof) (liws_commit_info decision) \<Longrightarrow>
     bi_id (liws_commit_info decision) = i \<Longrightarrow> bi_round (liws_commit_info decision) = blk_round b \<Longrightarrow>
     commit_callback ord i finality_proof decision ws t = Some (r, t') \<Longrightarrow> bt_step ord ws t t'"

lemma good_tree_frame:
  assumes "good_tree ws t" "bt_id_to_block t' = bt_id_to_block t" "bt_pruned_block_ids t' = bt_pruned_block_ids t"
    "bt_window_root_id t' = bt_window_root_id t" "bt_commit_root_id t' = bt_commit_root_id t"
    "bt_highest_commit_cert t' = bt_highest_commit_cert t" "roots_ok t'"
  shows "good_tree ws t'"
  using assms tree_inv_frame [OF assms(2-4)]
  by (cases ws) (simp_all add: good_tree_def tree_inv_def window_ok_def commit_ok_def)

lemma bt_step_good:
  assumes step: "bt_step ord ws t t'" and good: "good_tree ws t" and ord: "\<And>xs. mset (ord xs) = mset xs"
  shows "good_tree ws t'"
proof -
  have inv: "tree_inv t" and win: "window_ok ws t" and com: "commit_ok t"
    using good by (auto simp: good_tree_def)
  note links = tree_invD(1) [OF inv] and roots = tree_invD(3) [OF inv]
  show ?thesis
    using step
  proof cases
    case (bt_insert b r)
    show ?thesis
    proof (cases "bt_get_block t (blk_id b) = None \<and> bt_get_block t (blk_parent_id b) \<noteq> None")
      case True
      then have new: "bt_get_block t (blk_id b) = None" and ext: "extends_parent t b"
        using bt_insert(1) by (auto simp: extends_parent_def)
      note f = insert_block_linkable [OF links ext new bt_insert(2)]
      have g: "bt_get_block t' x = bt_get_block t x" if "block_exists t x" for x
        using insert_block_links(1) [OF links ext new bt_insert(2)] new that by (auto simp: block_exists_iff)
      have "window_ok ws t'" "commit_ok t'"
        using win com g roots_exist(1,2) [OF inv] by (auto simp: window_ok_def commit_ok_def f split: option.splits)
      with insert_block_inv [OF inv ext new bt_insert(2)] show ?thesis by (simp add: good_tree_def)
    next
      case False
      with bt_insert(2) have "t' = t"
        by (auto simp: insert_block_def bt_get_block_def split: option.splits)
      with good show ?thesis by simp
    qed
  next
    case (bt_quorum_cert qc r)
    show ?thesis
    proof (cases "block_exists t (bi_id (certified_block qc))")
      case True
      then have "tree_inv t'" using insert_quorum_cert_inv [OF inv bt_quorum_cert(2)] bt_quorum_cert(1) by blast
      then have "roots_ok t'" by (rule tree_invD)
      moreover have "bt_id_to_block t' = bt_id_to_block t" "bt_pruned_block_ids t' = bt_pruned_block_ids t"
        "bt_window_root_id t' = bt_window_root_id t" "bt_commit_root_id t' = bt_commit_root_id t"
        "bt_highest_commit_cert t' = bt_highest_commit_cert t"
        using bt_quorum_cert(2)
        by (auto simp: insert_quorum_cert_def Let_def split: option.splits res.splits if_splits)
      ultimately show ?thesis by (intro good_tree_frame [OF good])
    next
      case False
      with bt_quorum_cert(2) have "t' = t"
        by (auto simp: insert_quorum_cert_def block_exists_iff split: option.splits)
      with good show ?thesis by simp
    qed
  next
    case (bt_ordered_cert wli)
    have "roots_ok t'"
      using roots tree_inv_frame [of t' t] by (simp add: bt_ordered_cert insert_ordered_cert_def roots_ok_def)
    then show ?thesis
      by (intro good_tree_frame [OF good]) (simp_all add: bt_ordered_cert insert_ordered_cert_def)
  next
    case (bt_timeout_cert tc)
    have "roots_ok t'"
      using roots tree_inv_frame [of t' t] by (simp add: bt_timeout_cert replace_2chain_timeout_cert_def roots_ok_def)
    then show ?thesis
      by (intro good_tree_frame [OF good]) (simp_all add: bt_timeout_cert replace_2chain_timeout_cert_def)
  next
    case (bt_ordered_root i r)
    have "block_exists t i" by (rule descends_exists [OF bt_ordered_root(1) links roots_exist(2) [OF inv]])
    with bt_ordered_root(2) have t': "t' = t\<lparr>bt_ordered_root_id := i\<rparr>"
      by (simp add: update_ordered_root_def m_bind_def m_read_def m_modify_def assert_def)
    have "roots_ok t'" using roots bt_ordered_root(1) tree_inv_frame [of t' t] by (simp add: t' roots_ok_def)
    then show ?thesis by (intro good_tree_frame [OF good]) (simp_all add: t')
  next
    case (bt_commit i b fp d r)
    from commit_callback_facts [OF inv win com bt_commit(1-8) ord] bt_commit(9) show ?thesis
      by (auto simp: good_tree_def)
  qed
qed

lemma bt_steps_good:
  assumes "(bt_step ord ws)\<^sup>*\<^sup>* t t'" "good_tree ws t" "\<And>xs. mset (ord xs) = mset xs"
  shows "good_tree ws t'"
  using assms(1) by (induction rule: rtranclp_induct) (use assms(2) bt_step_good [OF _ _ assms(3)] in blast)+

text \<open>A tree that starts at a committed root.\<close>

lemma bt_new_good:
  assumes "bt_new (blk_id root) root qc oc cc m tc = (Ok t :: ('e, _) res)"
    and "bi_id (wli_commit_info cc) = blk_id root" "bi_round (wli_commit_info cc) = blk_round root"
    and "ws = None \<or> (\<exists>wsize. ws = Some wsize \<and> 0 < wsize \<and> window_top (window_start (blk_round root) wsize) root)"
  shows "good_tree ws t"
proof -
  have t: "bt_id_to_block t = [(blk_id root, lb_new root)]" "bt_pruned_block_ids t = []"
    "bt_window_root_id t = blk_id root" "bt_commit_root_id t = blk_id root" "bt_ordered_root_id t = blk_id root"
    "bt_highest_certified_block_id t = blk_id root" "bt_highest_commit_cert t = cc"
    using assms(1) by (auto simp: bt_new_def res_simps)
  have g: "get_linkable_block t i = (if i = blk_id root then Some (lb_new root) else None)" for i
    by (simp add: get_linkable_block_def t)
  have b: "bt_get_block t i = (if i = blk_id root then Some root else None)" for i
    by (simp add: bt_get_block_def g lb_new_def)
  have "links_ok t" "pruned_ok t" "roots_ok t"
    by (auto simp: links_ok_def pruned_ok_def roots_ok_def g t lb_id_def lb_new_def child_link_def
        block_exists_iff b split: if_splits)
  then show ?thesis
    using assms(2-4) by (auto simp: good_tree_def tree_inv_def window_ok_def commit_ok_def b t)
qed

section \<open>Blocks that wait for their parents\<close>

text \<open>
  The buffer of \<^verbatim>\<open>consensus/src/block_storage/pending_blocks.rs\<close>. A request carries the sender of a channel;
  what is sent is the result of the method.
\<close>

datatype target_block_retrieval = TargetBlockId hash_value | TargetRound u64

record 'tx pending_blocks =
  pb_blocks_by_hash :: "(hash_value \<times> block) list"
  pb_blocks_by_round :: "(round \<times> block) list"
  pb_pending_request :: "(target_block_retrieval \<times> 'tx) option"

definition pb_new :: "'tx pending_blocks" where
  "pb_new = \<lparr>pb_blocks_by_hash = [], pb_blocks_by_round = [], pb_pending_request = None\<rparr>"

fun fulfils :: "target_block_retrieval \<Rightarrow> block \<Rightarrow> bool" where
  "fulfils (TargetBlockId target_block_id) b = (target_block_id = blk_id b)"
| "fulfils (TargetRound target_round) b = (target_round = blk_round b)"

definition pb_insert_block :: "block \<Rightarrow> 'tx pending_blocks \<Rightarrow> ('tx \<times> block) option \<times> 'tx pending_blocks" where
  "pb_insert_block b pb =
     (let pb = pb\<lparr>pb_blocks_by_hash := btree_insert (blk_id b) b (pb_blocks_by_hash pb),
                  pb_blocks_by_round := btree_insert (blk_round b) b (pb_blocks_by_round pb)\<rparr>
      in case pb_pending_request pb of
           None \<Rightarrow> (None, pb)
         | Some (target, tx) \<Rightarrow>
             if fulfils target b then (Some (tx, b), pb\<lparr>pb_pending_request := None\<rparr>) else (None, pb))"

definition pb_insert_request ::
    "target_block_retrieval \<Rightarrow> 'tx \<Rightarrow> 'tx pending_blocks \<Rightarrow> ('tx \<times> block) option \<times> 'tx pending_blocks" where
  "pb_insert_request target tx pb =
     (case (case target of
              TargetBlockId target_block_id \<Rightarrow> map_of (pb_blocks_by_hash pb) target_block_id
            | TargetRound target_round \<Rightarrow> map_of (pb_blocks_by_round pb) target_round) of
        Some b \<Rightarrow> (Some (tx, b), pb)
      | None \<Rightarrow> (None, pb\<lparr>pb_pending_request := Some (target, tx)\<rparr>))"

definition pb_remove_round :: "round \<Rightarrow> 'tx pending_blocks \<Rightarrow> 'tx pending_blocks" where
  "pb_remove_round r pb =
     (case map_of (pb_blocks_by_round pb) r of
        None \<Rightarrow> pb
      | Some b \<Rightarrow> pb\<lparr>pb_blocks_by_round := btree_remove r (pb_blocks_by_round pb),
                     pb_blocks_by_hash := btree_remove (blk_id b) (pb_blocks_by_hash pb)\<rparr>)"

definition pb_gc :: "round \<Rightarrow> 'tx pending_blocks \<Rightarrow> 'tx pending_blocks" where
  "pb_gc r pb =
     foldl (\<lambda>pb r. pb_remove_round r pb) pb (filter (\<lambda>r'. r' \<le> r) (map fst (pb_blocks_by_round pb)))"

text \<open>A block that the index by rounds does not name is never collected.\<close>

definition unindexed :: "hash_value \<Rightarrow> block \<Rightarrow> 'tx pending_blocks \<Rightarrow> bool" where
  "unindexed i b pb \<longleftrightarrow> map_of (pb_blocks_by_hash pb) i = Some b \<and>
     (\<forall>r b'. map_of (pb_blocks_by_round pb) r = Some b' \<longrightarrow> blk_id b' \<noteq> i)"

lemma unindexed_remove: "unindexed i b pb \<Longrightarrow> unindexed i b (pb_remove_round r pb)"
  by (auto simp: unindexed_def pb_remove_round_def split: option.splits if_splits)

lemma unindexed_gc: "unindexed i b pb \<Longrightarrow> unindexed i b (pb_gc r pb)"
proof -
  have "unindexed i b pb \<Longrightarrow> unindexed i b (foldl (\<lambda>pb r. pb_remove_round r pb) pb rs)" for rs
    by (induction rs arbitrary: pb) (auto intro: unindexed_remove)
  then show "unindexed i b pb \<Longrightarrow> unindexed i b (pb_gc r pb)" by (simp add: pb_gc_def)
qed

lemma pb_insert_block_maps:
  "pb_blocks_by_hash (snd (pb_insert_block b pb)) = btree_insert (blk_id b) b (pb_blocks_by_hash pb)"
  "pb_blocks_by_round (snd (pb_insert_block b pb)) = btree_insert (blk_round b) b (pb_blocks_by_round pb)"
  by (auto simp: pb_insert_block_def Let_def split: option.splits)

lemma unindexed_insert:
  assumes "unindexed i b pb" "blk_id b' \<noteq> i"
  shows "unindexed i b (snd (pb_insert_block b' pb))"
  using assms by (auto simp: unindexed_def pb_insert_block_maps)

section \<open>A sample tree\<close>

definition tree_info :: "hash_value \<Rightarrow> u64 \<Rightarrow> block_info" where
  "tree_info i r = (sample_block_info r)\<lparr>bi_id := i\<rparr>"

definition tree_qc :: "hash_value \<Rightarrow> u64 \<Rightarrow> quorum_cert" where
  "tree_qc i r =
     \<lparr>qc_vote_data = \<lparr>proposed = tree_info i r, parent = tree_info i r\<rparr>,
      qc_signed_ledger_info = \<lparr>
        liws_ledger_info = \<lparr>li_commit_info = tree_info i r, li_consensus_data_hash = 0\<rparr>,
        liws_signatures = \<lparr>validator_bitmask = \<lparr>inner = [0]\<rparr>, agg_sig = None\<rparr>\<rparr>\<rparr>"

definition tree_wli :: "hash_value \<Rightarrow> u64 \<Rightarrow> wrapped_ledger_info" where
  "tree_wli i r = into_wrapped_ledger_info (tree_qc i r)"

definition tree_block :: "block_type \<Rightarrow> hash_value \<Rightarrow> u64 \<Rightarrow> hash_value \<Rightarrow> u64 \<Rightarrow> block" where
  "tree_block ty i r p pr =
     \<lparr>blk_id = i,
      blk_block_data = \<lparr>bd_epoch = 1, bd_round = r, bd_timestamp_usecs = r, bd_quorum_cert = tree_qc p pr,
        bd_block_type = ty\<rparr>,
      blk_signature = None\<rparr>"

abbreviation "tree_root \<equiv> tree_block Genesis 10 0 10 0"
abbreviation "tree_b1 \<equiv> tree_block (NilBlock []) 11 1 10 0"
abbreviation "tree_b2 \<equiv> tree_block (NilBlock []) 12 2 11 1"
abbreviation "tree_fork \<equiv> tree_block (NilBlock []) 13 2 10 0"

definition sample_tree :: "nat \<Rightarrow> block_tree" where
  "sample_tree m =
     \<lparr>bt_id_to_block = [(10, lb_new tree_root)], bt_ordered_root_id = 10, bt_commit_root_id = 10,
      bt_window_root_id = 10, bt_highest_certified_block_id = 10, bt_highest_quorum_cert = tree_qc 10 0,
      bt_highest_2chain_timeout_cert = None, bt_highest_ordered_cert = tree_wli 10 0,
      bt_highest_commit_cert = tree_wli 10 0, bt_id_to_quorum_cert = [(10, tree_qc 10 0)],
      bt_pruned_block_ids = [], bt_max_pruned_blocks_in_mem = m, bt_round_to_ids = [(0, 10)]\<rparr>"

definition grown_tree :: "nat \<Rightarrow> block_tree" where
  "grown_tree m =
     snd (update_ordered_root 12
       (snd (insert_quorum_cert (tree_qc 12 2)
         (snd (insert_block tree_fork (snd (insert_block tree_b2 (snd (insert_block tree_b1 (sample_tree m))))))))))"

lemma child_link_code [code]:
  "child_link t p c =
     (case get_linkable_block t p of None \<Rightarrow> False | Some lb \<Rightarrow> c \<in> set (lb_children lb))"
  by (simp add: child_link_def split: option.splits)

lemma sample_tree_new:
  "bt_new 10 tree_root (tree_qc 10 0) (tree_wli 10 0) (tree_wli 10 0) m None = (Ok (sample_tree m) :: (unit, _) res)"
proof -
  have "blk_id tree_root = 10" "blk_epoch tree_root = bi_epoch (wli_commit_info (tree_wli 10 0))"
    "blk_round tree_root = 0" "bi_round (wli_commit_info (tree_wli 10 0)) = 0"
    "bi_id (certified_block (tree_qc 10 0)) = 10" by code_simp+
  then show ?thesis by (simp add: bt_new_def sample_tree_def assert_def)
qed

lemma insert_step:
  assumes "bt_get_block t (blk_parent_id b) = Some pb" "blk_round pb < blk_round b"
    "bi_round (certified_block (blk_quorum_cert b)) = blk_round pb" "\<not> bd_is_genesis_block (blk_block_data b)"
  shows "bt_step ord ws t (snd (insert_block b t))"
  by (rule bt_insert [OF _ prod.collapse [symmetric]]) (use assms in auto)

lemma grown_tree_reached: "(bt_step (\<lambda>xs. xs) (Some 2))\<^sup>*\<^sup>* (sample_tree 1) (grown_tree 1)"
proof -
  let ?step = "bt_step (\<lambda>xs. xs) (Some 2)"
  define t1 where "t1 = snd (insert_block tree_b1 (sample_tree 1))"
  define t2 where "t2 = snd (insert_block tree_b2 t1)"
  define t3 where "t3 = snd (insert_block tree_fork t2)"
  define t4 where "t4 = snd (insert_quorum_cert (tree_qc 12 2) t3)"
  have s1: "?step (sample_tree 1) t1"
    unfolding t1_def by (rule insert_step [where pb = tree_root]) code_simp+
  have s2: "?step t1 t2"
    unfolding t2_def t1_def by (rule insert_step [where pb = tree_b1]) code_simp+
  have s3: "?step t2 t3"
    unfolding t3_def t2_def t1_def by (rule insert_step [where pb = tree_root]) code_simp+
  have "child_link t3 10 11" "child_link t3 11 12" unfolding t3_def t2_def t1_def by code_simp+
  then have "descends t3 10 12" by (meson converse_rtranclp_into_rtranclp rtranclp.rtrancl_refl)
  moreover have "bt_window_root_id t3 = 10" "bi_id (certified_block (tree_qc 12 2)) = 12"
    unfolding t3_def t2_def t1_def by code_simp+
  ultimately have s4: "?step t3 t4"
    unfolding t4_def by (intro bt_quorum_cert [OF _ prod.collapse [symmetric]]) simp
  have "child_link t4 10 11" "child_link t4 11 12" unfolding t4_def t3_def t2_def t1_def by code_simp+
  then have "descends t4 10 12" by (meson converse_rtranclp_into_rtranclp rtranclp.rtrancl_refl)
  moreover have "bt_commit_root_id t4 = 10" unfolding t4_def t3_def t2_def t1_def by code_simp
  ultimately have "?step t4 (snd (update_ordered_root 12 t4))"
    by (intro bt_ordered_root [OF _ prod.collapse [symmetric]]) simp
  then have "?step t4 (grown_tree 1)"
    by (simp add: grown_tree_def t4_def t3_def t2_def t1_def)
  with s1 s2 s3 s4 show ?thesis
    by (meson rtranclp.rtrancl_into_rtrancl rtranclp.rtrancl_refl)
qed

lemma grown_tree_facts:
  "good_tree (Some 2) (grown_tree 1)" "descends (grown_tree 1) 10 12" "descends (grown_tree 1) 10 11"
  "bt_window_root_id (grown_tree 1) = 10" "bt_commit_root_id (grown_tree 1) = 10"
  "bt_ordered_root_id (grown_tree 1) = 12" "bt_highest_certified_block_id (grown_tree 1) = 12"
  "bt_get_block (grown_tree 1) 12 = Some tree_b2"
proof -
  have g: "good_tree (Some 2) (sample_tree 1)"
  proof (rule bt_new_good)
    show "bt_new (blk_id tree_root) tree_root (tree_qc 10 0) (tree_wli 10 0) (tree_wli 10 0) 1 None =
        (Ok (sample_tree 1) :: (unit, _) res)"
      using sample_tree_new by (simp add: tree_block_def)
    show "Some 2 = None \<or> (\<exists>wsize. Some 2 = Some wsize \<and> 0 < wsize \<and>
        window_top (window_start (blk_round tree_root) wsize) tree_root)"
      by (simp add: window_top_def tree_block_def bd_is_genesis_block_def)
  qed code_simp+
  show "good_tree (Some 2) (grown_tree 1)" by (rule bt_steps_good [OF grown_tree_reached g]) simp
  have "child_link (grown_tree 1) 10 11" "child_link (grown_tree 1) 11 12" by code_simp+
  then show "descends (grown_tree 1) 10 12" "descends (grown_tree 1) 10 11"
    by (meson converse_rtranclp_into_rtranclp rtranclp.rtrancl_refl)+
qed code_simp+

lemma tree_b2_round: "unat (blk_round tree_b2) + 1 < 2 ^ 64"
  by (simp add: blk_round_def tree_block_def)

section \<open>Properties\<close>





text \<open>
  C16. Pruning finds exactly the dead blocks: for a new root below the root of the window the search ends and
  returns, without repetitions and whatever the order of the children, the blocks that do not descend from
  the new root.
\<close>

theorem find_blocks_to_prune_exact:
  assumes "good_tree ws t" "descends t (bt_window_root_id t) n" "\<And>xs. mset (ord xs) = mset xs"
  shows "\<exists>xs. find_blocks_to_prune ord t n = Some (Ok xs) \<and> distinct xs \<and>
    set xs = {x. descends t (bt_window_root_id t) x \<and> \<not> descends t n x}"
proof -
  have inv: "tree_inv t" using assms(1) by (simp add: good_tree_def)
  from find_blocks_to_prune_Ok [OF tree_invD(1) [OF inv] roots_exist(1) [OF inv] assms(2,3)]
  show ?thesis by blast
qed

theorem find_blocks_to_prune_exact_witness:
  "descends (grown_tree 1) (bt_window_root_id (grown_tree 1)) 11 \<and>
   (\<exists>xs. find_blocks_to_prune (\<lambda>xs. xs) (grown_tree 1) 11 = Some (Ok xs) \<and> distinct xs)"
  using find_blocks_to_prune_exact [OF grown_tree_facts(1), of 11 "\<lambda>xs. xs"] grown_tree_facts(3,4) by auto

text \<open>
  The walk to the committed root ends: for a block of the active tree \<^verbatim>\<open>path_from_commit_root\<close> returns, with a
  path exactly when the block descends from the committed root; the path leads from a child of that root
  to the block, each block the parent of the next.
\<close>

theorem path_from_commit_root_ends:
  assumes "good_tree ws t" "descends t (bt_window_root_id t) i"
  shows "\<exists>r. path_from_commit_root t i = Some (Ok r :: (unit, _) res) \<and>
    (r \<noteq> None \<longleftrightarrow> descends t (bt_commit_root_id t) i) \<and>
    (\<forall>path. r = Some path \<longrightarrow>
       linked (bt_commit_root_id t) path \<and> last (bt_commit_root_id t # map blk_id path) = i)"
proof -
  have inv: "tree_inv t" using assms(1) by (simp add: good_tree_def)
  note links = tree_invD(1) [OF inv]
  have d: "descends t (bt_window_root_id t) (bt_commit_root_id t)"
    using tree_invD(3) [OF inv] by (simp add: roots_ok_def)
  obtain wb cb where b: "bt_get_block t (bt_window_root_id t) = Some wb"
    "bt_get_block t (bt_commit_root_id t) = Some cb"
    using roots_exist(1,2) [OF inv] by (auto simp: block_exists_iff)
  have "blk_round wb \<le> blk_round cb" using descends_round [OF d links b] b by auto
  from path_loop_ancestor [OF links assms(2) b(1) this, of "[]"] obtain j path where
    p: "path_loop t (blk_round cb) i [] = Some (Some (j, rev path))" "descends t j i"
    "linked j path" "last (j # map blk_id path) = i" by auto
  have run: "path_from_commit_root t i =
      Some (Ok (if j \<noteq> bt_commit_root_id t then None else Some path) :: (unit, _) res)"
    by (simp add: path_from_commit_root_def commit_root_def b unwrap_def path_from_root_to_block_def p(1))
  have "j = bt_commit_root_id t" if "descends t (bt_commit_root_id t) i"
    using path_loop_ends [OF links that b(2), of "[]"] p(1) by auto
  with run p show ?thesis by (cases "j = bt_commit_root_id t") auto
qed

theorem path_from_commit_root_ends_witness:
  "descends (grown_tree 1) (bt_window_root_id (grown_tree 1)) 12 \<and>
   (\<exists>r. path_from_commit_root (grown_tree 1) 12 = Some (Ok r :: (unit, _) res) \<and> r \<noteq> None)"
  using path_from_commit_root_ends [OF grown_tree_facts(1), of 12] grown_tree_facts(2,4,5) by auto

text \<open>
  C17. The execution window is bounded: for a block below the committed root the window has fewer blocks than
  its size, they are ancestors of the block in ascending rounds, and all of them lie in the rounds that the
  window covers. The last round of the type is excluded, where the start of the window overflows.
\<close>

theorem ordered_window_bounded:
  assumes "good_tree (Some wsize) t" "descends t (bt_commit_root_id t) i" "bt_get_block t i = Some b"
    and "unat (blk_round b) + 1 < 2 ^ 64"
  shows "\<exists>window. get_ordered_block_window t b (Some wsize) = Some (Ok window) \<and>
    length window < unat wsize \<and> sorted_wrt (\<lambda>x y. blk_round x < blk_round y) (window @ [b]) \<and>
    (\<forall>w \<in> set window. descends t (blk_id w) i \<and> unat (blk_round b) + 1 \<le> unat (blk_round w) + unat wsize)"
proof -
  have inv: "tree_inv t" and win: "window_ok (Some wsize) t"
    using assms(1) by (simp_all add: good_tree_def)
  note links = tree_invD(1) [OF inv]
  obtain wb cb where c: "bt_get_block t (bt_window_root_id t) = Some wb"
    "bt_get_block t (bt_commit_root_id t) = Some cb"
    using roots_exist(1,2) [OF inv] by (auto simp: block_exists_iff)
  have pos: "0 < wsize" and top: "window_top (window_start (blk_round cb) wsize) wb"
    using win c by (auto simp: window_ok_def)
  have d: "descends t (bt_window_root_id t) i"
    using tree_invD(3) [OF inv] assms(2) by (auto simp: roots_ok_def)
  have le: "blk_round cb \<le> blk_round b"
    using descends_round [OF assms(2) links c(2) assms(3)] c(2) assms(3) by auto
  note top = window_top_mono [OF top window_start_mono [OF pos assms(4) le]]
  obtain window where w: "get_ordered_block_window t b (Some wsize) = Some (Ok (rev window))"
    "\<forall>w \<in> set window. window_start (blk_round b) wsize \<le> blk_round w \<and> descends t (blk_id w) i"
    "sorted_wrt (\<lambda>x y. blk_round y < blk_round x) (b # window)"
    using get_ordered_block_window_Ok [OF links d c(1) assms(3) pos assms(4) top c(2) le] by blast
  note s = window_start_facts [OF pos assms(4)]
  have "unat (blk_round b) + 1 \<le> unat (blk_round x) + unat wsize" if "x \<in> set window" for x
    using w(2) that s(3) by (auto simp: word_le_nat_alt)
  moreover have "length window \<le> unat (blk_round b) - unat (window_start (blk_round b) wsize)"
    using sorted_rounds_length [OF w(3)] w(2) by blast
  then have "length window < unat wsize" using s(3) pos by (simp add: word_less_nat_alt)
  moreover have "sorted_wrt (\<lambda>x y. blk_round x < blk_round y) (rev window @ [b])"
    using w(3) by (simp add: sorted_wrt_append sorted_wrt_rev)
  ultimately show ?thesis using w by (intro exI [of _ "rev window"]) auto
qed

theorem ordered_window_bounded_witness:
  "\<exists>window. get_ordered_block_window (grown_tree 1) tree_b2 (Some 2) = Some (Ok window) \<and> length window < 2"
proof -
  have "descends (grown_tree 1) (bt_commit_root_id (grown_tree 1)) 12" using grown_tree_facts(2,5) by simp
  from ordered_window_bounded [OF grown_tree_facts(1) this grown_tree_facts(8) tree_b2_round]
  show ?thesis by (elim exE conjE) auto
qed

text \<open>
  The index by rounds forgets a block that is in the tree. Two blocks of one round are both kept, the
  index names the first; when the other one is evicted \<^verbatim>\<open>remove_block\<close> drops the entry of the round
  without looking at the id. Here the commit of a block evicts a fork of the same round, and the
  committed root is no longer found by its round.
\<close>

theorem evicted_fork_hides_block:
  "get_block_for_round (grown_tree 0) 2 = Some tree_b2 \<and> blk_round tree_b2 = 2 \<and>
   (case commit_callback (\<lambda>xs. xs) 12 (tree_wli 12 2) (qc_signed_ledger_info (tree_qc 12 2)) (Some 2) (grown_tree 0) of
      Some (Ok (), t) \<Rightarrow> commit_root t = (Ok tree_b2 :: (unit, _) res) \<and> get_block_for_round t 2 = None
    | _ \<Rightarrow> False)"
  by code_simp

text \<open>
  A leader that equivocates leaks memory: of two buffered blocks of one round only the second is in the
  index by rounds, which is all that garbage collection looks at, so the first stays in the buffer
  whatever rounds are collected later.
\<close>

theorem equivocation_leaks_pending_block:
  assumes "blk_round b1 = blk_round b2" "blk_id b1 \<noteq> blk_id b2"
    and "\<forall>r b. map_of (pb_blocks_by_round pb) r = Some b \<longrightarrow> blk_id b \<noteq> blk_id b1"
  shows "map_of (pb_blocks_by_hash
    (foldl (\<lambda>pb r. pb_gc r pb) (snd (pb_insert_block b2 (snd (pb_insert_block b1 pb)))) rounds)) (blk_id b1)
      = Some b1"
proof -
  have "unindexed (blk_id b1) b1 (snd (pb_insert_block b2 (snd (pb_insert_block b1 pb))))"
    using assms by (auto simp: unindexed_def pb_insert_block_maps)
  then have "unindexed (blk_id b1) b1
      (foldl (\<lambda>pb r. pb_gc r pb) (snd (pb_insert_block b2 (snd (pb_insert_block b1 pb)))) rounds)"
    by (induction rounds rule: rev_induct) (auto intro: unindexed_gc)
  then show ?thesis by (simp add: unindexed_def)
qed

theorem equivocation_leaks_pending_block_witness:
  "blk_round tree_b2 = blk_round tree_fork \<and> blk_id tree_b2 \<noteq> blk_id tree_fork \<and>
   map_of (pb_blocks_by_hash (foldl (\<lambda>pb r. pb_gc r pb)
     (snd (pb_insert_block tree_fork (snd (pb_insert_block tree_b2 (pb_new :: unit pending_blocks))))) [2, 5]))
     (blk_id tree_b2) = Some tree_b2"
proof -
  have "blk_round tree_b2 = blk_round tree_fork" "blk_id tree_b2 \<noteq> blk_id tree_fork" by code_simp+
  with equivocation_leaks_pending_block [of tree_b2 tree_fork "pb_new :: unit pending_blocks" "[2, 5]"]
  show ?thesis by (simp add: pb_new_def)
qed

end
