(* ===== verification/Round_State.thy ===== *)
theory Round_State
  imports Pending_Votes
begin

text \<open>
  The pacemaker of \<^verbatim>\<open>consensus/src/liveness/round_state.rs\<close>: the current round, its deadline and the votes
  collected for it. A \<^verbatim>\<open>Duration\<close> is its number of nanoseconds. The clock is an argument of the methods
  that read it. Of the timeout task that the time service runs, the state keeps the delay and the round
  it sends; replacing the handle aborts the earlier task. The interval of a round is a trait object, here a
  function; for the exponential one the floating-point power, whose precision the standard library
  leaves open, is a parameter.
\<close>

section \<open>Model\<close>

type_synonym duration = nat

definition DURATION_MAX :: nat where
  "DURATION_MAX = 2 ^ 64 * 10 ^ 9 - 1"

definition duration_mul :: "duration \<Rightarrow> nat \<Rightarrow> ('e, duration) res" where
  "duration_mul d k = (if d * k \<le> DURATION_MAX then Ok (d * k) else Panic)"

definition duration_add :: "duration \<Rightarrow> duration \<Rightarrow> ('e, duration) res" where
  "duration_add d d' = (if d + d' \<le> DURATION_MAX then Ok (d + d') else Panic)"

definition from_millis :: "u64 \<Rightarrow> duration" where
  "from_millis ms = unat ms * 10 ^ 6"

definition as_millis :: "duration \<Rightarrow> nat" where
  "as_millis d = d div 10 ^ 6"

text \<open>
  \<open>multiplier_fits base pow\<close> is \<^verbatim>\<open>base.powf(pow).ceil() < f64::from(u32::MAX)\<close>, and \<open>scaled_ceil ms base pow\<close> is
  \<^verbatim>\<open>((ms as f64) * base.powf(pow)).ceil() as u64\<close>.
\<close>

record 'f float_ops =
  multiplier_fits :: "'f \<Rightarrow> nat \<Rightarrow> bool"
  scaled_ceil :: "u64 \<Rightarrow> 'f \<Rightarrow> nat \<Rightarrow> u64"

record 'f exponential_time_interval =
  eti_base_ms :: u64
  eti_exponent_base :: 'f
  eti_max_exponent :: nat

definition eti_new ::
    "'f float_ops \<Rightarrow> duration \<Rightarrow> 'f \<Rightarrow> nat \<Rightarrow> ('e, 'f exponential_time_interval) res" where
  "eti_new F base exponent_base max_exponent =
     bind (assert (max_exponent < 32)) (\<lambda>_.
     bind (assert (multiplier_fits F exponent_base max_exponent)) (\<lambda>_.
       Ok \<lparr>eti_base_ms = of_nat (as_millis base), eti_exponent_base = exponent_base,
           eti_max_exponent = max_exponent\<rparr>))"

definition get_round_duration :: "'f float_ops \<Rightarrow> 'f exponential_time_interval \<Rightarrow> nat \<Rightarrow> duration" where
  "get_round_duration F eti round_index_after_ordered_qc =
     from_millis (scaled_ceil F (eti_base_ms eti) (eti_exponent_base eti)
       (min round_index_after_ordered_qc (eti_max_exponent eti)))"

datatype new_round_reason = QCReady | TimeoutReason round_timeout_reason

record new_round_event =
  nre_round :: round
  nre_reason :: new_round_reason
  nre_timeout :: duration
  nre_prev_round_votes :: "(hash_value \<times> vote_status) list"
  nre_prev_round_timeout_votes :: "two_chain_timeout_with_partial_signatures option"

record round_state =
  rs_time_interval :: "nat \<Rightarrow> duration"
  rs_highest_ordered_round :: round
  rs_current_round :: round
  rs_current_round_deadline :: duration
  rs_pending_votes :: pending_votes
  rs_vote_sent :: "vote option"
  rs_timeout_sent :: "round_timeout option"
  rs_abort_handle :: "(duration \<times> round) option"

definition rs_new :: "(nat \<Rightarrow> duration) \<Rightarrow> duration \<Rightarrow> round_state" where
  "rs_new time_interval now =
     \<lparr>rs_time_interval = time_interval, rs_highest_ordered_round = 0, rs_current_round = 0,
      rs_current_round_deadline = now, rs_pending_votes = pv_new, rs_vote_sent = None,
      rs_timeout_sent = None, rs_abort_handle = None\<rparr>"

definition is_timeout_sent :: "round_state \<Rightarrow> bool" where
  "is_timeout_sent rs \<longleftrightarrow>
     (case rs_vote_sent rs of Some v \<Rightarrow> vote_is_timeout v | None \<Rightarrow> False) \<or> rs_timeout_sent rs \<noteq> None"

definition round_index_after_ordered_round :: "round_state \<Rightarrow> ('e, nat) res" where
  "round_index_after_ordered_round rs =
     bind (if rs_highest_ordered_round rs = 0 then unwrap (checked_sub (rs_current_round rs) 1)
           else bind (unwrap (checked_add (rs_highest_ordered_round rs) 3)) (\<lambda>bound.
             if rs_current_round rs < bound then Ok 0
             else bind (unwrap (checked_sub (rs_current_round rs) (rs_highest_ordered_round rs))) (\<lambda>d.
               unwrap (checked_sub d 3))))
       (\<lambda>index. Ok (unat index))"

definition setup_deadline :: "duration \<Rightarrow> nat \<Rightarrow> (round_state, unit, duration) method_res" where
  "setup_deadline now multiplier =
     m_bind (m_read round_index_after_ordered_round) (\<lambda>index.
     m_bind (m_read (\<lambda>rs. duration_mul (rs_time_interval rs index) multiplier)) (\<lambda>timeout.
     m_bind (m_lift (duration_add now timeout)) (\<lambda>deadline.
     m_bind (m_modify (\<lambda>rs. rs\<lparr>rs_current_round_deadline := deadline\<rparr>)) (\<lambda>_.
       m_return timeout))))"

definition setup_timeout :: "duration \<Rightarrow> nat \<Rightarrow> (round_state, unit, duration) method_res" where
  "setup_timeout now multiplier =
     m_bind (setup_deadline now multiplier) (\<lambda>timeout.
     m_bind (m_modify (\<lambda>rs. rs\<lparr>rs_abort_handle := Some (timeout, rs_current_round rs)\<rparr>)) (\<lambda>_.
       m_return timeout))"

definition process_local_timeout :: "duration \<Rightarrow> round \<Rightarrow> (round_state, unit, bool) method_res" where
  "process_local_timeout now r rs =
     (if r \<noteq> rs_current_round rs then (Ok False, rs)
      else m_bind (setup_timeout now 1) (\<lambda>_. m_return True) rs)"

text \<open>The part of \<^verbatim>\<open>process_certificates\<close> that starts a new round.\<close>

definition start_round ::
    "reason_order \<Rightarrow> duration \<Rightarrow> validator_verifier \<Rightarrow> sync_info \<Rightarrow> round
       \<Rightarrow> (round_state, unit, new_round_event) method_res" where
  "start_round order now vv si new_round rs =
     (let (prev_round_votes, prev_round_timeout_votes) = fst (drain_votes (rs_pending_votes rs));
          rs = rs\<lparr>rs_current_round := new_round, rs_pending_votes := pv_new, rs_vote_sent := None,
                  rs_timeout_sent := None\<rparr>
      in m_bind (setup_timeout now 1) (\<lambda>timeout.
         m_bind (m_lift (case prev_round_timeout_votes of
                   None \<Rightarrow> Ok None
                 | Some votes \<Rightarrow> bind (unpack_aggregate order vv votes) (\<lambda>u. Ok (Some u)))) (\<lambda>unpacked.
         m_bind (m_lift (unwrap (checked_add (highest_certified_round si) 1))) (\<lambda>after_qc.
           m_return
             \<lparr>nre_round = new_round,
              nre_reason = (if after_qc = new_round then QCReady
                            else TimeoutReason (case unpacked of Some (_, reason) \<Rightarrow> reason | None \<Rightarrow> Unknown)),
              nre_timeout = timeout,
              nre_prev_round_votes = prev_round_votes,
              nre_prev_round_timeout_votes = map_option fst unpacked\<rparr>))) rs)"

definition process_certificates ::
    "reason_order \<Rightarrow> duration \<Rightarrow> validator_verifier \<Rightarrow> sync_info
       \<Rightarrow> (round_state, unit, new_round_event option) method_res" where
  "process_certificates order now vv si rs =
     (let rs = (if highest_ordered_round si > rs_highest_ordered_round rs
                then rs\<lparr>rs_highest_ordered_round := highest_ordered_round si\<rparr> else rs)
      in m_bind (m_lift (unwrap (checked_add (highest_round si) 1))) (\<lambda>new_round rs.
           if new_round > rs_current_round rs
           then m_bind (start_round order now vv si new_round) (\<lambda>event. m_return (Some event)) rs
           else (Ok None, rs)) rs)"

definition rs_insert_vote ::
    "consensus_env \<Rightarrow> (ledger_info \<Rightarrow> hash_value) \<Rightarrow> validator_verifier \<Rightarrow> vote
       \<Rightarrow> (round_state \<times> verify_mode, unit, vote_reception_result) method_res" where
  "rs_insert_vote E LH vv v st =
     (let (rs, mode) = st; r = bi_round (proposed (vote_vote_data v))
      in if r = rs_current_round rs
         then (let (result, (pv, mode)) = pv_insert_vote E LH vv v (rs_pending_votes rs, mode)
               in (result, (rs\<lparr>rs_pending_votes := pv\<rparr>, mode)))
         else (Ok (UnexpectedRound r (rs_current_round rs)), st))"

definition rs_insert_round_timeout ::
    "consensus_env \<Rightarrow> validator_verifier \<Rightarrow> round_timeout
       \<Rightarrow> (round_state, unit, vote_reception_result) method_res" where
  "rs_insert_round_timeout E vv t rs =
     (let r = to_round (rt_timeout t)
      in if r = rs_current_round rs
         then (let (result, pv) = pv_insert_round_timeout E vv t (rs_pending_votes rs)
               in (result, rs\<lparr>rs_pending_votes := pv\<rparr>))
         else (Ok (UnexpectedRound r (rs_current_round rs)), rs))"

definition record_vote :: "vote \<Rightarrow> round_state \<Rightarrow> round_state" where
  "record_vote v rs =
     (if bi_round (proposed (vote_vote_data v)) = rs_current_round rs then rs\<lparr>rs_vote_sent := Some v\<rparr> else rs)"

definition record_round_timeout :: "round_timeout \<Rightarrow> round_state \<Rightarrow> round_state" where
  "record_round_timeout t rs =
     (if to_round (rt_timeout t) = rs_current_round rs then rs\<lparr>rs_timeout_sent := Some t\<rparr> else rs)"

section \<open>Deadlines\<close>

lemma round_index_Ok:
  assumes "rs_current_round rs \<noteq> 0" "unat (rs_highest_ordered_round rs) + 3 < 2 ^ 64"
  shows "round_index_after_ordered_round rs = (Ok (unat (rs_current_round rs) -
    (if rs_highest_ordered_round rs = 0 then 1 else unat (rs_highest_ordered_round rs) + 3)) :: ('e, nat) res)"
proof (cases "rs_highest_ordered_round rs = 0")
  case True
  have "1 \<le> rs_current_round rs" using assms(1) by (simp add: word_le_nat_alt unat_gt_0 Suc_le_eq)
  then show ?thesis
    using True by (simp add: round_index_after_ordered_round_def checked_sub_def unwrap_def unat_sub)
next
  case False
  let ?c = "rs_current_round rs" and ?o = "rs_highest_ordered_round rs"
  have o3: "unat (?o + 3) = unat ?o + 3" using assms(2) by (simp add: unat_add_lem [THEN iffD1])
  have add: "checked_add ?o 3 = Some (?o + 3)" using assms(2) by (simp add: checked_add_def)
  show ?thesis
  proof (cases "?c < ?o + 3")
    case True
    then have "unat ?c < unat ?o + 3" by (simp add: word_less_nat_alt o3)
    with True False add show ?thesis by (simp add: round_index_after_ordered_round_def unwrap_def)
  next
    case ge: False
    then have le: "unat ?o + 3 \<le> unat ?c" by (simp add: word_less_nat_alt o3 not_less)
    then have oc: "?o \<le> ?c" by (simp add: word_le_nat_alt)
    then have d: "unat (?c - ?o) = unat ?c - unat ?o" by (rule unat_sub)
    then have "3 \<le> ?c - ?o" using le by (simp add: word_le_nat_alt)
    with False ge add oc d show ?thesis
      by (simp add: round_index_after_ordered_round_def unwrap_def checked_sub_def unat_sub)
  qed
qed

lemma setup_timeout_cases:
  assumes "setup_timeout now k rs = (r, rs')"
  obtains (Ok) index where "round_index_after_ordered_round rs = (Ok index :: (unit, _) res)"
      "r = Ok (rs_time_interval rs index * k)" "now + rs_time_interval rs index * k \<le> DURATION_MAX"
      "rs' = rs\<lparr>rs_current_round_deadline := now + rs_time_interval rs index * k,
         rs_abort_handle := Some (rs_time_interval rs index * k, rs_current_round rs)\<rparr>"
  | (Panic) "r = Panic" "rs' = rs"
proof (cases "round_index_after_ordered_round rs :: (unit, nat) res")
  case (Ok index)
  with assms that show ?thesis
    by (cases "now + rs_time_interval rs index * k \<le> DURATION_MAX")
      (auto simp: setup_timeout_def setup_deadline_def m_bind_def m_read_def m_lift_def m_modify_def
        m_return_def duration_mul_def duration_add_def split: if_splits)
next
  case (Err e)
  have "round_index_after_ordered_round rs \<noteq> (Err e :: (unit, nat) res)"
    by (auto simp: round_index_after_ordered_round_def unwrap_def bind_def split: option.splits if_splits)
  with Err show ?thesis by simp
next
  case Panic
  with assms that(2) show ?thesis
    by (auto simp: setup_timeout_def setup_deadline_def m_bind_def m_read_def)
qed

lemma setup_timeout_total:
  assumes "rs_current_round rs \<noteq> 0" "unat (rs_highest_ordered_round rs) + 3 < 2 ^ 64"
    and "\<And>index. now + rs_time_interval rs index \<le> DURATION_MAX"
  shows "\<exists>timeout rs'. setup_timeout now 1 rs = (Ok timeout, rs')"
proof -
  let ?index = "unat (rs_current_round rs) -
    (if rs_highest_ordered_round rs = 0 then 1 else unat (rs_highest_ordered_round rs) + 3)"
  have "now + rs_time_interval rs ?index \<le> DURATION_MAX" by (rule assms(3))
  then show ?thesis
    by (simp add: setup_timeout_def setup_deadline_def m_bind_def m_read_def m_lift_def m_modify_def
        m_return_def duration_mul_def duration_add_def round_index_Ok [OF assms(1,2), where ?'e = unit])
qed

section \<open>Starting a round\<close>

definition fresh_round :: "round \<Rightarrow> round_state \<Rightarrow> round_state" where
  "fresh_round r rs = rs\<lparr>rs_current_round := r, rs_pending_votes := pv_new, rs_vote_sent := None,
     rs_timeout_sent := None\<rparr>"

definition with_ordered :: "sync_info \<Rightarrow> round_state \<Rightarrow> round_state" where
  "with_ordered si rs = (if highest_ordered_round si > rs_highest_ordered_round rs
     then rs\<lparr>rs_highest_ordered_round := highest_ordered_round si\<rparr> else rs)"

lemma fresh_round_simps [simp]:
  "rs_current_round (fresh_round r rs) = r" "rs_pending_votes (fresh_round r rs) = pv_new"
  "rs_vote_sent (fresh_round r rs) = None" "rs_timeout_sent (fresh_round r rs) = None"
  "rs_time_interval (fresh_round r rs) = rs_time_interval rs"
  "rs_highest_ordered_round (fresh_round r rs) = rs_highest_ordered_round rs"
  by (simp_all add: fresh_round_def)

lemma with_ordered_simps [simp]:
  "rs_current_round (with_ordered si rs) = rs_current_round rs"
  "rs_pending_votes (with_ordered si rs) = rs_pending_votes rs"
  "rs_vote_sent (with_ordered si rs) = rs_vote_sent rs"
  "rs_timeout_sent (with_ordered si rs) = rs_timeout_sent rs"
  "rs_abort_handle (with_ordered si rs) = rs_abort_handle rs"
  "rs_time_interval (with_ordered si rs) = rs_time_interval rs"
  "rs_highest_ordered_round (with_ordered si rs) = max (rs_highest_ordered_round rs) (highest_ordered_round si)"
  by (simp_all add: with_ordered_def)

text \<open>What \<^verbatim>\<open>process_certificates\<close> does when it returns.\<close>

lemma process_certificates_Ok:
  assumes "process_certificates order now vv si rs = (Ok result, rs')"
  obtains (old) "result = None" "rs' = with_ordered si rs" "highest_round si < rs_current_round rs"
  | (started) event where "result = Some event" "setup_timeout now 1 (fresh_round (highest_round si + 1)
        (with_ordered si rs)) = (Ok (nre_timeout event), rs')"
      "rs_current_round rs < highest_round si + 1" "unat (highest_round si + 1) = unat (highest_round si) + 1"
      "nre_round event = highest_round si + 1"
      "nre_reason event = QCReady \<longleftrightarrow> highest_timeout_round si \<le> highest_certified_round si"
      "nre_prev_round_votes event = fst (fst (drain_votes (rs_pending_votes rs)))"
proof -
  let ?new = "highest_round si + 1" and ?rs = "with_ordered si rs"
  have new: "checked_add (highest_round si) 1 = Some ?new"
    using assms by (cases "checked_add (highest_round si) 1")
      (auto simp: process_certificates_def Let_def m_bind_def m_lift_def unwrap_def checked_add_Some)
  then have u: "unat ?new = unat (highest_round si) + 1" by (auto dest: unat_checked_add)
  have run: "(if ?new > rs_current_round rs
      then m_bind (start_round order now vv si ?new) (\<lambda>event. m_return (Some event)) ?rs
      else (Ok None, ?rs)) = (Ok result, rs')"
    using assms new
    by (simp add: process_certificates_def with_ordered_def [symmetric] Let_def m_bind_def [of "m_lift _"]
        m_lift_def unwrap_def)
  show ?thesis
  proof (cases "?new > rs_current_round rs")
    case False
    then have "highest_round si < rs_current_round rs" using u by (simp add: word_less_nat_alt)
    with False run old show ?thesis by simp
  next
    case True
    with run obtain event where e: "result = Some event"
      and st: "start_round order now vv si ?new ?rs = (Ok event, rs')"
      by (auto simp: m_bind_Ok m_return_def)
    obtain votes tv where d: "fst (drain_votes (rs_pending_votes rs)) = (votes, tv)" by fastforce
    from st obtain timeout unpacked after_qc where
      t: "setup_timeout now 1 (fresh_round ?new ?rs) = (Ok timeout, rs')"
      and q: "checked_add (highest_certified_round si) 1 = Some after_qc"
      and ev: "event = \<lparr>nre_round = ?new, nre_reason = (if after_qc = ?new then QCReady
              else TimeoutReason (case unpacked of Some (_, reason) \<Rightarrow> reason | None \<Rightarrow> Unknown)),
           nre_timeout = timeout, nre_prev_round_votes = votes,
           nre_prev_round_timeout_votes = map_option fst unpacked\<rparr>"
      by (auto simp: start_round_def d Let_def m_bind_Ok m_lift_def m_return_def fresh_round_def unwrap_iffs)
    have "unat after_qc = unat (highest_certified_round si) + 1" using q by (auto dest: unat_checked_add)
    then have "after_qc = ?new \<longleftrightarrow> highest_certified_round si = highest_round si"
      using u by (metis add_right_cancel unsigned_word_eqI)
    also have "\<dots> \<longleftrightarrow> highest_timeout_round si \<le> highest_certified_round si"
      by (auto simp: highest_round_def max_def)
    finally show ?thesis using started [OF e _ True u] t ev d by simp
  qed
qed

lemma process_certificates_interval:
  assumes "process_certificates order now vv si rs = (Ok result, rs')"
  shows "rs_time_interval rs' = rs_time_interval rs"
  using assms
proof (cases rule: process_certificates_Ok)
  case (started event)
  from started(2) show ?thesis by (cases rule: setup_timeout_cases) simp_all
qed simp

section \<open>Runs\<close>

text \<open>
  A run of the round state: certificates, votes and timeouts of others that have passed their
  verification, local timeouts, and the votes and timeouts sent. A step has an output.
\<close>

datatype rs_output = NewRound new_round_event | Reception vote_reception_result | Silent

inductive rs_step ::
    "consensus_env \<Rightarrow> (ledger_info \<Rightarrow> hash_value) \<Rightarrow> ledger_info set \<Rightarrow> validator_verifier \<Rightarrow> reason_order
       \<Rightarrow> round_state \<times> verify_mode \<Rightarrow> rs_output \<Rightarrow> round_state \<times> verify_mode \<Rightarrow> bool"
  for E LH L vv order
where
  rs_new_round: "process_certificates order now vv si rs = (Ok (Some event), rs') \<Longrightarrow>
     rs_step E LH L vv order (rs, mode) (NewRound event) (rs', mode)"
| rs_same_round: "process_certificates order now vv si rs = (Ok None, rs') \<Longrightarrow>
     rs_step E LH L vv order (rs, mode) Silent (rs', mode)"
| rs_vote: "vote_verify E vv md v0 = Ok v \<Longrightarrow> \<not> sws_verified (vote_signature v0) \<Longrightarrow>
     vote_ledger_info v \<in> L \<Longrightarrow> rs_insert_vote E LH vv v st = (Ok result, st') \<Longrightarrow>
     rs_step E LH L vv order st (Reception result) st'"
| rs_timeout: "round_timeout_verify E vv t = Ok () \<Longrightarrow>
     rs_insert_round_timeout E vv t rs = (Ok result, rs') \<Longrightarrow>
     rs_step E LH L vv order (rs, mode) (Reception result) (rs', mode)"
| rs_local_timeout: "process_local_timeout now r rs = (Ok b, rs') \<Longrightarrow>
     rs_step E LH L vv order (rs, mode) Silent (rs', mode)"
| rs_record_vote: "rs_step E LH L vv order (rs, mode) Silent (record_vote v rs, mode)"
| rs_record_timeout: "rs_step E LH L vv order (rs, mode) Silent (record_round_timeout t rs, mode)"

inductive rs_run ::
    "consensus_env \<Rightarrow> (ledger_info \<Rightarrow> hash_value) \<Rightarrow> ledger_info set \<Rightarrow> validator_verifier \<Rightarrow> reason_order
       \<Rightarrow> round_state \<times> verify_mode \<Rightarrow> rs_output list \<Rightarrow> round_state \<times> verify_mode \<Rightarrow> bool"
  for E LH L vv order
where
  run_none: "rs_run E LH L vv order st [] st"
| run_step: "rs_run E LH L vv order st outs st' \<Longrightarrow> rs_step E LH L vv order st' out st'' \<Longrightarrow>
     rs_run E LH L vv order st (outs @ [out]) st''"

text \<open>How a step changes the state: it starts a later round, or it stays and collects.\<close>

lemma rs_step_cases:
  assumes "rs_step E LH L vv order (rs, mode) out (rs', mode')"
  obtains (later) event where "out = NewRound event" "rs_current_round rs < nre_round event"
      "rs_current_round rs' = nre_round event" "rs_pending_votes rs' = pv_new" "mode' = mode"
      "rs_vote_sent rs' = None" "rs_timeout_sent rs' = None"
      "rs_abort_handle rs' = Some (nre_timeout event, nre_round event)"
  | (voted) md v0 v result where "out = Reception result" "rs_current_round rs' = rs_current_round rs"
      "vote_verify E vv md v0 = Ok v" "\<not> sws_verified (vote_signature v0)" "vote_ledger_info v \<in> L"
      "bi_round (proposed (vote_vote_data v)) = rs_current_round rs"
      "pv_insert_vote E LH vv v (rs_pending_votes rs, mode) = (Ok result, (rs_pending_votes rs', mode'))"
      "rs' = rs\<lparr>rs_pending_votes := rs_pending_votes rs'\<rparr>"
  | (timed_out) t result where "out = Reception result" "rs_current_round rs' = rs_current_round rs"
      "round_timeout_verify E vv t = Ok ()" "mode' = mode"
      "pv_insert_round_timeout E vv t (rs_pending_votes rs) = (Ok result, rs_pending_votes rs')"
      "rs' = rs\<lparr>rs_pending_votes := rs_pending_votes rs'\<rparr>"
  | (quiet) "out = Silent \<or> (\<exists>a b. out = Reception (UnexpectedRound a b))"
      "rs_current_round rs' = rs_current_round rs" "rs_pending_votes rs' = rs_pending_votes rs" "mode' = mode"
      "rs_abort_handle rs' = rs_abort_handle rs \<or> (\<exists>d. rs_abort_handle rs' = Some (d, rs_current_round rs))"
      "rs_current_round rs = 0 \<and> rs_highest_ordered_round rs = 0 \<longrightarrow>
         rs_abort_handle rs' = rs_abort_handle rs \<and> rs_highest_ordered_round rs' = 0"
      "\<forall>v. rs_vote_sent rs' = Some v \<longrightarrow> rs_vote_sent rs = Some v \<or>
         bi_round (proposed (vote_vote_data v)) = rs_current_round rs"
      "\<forall>t. rs_timeout_sent rs' = Some t \<longrightarrow> rs_timeout_sent rs = Some t \<or>
         to_round (rt_timeout t) = rs_current_round rs"
  using assms
proof (cases rule: rs_step.cases)
  case (rs_new_round now si event)
  from rs_new_round(3) show ?thesis
  proof (cases rule: process_certificates_Ok)
    case (started ev)
    from started(2) show ?thesis
    proof (cases rule: setup_timeout_cases)
      case (Ok index)
      show ?thesis by (rule later [of event]) (use Ok started rs_new_round in simp_all)
    qed simp
  qed simp
next
  case (rs_same_round now si)
  from rs_same_round(3) show ?thesis
  proof (cases rule: process_certificates_Ok)
    case old
    then have "rs_current_round rs \<noteq> 0" by auto
    show ?thesis by (rule quiet) (use old rs_same_round \<open>rs_current_round rs \<noteq> 0\<close> in simp_all)
  qed simp
next
  case (rs_vote md v0 v result)
  show ?thesis
  proof (cases "bi_round (proposed (vote_vote_data v)) = rs_current_round rs")
    case True
    obtain pv m where run: "pv_insert_vote E LH vv v (rs_pending_votes rs, mode) = (Ok result, (pv, m))"
      "rs' = rs\<lparr>rs_pending_votes := pv\<rparr>" "mode' = m"
      using rs_vote(5) True by (auto simp: rs_insert_vote_def Let_def split: prod.splits)
    show ?thesis by (rule voted [of result md v0 v]) (use rs_vote run True in simp_all)
  next
    case False
    then have "rs' = rs" "mode' = mode"
      "out = Reception (UnexpectedRound (bi_round (proposed (vote_vote_data v))) (rs_current_round rs))"
      using rs_vote(1,5) by (auto simp: rs_insert_vote_def)
    then show ?thesis by (intro quiet) simp_all
  qed
next
  case (rs_timeout t result)
  show ?thesis
  proof (cases "to_round (rt_timeout t) = rs_current_round rs")
    case True
    obtain pv where run: "pv_insert_round_timeout E vv t (rs_pending_votes rs) = (Ok result, pv)"
      "rs' = rs\<lparr>rs_pending_votes := pv\<rparr>"
      using rs_timeout(4) True by (auto simp: rs_insert_round_timeout_def Let_def split: prod.splits)
    show ?thesis by (rule timed_out [of result t]) (use rs_timeout run True in simp_all)
  next
    case False
    then have "rs' = rs" "out = Reception (UnexpectedRound (to_round (rt_timeout t)) (rs_current_round rs))"
      using rs_timeout(1,4) by (auto simp: rs_insert_round_timeout_def)
    with rs_timeout(2) show ?thesis by (intro quiet) simp_all
  qed
next
  case (rs_local_timeout now r b)
  show ?thesis
  proof (cases "r = rs_current_round rs")
    case True
    with rs_local_timeout obtain timeout where "setup_timeout now 1 rs = (Ok timeout, rs')"
      by (auto simp: process_local_timeout_def m_bind_Ok m_return_def)
    then show ?thesis
    proof (cases rule: setup_timeout_cases)
      case (Ok index)
      have "\<not> (rs_current_round rs = 0 \<and> rs_highest_ordered_round rs = 0)"
        using Ok(1) by (auto simp: round_index_after_ordered_round_def checked_sub_def unwrap_def)
      with Ok rs_local_timeout show ?thesis by (intro quiet) auto
    qed simp
  next
    case False
    then have "rs' = rs" using rs_local_timeout(3) by (simp add: process_local_timeout_def)
    with rs_local_timeout show ?thesis by (intro quiet) simp_all
  qed
next
  case (rs_record_vote v)
  then show ?thesis by (intro quiet) (auto simp: record_vote_def)
next
  case (rs_record_timeout t)
  then show ?thesis by (intro quiet) (auto simp: record_round_timeout_def)
qed

definition rs_inv ::
    "consensus_env \<Rightarrow> (ledger_info \<Rightarrow> hash_value) \<Rightarrow> ledger_info set \<Rightarrow> validator_verifier
       \<Rightarrow> round_state \<times> verify_mode \<Rightarrow> bool" where
  "rs_inv E LH L vv st \<longleftrightarrow>
     (let rs = fst st
      in (\<exists>m. pv_steps E LH L vv (pv_new, m) (rs_pending_votes rs, snd st)) \<and>
         (\<forall>v. rs_vote_sent rs = Some v \<longrightarrow> bi_round (proposed (vote_vote_data v)) = rs_current_round rs) \<and>
         (\<forall>t. rs_timeout_sent rs = Some t \<longrightarrow> to_round (rt_timeout t) = rs_current_round rs) \<and>
         (\<forall>d r. rs_abort_handle rs = Some (d, r) \<longrightarrow> r = rs_current_round rs) \<and>
         (rs_current_round rs = 0 \<longrightarrow> rs_abort_handle rs = None \<and> rs_highest_ordered_round rs = 0))"

lemma rs_new_inv: "rs_inv E LH L vv (rs_new interval now, mode)"
  by (auto simp: rs_inv_def rs_new_def)

lemma rs_step_inv:
  assumes "rs_step E LH L vv order st out st'" "rs_inv E LH L vv st"
  shows "rs_inv E LH L vv st'"
proof -
  obtain rs mode rs' mode' where st: "st = (rs, mode)" "st' = (rs', mode')" by (metis surj_pair)
  from assms(2) st obtain m where pv: "pv_steps E LH L vv (pv_new, m) (rs_pending_votes rs, mode)"
    by (auto simp: rs_inv_def Let_def)
  from assms(1)[unfolded st] show ?thesis
  proof (cases rule: rs_step_cases)
    case (later event)
    then have "0 < nre_round event" by (metis word_gt_0 word_less_nat_alt not_less_zero unat_0)
    with later show ?thesis by (auto simp: st rs_inv_def)
  next
    case (voted md v0 v result)
    have "pv_step E LH L vv (rs_pending_votes rs, mode) (rs_pending_votes rs', mode')"
      using step_vote [OF voted(3-5), of LH "(rs_pending_votes rs, mode)"] voted(7) by simp
    with pv have "pv_steps E LH L vv (pv_new, m) (rs_pending_votes rs', mode')" by simp
    moreover have "rs_vote_sent rs' = rs_vote_sent rs" "rs_timeout_sent rs' = rs_timeout_sent rs"
      "rs_abort_handle rs' = rs_abort_handle rs" "rs_highest_ordered_round rs' = rs_highest_ordered_round rs"
      by (subst voted(8), simp)+
    ultimately show ?thesis using assms(2) voted(2) by (auto simp: st rs_inv_def Let_def)
  next
    case (timed_out t result)
    have "pv_step E LH L vv (rs_pending_votes rs, mode) (rs_pending_votes rs', mode')"
      using step_timeout [OF timed_out(3), of LH L "rs_pending_votes rs" mode] timed_out(4,5) by simp
    with pv have "pv_steps E LH L vv (pv_new, m) (rs_pending_votes rs', mode')" by simp
    moreover have "rs_vote_sent rs' = rs_vote_sent rs" "rs_timeout_sent rs' = rs_timeout_sent rs"
      "rs_abort_handle rs' = rs_abort_handle rs" "rs_highest_ordered_round rs' = rs_highest_ordered_round rs"
      by (subst timed_out(6), simp)+
    ultimately show ?thesis using assms(2) timed_out(2) by (auto simp: st rs_inv_def Let_def)
  next
    case quiet
    have "\<forall>d r. rs_abort_handle rs = Some (d, r) \<longrightarrow> r = rs_current_round rs"
      using assms(2) by (simp add: st rs_inv_def Let_def)
    then have "\<forall>d r. rs_abort_handle rs' = Some (d, r) \<longrightarrow> r = rs_current_round rs"
      using quiet(5) by (metis Pair_inject option.inject)
    moreover have "rs_current_round rs = 0 \<longrightarrow> rs_abort_handle rs' = None \<and> rs_highest_ordered_round rs' = 0"
      using quiet(6) assms(2) by (auto simp: st rs_inv_def Let_def)
    moreover have "pv_steps E LH L vv (pv_new, m) (rs_pending_votes rs', mode')"
      using pv quiet(3,4) by simp
    moreover have "\<forall>v. rs_vote_sent rs' = Some v \<longrightarrow> bi_round (proposed (vote_vote_data v)) = rs_current_round rs"
      "\<forall>t. rs_timeout_sent rs' = Some t \<longrightarrow> to_round (rt_timeout t) = rs_current_round rs"
      using quiet(7,8) assms(2) unfolding st rs_inv_def Let_def fst_conv by blast+
    ultimately show ?thesis unfolding st rs_inv_def Let_def fst_conv snd_conv quiet(2) by blast
  qed
qed

lemma rs_run_inv: "rs_run E LH L vv order st outs st' \<Longrightarrow> rs_inv E LH L vv st \<Longrightarrow> rs_inv E LH L vv st'"
  by (induction rule: rs_run.induct) (auto intro: rs_step_inv)

section \<open>One certificate per round\<close>

definition returned_certificates :: "rs_output list \<Rightarrow> quorum_cert set" where
  "returned_certificates outs = {qc. Reception (NewQuorumCertificate qc) \<in> set outs}"

text \<open>The certificates of the current round are held by the collector; the others are of earlier rounds.\<close>

definition certificates_ok :: "rs_output list \<Rightarrow> round_state \<Rightarrow> bool" where
  "certificates_ok outs rs \<longleftrightarrow>
     (\<forall>qc \<in> returned_certificates outs.
        bi_round (certified_block qc) \<le> rs_current_round rs \<and>
        (bi_round (certified_block qc) = rs_current_round rs \<longrightarrow>
           (\<exists>d. holds_certificate (rs_pending_votes rs) d (qc_signed_ledger_info qc))) \<and>
        (\<forall>qc' \<in> returned_certificates outs. bi_round (certified_block qc') = bi_round (certified_block qc) \<longrightarrow>
           qc_signed_ledger_info qc' = qc_signed_ledger_info qc))"

lemma returned_snoc:
  "returned_certificates (outs @ [out]) =
     returned_certificates outs \<union> {qc. out = Reception (NewQuorumCertificate qc)}"
  by (auto simp: returned_certificates_def)

lemma certificates_okI:
  assumes "\<And>qc. qc \<in> returned_certificates outs \<Longrightarrow> bi_round (certified_block qc) \<le> rs_current_round rs"
    and "\<And>qc. qc \<in> returned_certificates outs \<Longrightarrow> bi_round (certified_block qc) = rs_current_round rs \<Longrightarrow>
      \<exists>d. holds_certificate (rs_pending_votes rs) d (qc_signed_ledger_info qc)"
    and "\<And>qc qc'. qc \<in> returned_certificates outs \<Longrightarrow> qc' \<in> returned_certificates outs \<Longrightarrow>
      bi_round (certified_block qc') = bi_round (certified_block qc) \<Longrightarrow>
      qc_signed_ledger_info qc' = qc_signed_ledger_info qc"
  shows "certificates_ok outs rs"
  unfolding certificates_ok_def using assms by blast

lemma certificates_okD:
  assumes "certificates_ok outs rs" "qc \<in> returned_certificates outs"
  shows "bi_round (certified_block qc) \<le> rs_current_round rs"
    and "bi_round (certified_block qc) = rs_current_round rs \<Longrightarrow>
      \<exists>d. holds_certificate (rs_pending_votes rs) d (qc_signed_ledger_info qc)"
    and "qc' \<in> returned_certificates outs \<Longrightarrow> bi_round (certified_block qc') = bi_round (certified_block qc) \<Longrightarrow>
      qc_signed_ledger_info qc' = qc_signed_ledger_info qc"
  using assms unfolding certificates_ok_def by blast+

text \<open>Steps that return no certificate and lose none.\<close>

lemma certificates_ok_frame:
  assumes "certificates_ok outs rs" "\<And>qc. out \<noteq> Reception (NewQuorumCertificate qc)"
    and "rs_current_round rs' = rs_current_round rs"
    and "\<And>d l. holds_certificate (rs_pending_votes rs) d l \<Longrightarrow> holds_certificate (rs_pending_votes rs') d l"
  shows "certificates_ok (outs @ [out]) rs'"
proof (rule certificates_okI)
  have same: "returned_certificates (outs @ [out]) = returned_certificates outs"
    using assms(2) by (simp add: returned_snoc)
  fix qc
  assume "qc \<in> returned_certificates (outs @ [out])"
  then have qc: "qc \<in> returned_certificates outs" by (simp add: same)
  note ok = certificates_okD [OF assms(1) qc]
  show "bi_round (certified_block qc) \<le> rs_current_round rs'" using ok(1) assms(3) by simp
  show "\<exists>d. holds_certificate (rs_pending_votes rs') d (qc_signed_ledger_info qc)"
    if "bi_round (certified_block qc) = rs_current_round rs'"
    using ok(2) that assms(3,4) by auto
  show "qc_signed_ledger_info qc' = qc_signed_ledger_info qc"
    if "qc' \<in> returned_certificates (outs @ [out])"
      "bi_round (certified_block qc') = bi_round (certified_block qc)" for qc'
    using ok(3) that same by simp
qed

lemma certificates_ok_later:
  assumes "certificates_ok outs rs" "rs_current_round rs < rs_current_round rs'"
  shows "certificates_ok (outs @ [NewRound event]) rs'"
proof (rule certificates_okI)
  have same: "returned_certificates (outs @ [NewRound event]) = returned_certificates outs"
    by (simp add: returned_snoc)
  fix qc
  assume "qc \<in> returned_certificates (outs @ [NewRound event])"
  then have qc: "qc \<in> returned_certificates outs" by (simp add: same)
  note ok = certificates_okD [OF assms(1) qc]
  from ok(1) assms(2) have lt: "bi_round (certified_block qc) < rs_current_round rs'" by simp
  then show "bi_round (certified_block qc) \<le> rs_current_round rs'" by simp
  show "\<exists>d. holds_certificate (rs_pending_votes rs') d (qc_signed_ledger_info qc)"
    if "bi_round (certified_block qc) = rs_current_round rs'" using lt that by simp
  show "qc_signed_ledger_info qc' = qc_signed_ledger_info qc"
    if "qc' \<in> returned_certificates (outs @ [NewRound event])"
      "bi_round (certified_block qc') = bi_round (certified_block qc)" for qc'
    using ok(3) that same by simp
qed

lemma certificates_ok_new:
  assumes ok: "certificates_ok outs rs" and r: "rs_current_round rs' = rs_current_round rs"
    and keeps: "\<And>d l. holds_certificate (rs_pending_votes rs) d l \<Longrightarrow> holds_certificate (rs_pending_votes rs') d l"
    and unique: "\<And>d d' l l'. holds_certificate (rs_pending_votes rs') d l \<Longrightarrow>
      holds_certificate (rs_pending_votes rs') d' l' \<Longrightarrow> l = l'"
    and held: "holds_certificate (rs_pending_votes rs') d (qc_signed_ledger_info qc)"
    and qc: "bi_round (certified_block qc) = rs_current_round rs"
  shows "certificates_ok (outs @ [Reception (NewQuorumCertificate qc)]) rs'"
proof -
  let ?outs = "outs @ [Reception (NewQuorumCertificate qc)]"
  have mem: "x = qc \<or> x \<in> returned_certificates outs" if "x \<in> returned_certificates ?outs" for x
    using that by (auto simp: returned_snoc)
  have current: "\<exists>d. holds_certificate (rs_pending_votes rs') d (qc_signed_ledger_info x)"
    if "x \<in> returned_certificates ?outs" "bi_round (certified_block x) = rs_current_round rs'" for x
    using mem [OF that(1)] held certificates_okD(2) [OF ok, of x] that(2) r keeps by fastforce
  show ?thesis
  proof (rule certificates_okI)
    fix x assume x: "x \<in> returned_certificates ?outs"
    show "bi_round (certified_block x) \<le> rs_current_round rs'"
      using mem [OF x] qc certificates_okD(1) [OF ok, of x] r by auto
    show "\<exists>d. holds_certificate (rs_pending_votes rs') d (qc_signed_ledger_info x)"
      if "bi_round (certified_block x) = rs_current_round rs'" by (rule current [OF x that])
    show "qc_signed_ledger_info y = qc_signed_ledger_info x"
      if y: "y \<in> returned_certificates ?outs" "bi_round (certified_block y) = bi_round (certified_block x)" for y
    proof (cases "bi_round (certified_block x) = rs_current_round rs'")
      case True
      with current [OF x] current [OF y(1)] y(2) unique show ?thesis by metis
    next
      case False
      then have "x \<noteq> qc" "y \<noteq> qc" using qc r y(2) by auto
      then show ?thesis using mem [OF x] mem [OF y(1)] certificates_okD(3) [OF ok, of x y] y(2) by blast
    qed
  qed
qed

lemma round_timeout_result:
  assumes "pv_insert_round_timeout E vv t pv = (Ok result, pv')"
  shows "result \<noteq> NewQuorumCertificate qc"
proof -
  from assms obtain x where
    x: "add_timeout E vv (rt_author t) (rt_timeout t) (rt_signature t) (rt_reason t) pv = (Ok x, pv')"
    and r: "result = (case x of Inl result \<Rightarrow> result | Inr tc_voting_power \<Rightarrow> VoteAdded tc_voting_power)"
    by (auto simp: pv_insert_round_timeout_def m_bind_Ok m_return_def)
  have "x \<noteq> Inl (NewQuorumCertificate qc)" using add_timeout_frame(3) [OF x, of qc] by simp
  with r show ?thesis by (cases x) auto
qed

lemma certificates_ok_step:
  assumes wf: "wf_verifier vv" and pos: "0 < total_voting_power vv" and bls: "bls_completes E" and inj: "inj_on LH L"
    and inv: "rs_inv E LH L vv st" and step: "rs_step E LH L vv order st out st'"
    and ok: "certificates_ok outs (fst st)"
  shows "certificates_ok (outs @ [out]) (fst st')"
proof -
  obtain rs mode rs' mode' where st: "st = (rs, mode)" "st' = (rs', mode')" by (metis surj_pair)
  have ok: "certificates_ok outs rs" using ok st by simp
  from inv st obtain m where pv: "pv_steps E LH L vv (pv_new, m) (rs_pending_votes rs, mode)"
    by (auto simp: rs_inv_def Let_def)
  from step[unfolded st] have "certificates_ok (outs @ [out]) rs'"
  proof (cases rule: rs_step_cases)
    case (later event)
    then show ?thesis using certificates_ok_later [OF ok] by simp
  next
    case (voted md v0 v result)
    have v: "valid_vote E vv v" by (rule valid_voteI [OF wf voted(3,4)])
    then have mem: "vote_author v \<in> members vv" by (simp add: valid_vote_def)
    note keeps = insert_vote_keeps [OF wf mem voted(7)]
    show ?thesis
    proof (cases "\<exists>qc. result = NewQuorumCertificate qc")
      case False
      then show ?thesis using certificates_ok_frame [OF ok _ voted(2) keeps(1)] voted(1) by simp
    next
      case True
      then obtain qc where qc: "result = NewQuorumCertificate qc" by blast
      have held: "holds_certificate (rs_pending_votes rs') (LH (vote_ledger_info v)) (qc_signed_ledger_info qc)"
        and data: "qc_vote_data qc = vote_vote_data v" using keeps(2) qc by simp_all
      have r: "bi_round (certified_block qc) = rs_current_round rs"
        using data voted(6) by (simp add: certified_block_def)
      have "pv_steps E LH L vv (pv_new, m) (rs_pending_votes rs', mode')"
        using pv step_vote [OF voted(3-5), of LH "(rs_pending_votes rs, mode)"] voted(7) by simp
      then have pinv: "pv_inv E LH L vv (rs_pending_votes rs')" using pv_steps_inv [OF _ wf bls inj] by fastforce
      have unique: "l = l'" if "holds_certificate (rs_pending_votes rs') d l"
        "holds_certificate (rs_pending_votes rs') d' l'" for d d' l l'
        using certificates_same_digest [OF wf pos pinv that] that by (auto simp: holds_certificate_def)
      from certificates_ok_new [OF ok voted(2) keeps(1) unique held r] voted(1) qc show ?thesis by simp
    qed
  next
    case (timed_out t result)
    have "result \<noteq> NewQuorumCertificate qc" for qc using round_timeout_result [OF timed_out(5)] by simp
    then have "out \<noteq> Reception (NewQuorumCertificate qc)" for qc using timed_out(1) by simp
    moreover have "pv_li_digest_to_votes (rs_pending_votes rs') = pv_li_digest_to_votes (rs_pending_votes rs)"
      by (rule round_timeout_frame(1) [OF timed_out(5)])
    ultimately show ?thesis
      by (intro certificates_ok_frame [OF ok _ timed_out(2)]) (simp_all add: holds_certificate_def)
  next
    case quiet
    then show ?thesis by (intro certificates_ok_frame [OF ok _ quiet(2)]) auto
  qed
  with st show ?thesis by simp
qed

lemma certificates_ok_run:
  assumes "rs_run E LH L vv order st outs st'" "wf_verifier vv" "0 < total_voting_power vv" "bls_completes E"
    "inj_on LH L" "rs_inv E LH L vv st"
  shows "certificates_ok outs (fst st')"
  using assms
proof (induction rule: rs_run.induct)
  case (run_step st outs st' out st'')
  from certificates_ok_step [OF run_step(4-7) rs_run_inv [OF run_step(1,8)] run_step(2) run_step(3)]
    run_step(4-8) show ?case by blast
qed (simp add: certificates_ok_def returned_certificates_def)

section \<open>Rounds\<close>

lemma sorted_last: "sorted xs \<Longrightarrow> x \<in> set xs \<Longrightarrow> x \<le> last (xs :: 'a::linorder list)"
  by (induction xs) auto

definition started_rounds :: "rs_output list \<Rightarrow> round list" where
  "started_rounds outs = List.map_filter (\<lambda>out. case out of NewRound event \<Rightarrow> Some (nre_round event) | _ \<Rightarrow> None) outs"

lemma started_snoc:
  "started_rounds (outs @ [out]) =
     started_rounds outs @ (case out of NewRound event \<Rightarrow> [nre_round event] | _ \<Rightarrow> [])"
  by (cases out) (simp_all add: started_rounds_def map_filter_simps List.map_filter_def)

lemma rounds_increase:
  assumes "rs_run E LH L vv order st outs st'"
  shows "sorted_wrt (<) (rs_current_round (fst st) # started_rounds outs) \<and>
    last (rs_current_round (fst st) # started_rounds outs) = rs_current_round (fst st')"
  using assms
proof (induction rule: rs_run.induct)
  case (run_step st outs st' out st'')
  obtain rs mode rs' mode' where st: "st' = (rs, mode)" "st'' = (rs', mode')" by (metis surj_pair)
  let ?xs = "rs_current_round (fst st) # started_rounds outs"
  have le: "x \<le> rs_current_round rs" if "x \<in> set ?xs" for x
  proof -
    have "sorted ?xs" using run_step(3) by (blast intro: strict_sorted_imp_sorted)
    then have "x \<le> last ?xs" using that sorted_last by blast
    then show ?thesis using run_step(3) st by simp
  qed
  from run_step(2)[unfolded st] show ?case
  proof (cases rule: rs_step_cases)
    case (later event)
    then have "\<forall>x \<in> set ?xs. x < nre_round event" using le by fastforce
    with later run_step(3) st show ?thesis by (auto simp: started_snoc sorted_wrt_append)
  qed (use run_step(3) st in \<open>auto simp: started_snoc\<close>)
qed (simp add: started_rounds_def map_filter_simps)

section \<open>Progress\<close>

lemma round_index_bound:
  assumes "round_index_after_ordered_round rs = (Ok index :: (unit, _) res)"
  shows "unat (rs_highest_ordered_round rs) + 3 < 2 ^ 64"
    and "rs_highest_ordered_round rs = 0 \<Longrightarrow> rs_current_round rs \<noteq> 0"
proof -
  show "unat (rs_highest_ordered_round rs) + 3 < 2 ^ 64"
  proof (cases "rs_highest_ordered_round rs = 0")
    case False
    then have "checked_add (rs_highest_ordered_round rs) 3 \<noteq> None"
      using assms by (cases "checked_add (rs_highest_ordered_round rs) 3")
        (auto simp: round_index_after_ordered_round_def unwrap_def)
    then show ?thesis by (auto simp: checked_add_def split: if_splits)
  qed simp
  show "rs_highest_ordered_round rs = 0 \<Longrightarrow> rs_current_round rs \<noteq> 0"
    using assms by (auto simp: round_index_after_ordered_round_def checked_sub_def unwrap_def)
qed

lemma drained_timeouts_unpack:
  assumes "wf_verifier vv" "0 < total_voting_power vv" "pv_timeouts_ok vv pv" "\<And>m. mset (order m) = mset m"
    and "pv_maybe_2chain_timeout_votes pv = Some votes"
  shows "\<exists>u. unpack_aggregate order vv votes = (Ok u :: (unit, _) res)"
proof -
  have w: "wf_btree (tcv_timeout_reason votes)" "fst ` set (tcv_timeout_reason votes) \<subseteq> members vv"
    using assms(3,5) by (simp_all add: pv_timeouts_ok_def)
  from aggregated_reason_facts [OF assms(1,2) wf_btree_distinct [OF w(1)] w(2) assms(4), where ?'e = unit]
  obtain reason where "aggregated_timeout_reason order vv votes = (Ok reason :: (unit, _) res)" by blast
  then show ?thesis by (simp add: unpack_aggregate_def)
qed

lemma process_certificates_total:
  assumes vv: "wf_verifier vv" "0 < total_voting_power vv" and ord: "\<And>m. mset (order m) = mset m"
    and t: "pv_timeouts_ok vv (rs_pending_votes rs)"
    and r: "highest_round si < - 1"
      "unat (max (rs_highest_ordered_round rs) (highest_ordered_round si)) + 3 < 2 ^ 64"
    and now: "\<And>index. now + rs_time_interval rs index \<le> DURATION_MAX"
  shows "\<exists>result. fst (process_certificates order now vv si rs) = Ok result"
proof -
  let ?new = "highest_round si + 1" and ?rs = "with_ordered si rs"
  have "unat (highest_round si) < 2 ^ 64 - 1"
    using r(1) by (simp add: word_less_nat_alt unsigned_minus_1_eq_mask mask_eq_exp_minus_1)
  then have new: "checked_add (highest_round si) 1 = Some ?new" and u: "unat ?new = unat (highest_round si) + 1"
    by (simp_all add: checked_add_def unat_add_lem [THEN iffD1])
  have "highest_certified_round si \<le> highest_round si" by (simp add: highest_round_def)
  then have "unat (highest_certified_round si) < 2 ^ 64 - 1"
    using \<open>unat (highest_round si) < 2 ^ 64 - 1\<close> by (simp add: word_le_nat_alt)
  then have qc: "checked_add (highest_certified_round si) 1 = Some (highest_certified_round si + 1)"
    by (simp add: checked_add_def)
  have "?new \<noteq> 0" using u by (metis Suc_eq_plus1 nat.distinct(1) unat_0)
  then obtain timeout rs' where st: "setup_timeout now 1 (fresh_round ?new ?rs) = (Ok timeout, rs')"
    using setup_timeout_total [of "fresh_round ?new ?rs" now] r(2) now by auto
  obtain votes tv where d: "fst (drain_votes (rs_pending_votes rs)) = (votes, tv)" by fastforce
  then have tv: "tv = pv_maybe_2chain_timeout_votes (rs_pending_votes rs)" by (simp add: drain_votes_def)
  obtain unpacked where "(case tv of None \<Rightarrow> Ok None
      | Some votes \<Rightarrow> bind (unpack_aggregate order vv votes) (\<lambda>u. Ok (Some u))) = (Ok unpacked :: (unit, _) res)"
  proof (cases tv)
    case (Some v)
    then show ?thesis using that drained_timeouts_unpack [OF vv t ord, of v] tv by auto
  qed (use that in simp)
  with st qc have "\<exists>event. fst (start_round order now vv si ?new ?rs) = Ok event"
    by (simp add: start_round_def d Let_def fresh_round_def [symmetric] m_bind_def m_lift_def m_return_def
        unwrap_def)
  then have "\<exists>result. fst (if ?new > rs_current_round rs
      then m_bind (start_round order now vv si ?new) (\<lambda>event. m_return (Some event)) ?rs
      else (Ok None, ?rs)) = Ok result"
    by (auto simp: m_bind_def m_return_def split: prod.splits)
  then show ?thesis
    using new by (simp add: process_certificates_def with_ordered_def [symmetric] Let_def
        m_bind_def [of "m_lift _"] m_lift_def unwrap_def)
qed

section \<open>A sample run\<close>

text \<open>
  The sample validators reach round 2 with a certificate for round 1 and vote. The sample of the floating-point
  operations doubles the interval once.
\<close>

definition sample_floats :: "nat float_ops" where
  "sample_floats = \<lparr>multiplier_fits = (\<lambda>_ _. True), scaled_ceil = (\<lambda>ms b pow. if pow = 0 then ms else 2 * ms)\<rparr>"

definition sample_interval :: "nat exponential_time_interval" where
  "sample_interval = \<lparr>eti_base_ms = 1000, eti_exponent_base = 2, eti_max_exponent = 6\<rparr>"

definition sample_progress :: sync_info where
  "sample_progress = sync_info_new_decoupled (sample_qc 1) (sample_commit_cert 0) (sample_commit_cert 0) None"

definition sample_start :: round_state where
  "sample_start = rs_new (get_round_duration sample_floats sample_interval) 5"

definition sample_round2 :: round_state where
  "sample_round2 = snd (process_certificates (\<lambda>xs. xs) 7 sample_verifier sample_progress sample_start)"

definition sample_voted :: "author list \<Rightarrow> round_state \<times> verify_mode" where
  "sample_voted as =
     foldl (\<lambda>st a. snd (rs_insert_vote sample_cenv (\<lambda>_. 0) sample_verifier (sample_vote a) st))
       (sample_round2, sample_mode) as"

abbreviation "sample_rs_run \<equiv> rs_run sample_cenv (\<lambda>_. 0) {sample_li} sample_verifier (\<lambda>xs. xs) (sample_start, sample_mode)"

lemma sample_start_fits: "now < 10 ^ 12 \<Longrightarrow> now + rs_time_interval sample_start index \<le> DURATION_MAX"
proof -
  have "now + from_millis ms \<le> DURATION_MAX" if "now < 10 ^ 12" for ms
    using unsigned_less [of ms, where ?'a = nat] that by (simp add: from_millis_def DURATION_MAX_def)
  then show "now < 10 ^ 12 \<Longrightarrow> now + rs_time_interval sample_start index \<le> DURATION_MAX"
    by (simp add: sample_start_def rs_new_def get_round_duration_def)
qed

lemma sample_round2_facts:
  "\<exists>event. process_certificates (\<lambda>xs. xs) 7 sample_verifier sample_progress sample_start =
      (Ok (Some event), sample_round2)"
  "rs_current_round sample_round2 = 2" "rs_pending_votes sample_round2 = pv_new"
  "rs_highest_ordered_round sample_round2 = 0" "rs_time_interval sample_round2 = rs_time_interval sample_start"
proof -
  have r: "highest_round sample_progress = 1" "highest_ordered_round sample_progress = 0" by code_simp+
  have st: "rs_highest_ordered_round sample_start = 0" "rs_pending_votes sample_start = pv_new"
    by (simp_all add: sample_start_def rs_new_def)
  have "pv_timeouts_ok sample_verifier (rs_pending_votes sample_start)"
    by (simp add: st pv_timeouts_ok_def pv_new_def)
  moreover have "highest_round sample_progress < - 1" by code_simp
  ultimately obtain result where "fst (process_certificates (\<lambda>xs. xs) 7 sample_verifier sample_progress
      sample_start) = Ok result"
    using process_certificates_total [OF wf_sample sample_total refl, of sample_start sample_progress 7]
      sample_start_fits [of 7] r st by auto
  then have run: "process_certificates (\<lambda>xs. xs) 7 sample_verifier sample_progress sample_start =
      (Ok result, sample_round2)" by (simp add: sample_round2_def prod_eq_iff)
  then have "(\<exists>event. result = Some event) \<and> rs_current_round sample_round2 = 2 \<and>
      rs_pending_votes sample_round2 = pv_new \<and> rs_highest_ordered_round sample_round2 = 0"
  proof (cases rule: process_certificates_Ok)
    case old
    then show ?thesis by (simp add: sample_start_def rs_new_def)
  next
    case (started event)
    from started(2) show ?thesis
    proof (cases rule: setup_timeout_cases)
      case (Ok index)
      have "rs_current_round sample_round2 = 2" "rs_pending_votes sample_round2 = pv_new"
        "rs_highest_ordered_round sample_round2 = 0" by (subst Ok(4), simp add: r st)+
      with started(1) show ?thesis by blast
    qed simp
  qed
  with run show "\<exists>event. process_certificates (\<lambda>xs. xs) 7 sample_verifier sample_progress sample_start =
      (Ok (Some event), sample_round2)"
    and "rs_current_round sample_round2 = 2" "rs_pending_votes sample_round2 = pv_new"
    "rs_highest_ordered_round sample_round2 = 0" "rs_time_interval sample_round2 = rs_time_interval sample_start"
    using process_certificates_interval [OF run] by auto
qed

lemma sample_round2_run: "\<exists>event. sample_rs_run [NewRound event] (sample_round2, sample_mode)"
proof -
  obtain event where p: "process_certificates (\<lambda>xs. xs) 7 sample_verifier sample_progress sample_start =
      (Ok (Some event), sample_round2)" using sample_round2_facts(1) by blast
  from run_step [OF run_none rs_new_round [OF p]] show ?thesis by fastforce
qed

lemma sample_voted_votes:
  "sample_voted as = (sample_round2\<lparr>rs_pending_votes := fst (sample_votes as)\<rparr>, snd (sample_votes as))"
proof (induction as rule: rev_induct)
  case Nil
  have "sample_round2 = sample_round2\<lparr>rs_pending_votes := pv_new\<rparr>"
    by (subst sample_round2_facts(3) [symmetric]) simp
  then show ?case by (simp add: sample_voted_def sample_votes_def)
next
  case (snoc a as)
  have "bi_round (proposed (vote_vote_data (sample_vote a))) = 2"
    by (simp add: sample_vote_def vote_new_with_signature_def sample_qc_def sample_block_info_def)
  then show ?case
    using snoc sample_round2_facts(2)
    by (simp add: sample_voted_def sample_votes_def rs_insert_vote_def Let_def split_def)
qed

lemma sample_voted_run:
  assumes "sample_rs_run outs (sample_voted as)" "a \<in> {1, 2, 3}"
    and "fst (rs_insert_vote sample_cenv (\<lambda>_. 0) sample_verifier (sample_vote a) (sample_voted as)) = Ok result"
  shows "sample_rs_run (outs @ [Reception result]) (sample_voted (as @ [a]))"
proof -
  have "rs_insert_vote sample_cenv (\<lambda>_. 0) sample_verifier (sample_vote a) (sample_voted as) =
      (Ok result, sample_voted (as @ [a]))"
    using assms(3) by (simp add: sample_voted_def prod_eq_iff)
  from run_step [OF assms(1) rs_vote [OF sample_vote_verifies [OF assms(2)] this]] show ?thesis .
qed

lemma sample_voted_result:
  "fst (rs_insert_vote sample_cenv (\<lambda>_. 0) sample_verifier (sample_vote a) (sample_voted as)) =
     fst (pv_insert_vote sample_cenv (\<lambda>_. 0) sample_verifier (sample_vote a) (sample_votes as))"
proof -
  have "bi_round (proposed (vote_vote_data (sample_vote a))) = 2"
    by (simp add: sample_vote_def vote_new_with_signature_def sample_qc_def sample_block_info_def)
  then show ?thesis
    by (simp add: sample_voted_votes rs_insert_vote_def sample_round2_facts(2) split_def Let_def)
qed

lemma sample_certificate_run:
  "\<exists>outs qc. sample_rs_run outs (sample_voted [1, 2, 3]) \<and> Reception (NewQuorumCertificate qc) \<in> set outs"
proof -
  let ?ins = "\<lambda>a as. fst (pv_insert_vote sample_cenv (\<lambda>_. 0) sample_verifier (sample_vote a) (sample_votes as))"
  have "is_ok (?ins 1 [])" "is_ok (?ins 2 [1])"
    "(case ?ins 3 [1, 2] of Ok (NewQuorumCertificate qc) \<Rightarrow> True | _ \<Rightarrow> False)" by code_simp+
  then obtain x y qc where r: "?ins 1 [] = Ok x" "?ins 2 [1] = Ok y" "?ins 3 [1, 2] = Ok (NewQuorumCertificate qc)"
    by (auto simp: is_ok_iff split: res.splits vote_reception_result.splits)
  obtain event where "sample_rs_run [NewRound event] (sample_voted [])"
    using sample_round2_run by (auto simp: sample_voted_def)
  from sample_voted_run [OF sample_voted_run [OF sample_voted_run [OF this, of 1 x], of 2 y],
      of 3 "NewQuorumCertificate qc"] r
  have "sample_rs_run [NewRound event, Reception x, Reception y, Reception (NewQuorumCertificate qc)]
      (sample_voted [1, 2, 3])" by (simp add: sample_voted_result)
  then show ?thesis by fastforce
qed

section \<open>Properties\<close>

text \<open>
  C10. One certificate per round, over a whole run: two quorum certificates that the round state returns for blocks of
  one round carry the same signed ledger info, whatever votes, timeouts and certificates arrive in
  whatever order and however often rounds change in between.
\<close>

theorem round_state_one_certificate:
  assumes "wf_verifier vv" "0 < total_voting_power vv" "bls_completes E" "inj_on LH L"
    and "rs_run E LH L vv order (rs_new interval now, mode) outs st"
    and "Reception (NewQuorumCertificate qc) \<in> set outs" "Reception (NewQuorumCertificate qc') \<in> set outs"
    and "bi_round (certified_block qc') = bi_round (certified_block qc)"
  shows "qc_signed_ledger_info qc' = qc_signed_ledger_info qc"
  by (rule certificates_okD(3) [OF certificates_ok_run [OF assms(5,1-4) rs_new_inv] _ _ assms(8)])
    (use assms(6,7) in \<open>simp_all add: returned_certificates_def\<close>)

theorem round_state_one_certificate_witness:
  "\<exists>outs qc. sample_rs_run outs (sample_voted [1, 2, 3]) \<and> Reception (NewQuorumCertificate qc) \<in> set outs \<and>
     (\<forall>qc'. Reception (NewQuorumCertificate qc') \<in> set outs \<and>
        bi_round (certified_block qc') = bi_round (certified_block qc) \<longrightarrow>
        qc_signed_ledger_info qc' = qc_signed_ledger_info qc)"
proof -
  obtain outs qc where run: "sample_rs_run outs (sample_voted [1, 2, 3])"
    and qc: "Reception (NewQuorumCertificate qc) \<in> set outs" using sample_certificate_run by blast
  have "inj_on (\<lambda>_. 0) {sample_li}" by simp
  note u = round_state_one_certificate [OF wf_sample sample_total sample_bls(1) this
      run [unfolded sample_start_def] qc]
  from run qc u show ?thesis by blast
qed

text \<open>
  C11. Rounds only move forward, and everything in the state belongs to the current one: the events that announce
  new rounds have strictly increasing rounds, the last of which is current; the vote and the timeout
  recorded as sent and the running timer are for the current round.
\<close>

theorem rounds_move_forward:
  assumes "rs_run E LH L vv order (rs_new interval now, mode) outs (rs, mode')"
  shows "sorted_wrt (<) (0 # started_rounds outs) \<and> rs_current_round rs = last (0 # started_rounds outs) \<and>
    (\<forall>v. rs_vote_sent rs = Some v \<longrightarrow> bi_round (proposed (vote_vote_data v)) = rs_current_round rs) \<and>
    (\<forall>t. rs_timeout_sent rs = Some t \<longrightarrow> to_round (rt_timeout t) = rs_current_round rs) \<and>
    (\<forall>d r. rs_abort_handle rs = Some (d, r) \<longrightarrow> r = rs_current_round rs \<and> r \<noteq> 0)"
proof -
  have "rs_current_round (rs_new interval now) = 0" by (simp add: rs_new_def)
  then show ?thesis
    using rounds_increase [OF assms] rs_run_inv [OF assms rs_new_inv] by (auto simp: rs_inv_def Let_def)
qed

theorem rounds_move_forward_witness:
  "\<exists>outs. sample_rs_run outs (sample_round2, sample_mode) \<and> rs_current_round sample_round2 = 2 \<and>
     sorted_wrt (<) (0 # started_rounds outs) \<and> (\<forall>d r. rs_abort_handle sample_round2 = Some (d, r) \<longrightarrow> r = 2)"
proof -
  obtain outs where run: "sample_rs_run outs (sample_round2, sample_mode)" using sample_round2_run by blast
  from rounds_move_forward [OF run [unfolded sample_start_def]] run sample_round2_facts(2) show ?thesis by auto
qed

text \<open>
  C12. The round state does not panic: in every state of a run, votes and round timeouts that have passed their
  verification, certificates and the timer that is running are handled, as long as rounds stay
  below the last ones of their type and the deadline fits a duration.
\<close>

theorem round_state_never_panics:
  assumes "wf_verifier vv" "0 < total_voting_power vv" "bls_completes E" "inj_on LH L"
    and "\<And>m. mset (order m) = mset m"
    and "rs_run E LH L vv order (rs_new interval now, mode) outs (rs, mode')"
    and "\<And>index. now' + rs_time_interval rs index \<le> DURATION_MAX"
  shows "(\<forall>md v0 v. vote_verify E vv md v0 = Ok v \<longrightarrow> \<not> sws_verified (vote_signature v0) \<longrightarrow>
       vote_ledger_info v \<in> L \<longrightarrow> (\<exists>result. fst (rs_insert_vote E LH vv v (rs, mode')) = Ok result)) \<and>
    (\<forall>t. round_timeout_verify E vv t = Ok () \<longrightarrow>
       (\<exists>result. fst (rs_insert_round_timeout E vv t rs) = Ok result)) \<and>
    (\<forall>si. highest_round si < - 1 \<longrightarrow>
       unat (max (rs_highest_ordered_round rs) (highest_ordered_round si)) + 3 < 2 ^ 64 \<longrightarrow>
       (\<exists>result. fst (process_certificates order now' vv si rs) = Ok result)) \<and>
    (\<forall>d r. rs_abort_handle rs = Some (d, r) \<longrightarrow> unat (rs_highest_ordered_round rs) + 3 < 2 ^ 64 \<longrightarrow>
       fst (process_local_timeout now' r rs) = Ok True)"
proof (intro conjI allI impI)
  have inv: "rs_inv E LH L vv (rs, mode')" by (rule rs_run_inv [OF assms(6) rs_new_inv])
  then obtain m where pv: "pv_steps E LH L vv (pv_new, m) (rs_pending_votes rs, mode')"
    by (auto simp: rs_inv_def Let_def)
  have t: "pv_timeouts_ok vv (rs_pending_votes rs)" using pv_steps_timeouts_ok [OF pv assms(1-4)] by simp
  have i: "pv_inv E LH L vv (rs_pending_votes rs)" using pv_steps_inv [OF pv assms(1,3,4)] by simp
  show "\<exists>result. fst (rs_insert_vote E LH vv v (rs, mode')) = Ok result"
    if "vote_verify E vv md v0 = Ok v" "\<not> sws_verified (vote_signature v0)" "vote_ledger_info v \<in> L" for md v0 v
  proof -
    obtain r pv' m' where run: "pv_insert_vote E LH vv v (rs_pending_votes rs, mode') = (r, (pv', m'))"
      by (metis surj_pair)
    from insert_vote_ok [OF assms(1-4) i t valid_voteI [OF assms(1) that(1,2)] that(3) run] run
    show ?thesis by (auto simp: rs_insert_vote_def Let_def)
  qed
  show "\<exists>result. fst (rs_insert_round_timeout E vv u rs) = Ok result" if "round_timeout_verify E vv u = Ok ()" for u
  proof -
    obtain r pv' where run: "pv_insert_round_timeout E vv u (rs_pending_votes rs) = (r, pv')" by (metis surj_pair)
    from insert_round_timeout_ok [OF assms(1,2) t that run] run show ?thesis
      by (auto simp: rs_insert_round_timeout_def Let_def)
  qed
  show "\<exists>result. fst (process_certificates order now' vv si rs) = Ok result"
    if "highest_round si < - 1"
      "unat (max (rs_highest_ordered_round rs) (highest_ordered_round si)) + 3 < 2 ^ 64" for si
    by (rule process_certificates_total [OF assms(1,2,5) t that assms(7)])
  show "fst (process_local_timeout now' r rs) = Ok True"
    if "rs_abort_handle rs = Some (d, r)" "unat (rs_highest_ordered_round rs) + 3 < 2 ^ 64" for d r
  proof -
    from inv that(1) have r: "r = rs_current_round rs" "rs_current_round rs \<noteq> 0"
      by (auto simp: rs_inv_def Let_def)
    from setup_timeout_total [OF r(2) that(2) assms(7)] r(1) show ?thesis
      by (auto simp: process_local_timeout_def m_bind_def m_return_def)
  qed
qed

theorem round_state_never_panics_witness:
  "\<exists>result. fst (process_certificates (\<lambda>xs. xs) 9 sample_verifier sample_sync_info sample_round2) = Ok result"
proof -
  obtain outs where run: "sample_rs_run outs (sample_round2, sample_mode)" using sample_round2_run by blast
  have now: "9 + rs_time_interval sample_round2 index \<le> DURATION_MAX" for index
    using sample_start_fits [of 9] sample_round2_facts(5) by simp
  have "inj_on (\<lambda>_. 0) {sample_li}" by simp
  note p = round_state_never_panics [OF wf_sample sample_total sample_bls(1) this refl
      run [unfolded sample_start_def] now]
  have "highest_round sample_sync_info < - 1" by code_simp
  moreover have "highest_ordered_round sample_sync_info = 2" by code_simp
  ultimately show ?thesis using p sample_round2_facts(4) by auto
qed



end
