(* ===== verification/Proposer_Election.thy ===== *)
theory Proposer_Election
  imports Blocks Epoch_Change
begin

text \<open>
  Who proposes in a round, \<^verbatim>\<open>consensus/src/liveness\<close>: the weighted choice of \<^verbatim>\<open>proposer_election.rs\<close>, the
  rotating and the fixed schedule, the wrapper that accepts one proposal per round and the one that caches
  elections. The hash function is a parameter. The trait of the elections is the locale \<open>election\<close>; it
  is interpreted on the schedules, and what the wrapper guarantees is proved in it.
\<close>

section \<open>Weighted choice\<close>

definition u128_from_le_bytes :: "u8 list \<Rightarrow> u128" where
  "u128_from_le_bytes bs = foldr (\<lambda>b acc. ucast b + 256 * acc) bs 0"

text \<open>The remainder by zero panics.\<close>

definition next_in_range :: "(u8 list \<Rightarrow> hash_value) \<Rightarrow> u8 list \<Rightarrow> u128 \<Rightarrow> ('e, u128) res" where
  "next_in_range SHA state max_value =
     (if max_value = 0 then Panic
      else Ok (u128_from_le_bytes (take 16 (hash_bytes (SHA state))) mod max_value))"

fun cumulative_weights :: "u128 \<Rightarrow> u128 list \<Rightarrow> ('e, u128 list \<times> u128) res" where
  "cumulative_weights total_weight [] = Ok ([], total_weight)"
| "cumulative_weights total_weight (w # weights) =
     bind (unwrap (checked_add total_weight w)) (\<lambda>total.
     bind (cumulative_weights total weights) (\<lambda>(sums, total_weight). Ok (total # sums, total_weight)))"

text \<open>\<^verbatim>\<open>slice::binary_search_by\<close> of the standard library, over the comparisons with the elements.\<close>

datatype cmp_result = CmpLess | CmpEqual | CmpGreater

function search_loop :: "(nat \<Rightarrow> cmp_result) \<Rightarrow> nat \<Rightarrow> nat \<Rightarrow> nat" where
  "search_loop f base len =
     (if len > 1 then
        let half = len div 2; mid = base + half
        in search_loop f (if f mid = CmpGreater then base else mid) (len - half)
      else base)"
  by pat_completeness auto
termination by (relation "measure (\<lambda>(f, base, len). len)") auto

declare search_loop.simps [simp del]

definition binary_search_by :: "(nat \<Rightarrow> cmp_result) \<Rightarrow> nat \<Rightarrow> (nat, nat) res" where
  "binary_search_by f len =
     (if len = 0 then Err 0
      else let base = search_loop f 0 len
           in case f base of CmpEqual \<Rightarrow> Ok base | CmpLess \<Rightarrow> Err (base + 1) | CmpGreater \<Rightarrow> Err base)"

definition index_of_weight :: "u128 list \<Rightarrow> u128 \<Rightarrow> ('e, nat) res" where
  "index_of_weight sums chosen_weight =
     (case binary_search_by (\<lambda>i. if sums ! i \<le> chosen_weight then CmpLess else CmpGreater) (length sums) of
        Err i \<Rightarrow> Ok i
      | _ \<Rightarrow> Panic)"

definition choose_index :: "(u8 list \<Rightarrow> hash_value) \<Rightarrow> u128 list \<Rightarrow> u8 list \<Rightarrow> ('e, nat) res" where
  "choose_index SHA weights state =
     bind (cumulative_weights 0 weights) (\<lambda>(sums, total_weight).
     bind (next_in_range SHA state total_weight) (\<lambda>chosen_weight.
       index_of_weight sums chosen_weight))"

section \<open>Schedules\<close>

record rotating_proposer =
  rp_proposers :: "author list"
  rp_contiguous_rounds :: "32 word"

definition choose_leader :: "author list \<Rightarrow> ('e, author) res" where
  "choose_leader peers = (if peers = [] then Panic else Ok (Min (set peers)))"

text \<open>Division and remainder by zero panic.\<close>

definition rp_get_valid_proposer :: "rotating_proposer \<Rightarrow> round \<Rightarrow> ('e, author) res" where
  "rp_get_valid_proposer p r =
     (if rp_contiguous_rounds p = 0 \<or> of_nat (length (rp_proposers p)) = (0 :: u64) then Panic
      else unwrap (nth_opt (rp_proposers p)
        (unat ((r div ucast (rp_contiguous_rounds p)) mod of_nat (length (rp_proposers p))))))"

record round_proposer =
  rd_proposers :: "(round \<times> author) list"
  rd_default_proposer :: author

definition rd_get_valid_proposer :: "round_proposer \<Rightarrow> round \<Rightarrow> ('e, author) res" where
  "rd_get_valid_proposer p r =
     Ok (case map_of (rd_proposers p) r of None \<Rightarrow> rd_default_proposer p | Some a \<Rightarrow> a)"

section \<open>One proposal per round\<close>

text \<open>
  The wrapper holds an election, here the argument \<open>elect\<close>, and the round and id of the last proposal.
\<close>

type_synonym already_proposed = "round \<times> hash_value"

definition unequivocal_new :: already_proposed where
  "unequivocal_new = (0, 0)"

definition is_valid_proposer :: "(round \<Rightarrow> ('e, author) res) \<Rightarrow> author \<Rightarrow> round \<Rightarrow> ('e, bool) res" where
  "is_valid_proposer elect auth r = bind (elect r) (\<lambda>a. Ok (a = auth))"

definition is_valid_proposal ::
    "(round \<Rightarrow> ('e, author) res) \<Rightarrow> block \<Rightarrow> (already_proposed, 'e, bool) method_res" where
  "is_valid_proposal elect b st =
     (case blk_author b of
        None \<Rightarrow> (Ok False, st)
      | Some auth \<Rightarrow>
          m_bind (m_lift (is_valid_proposer elect auth (blk_round b))) (\<lambda>valid_author st.
            if \<not> valid_author then (Ok False, st)
            else if blk_round b > fst st then (Ok True, (blk_round b, blk_id b))
            else if blk_round b = fst st then (Ok (snd st = blk_id b), st)
            else (Ok False, st)) st)"

section \<open>Cached elections\<close>

record 'a cached_proposer_election =
  cpe_recent_elections :: "(round \<times> 'a) list"
  cpe_window :: nat

definition cpe_new :: "nat \<Rightarrow> 'a cached_proposer_election" where
  "cpe_new window = \<lparr>cpe_recent_elections = [], cpe_window = window\<rparr>"

text \<open>\<^verbatim>\<open>split_off\<close> keeps the keys from the given one on. The comparison converts the window to 64 bits.\<close>

definition get_or_compute_entry ::
    "(round \<Rightarrow> ('e, 'a) res) \<Rightarrow> round \<Rightarrow> ('a cached_proposer_election, 'e, 'a) method_res" where
  "get_or_compute_entry elect r c =
     (let window = of_nat (cpe_window c);
          c = (if r > window
               then c\<lparr>cpe_recent_elections := filter (\<lambda>(k, _). r - window \<le> k) (cpe_recent_elections c)\<rparr>
               else c)
      in case map_of (cpe_recent_elections c) r of
           Some result \<Rightarrow> (Ok result, c)
         | None \<Rightarrow>
             m_bind (m_lift (elect r)) (\<lambda>result.
             m_bind (m_modify (\<lambda>c. c\<lparr>cpe_recent_elections :=
                 btree_insert r result (cpe_recent_elections c)\<rparr>)) (\<lambda>_. m_return result)) c)"

section \<open>The weighted choice is proportional\<close>

text \<open>Binary search finds the end of an initial segment.\<close>

lemma search_loop_partition:
  assumes "\<And>i. i < n \<Longrightarrow> f i = (if i < k then CmpLess else CmpGreater)" "0 < len" "base + len \<le> n"
    and "base = 0 \<or> base < k" "k \<le> base + len"
  shows "search_loop f base len < n \<and>
    (if k = 0 then search_loop f base len = 0 else search_loop f base len = k - 1)"
  using assms
proof (induction f base len rule: search_loop.induct)
  case (1 f base len)
  show ?case
  proof (cases "len > 1")
    case True
    let ?half = "len div 2"
    let ?mid = "base + ?half"
    have mid: "?mid < n" "0 < len - ?half" using True "1.prems"(3) by auto
    have run: "search_loop f base len =
        search_loop f (if f ?mid = CmpGreater then base else ?mid) (len - ?half)"
      using True by (subst search_loop.simps) (simp add: Let_def)
    have "search_loop f (if f ?mid = CmpGreater then base else ?mid) (len - ?half) < n \<and>
      (if k = 0 then search_loop f (if f ?mid = CmpGreater then base else ?mid) (len - ?half) = 0
       else search_loop f (if f ?mid = CmpGreater then base else ?mid) (len - ?half) = k - 1)"
    proof (rule "1.IH" [OF True refl refl])
      show "f i = (if i < k then CmpLess else CmpGreater)" if "i < n" for i using "1.prems"(1) that by blast
      show "0 < len - ?half" by (rule mid(2))
      show "(if f ?mid = CmpGreater then base else ?mid) + (len - ?half) \<le> n"
        using "1.prems"(3) True by auto
      show "(if f ?mid = CmpGreater then base else ?mid) = 0 \<or> (if f ?mid = CmpGreater then base else ?mid) < k"
        using "1.prems"(1) [OF mid(1)] "1.prems"(4) by auto
      show "k \<le> (if f ?mid = CmpGreater then base else ?mid) + (len - ?half)"
        using "1.prems"(1) [OF mid(1)] "1.prems"(5) True by (auto split: if_splits)
    qed
    then show ?thesis unfolding run .
  next
    case False
    then have "len = 1" using "1.prems"(2) by simp
    then have "search_loop f base len = base" by (subst search_loop.simps) simp
    with \<open>len = 1\<close> "1.prems"(3-5) show ?thesis by auto
  qed
qed

lemma binary_search_partition:
  assumes "\<And>i. i < n \<Longrightarrow> f i = (if i < k then CmpLess else CmpGreater)" "k \<le> n"
  shows "binary_search_by f n = Err k"
proof (cases "n = 0")
  case False
  from search_loop_partition [OF assms(1), of n n 0] False assms(2)
  have b: "search_loop f 0 n < n" "if k = 0 then search_loop f 0 n = 0 else search_loop f 0 n = k - 1" by auto
  then show ?thesis
    using False assms(1) [OF b(1)] by (auto simp: binary_search_by_def Let_def split: if_splits)
qed (use assms(2) in \<open>simp add: binary_search_by_def\<close>)

text \<open>The sums of the first weights.\<close>

definition prefix_weight :: "u128 list \<Rightarrow> nat \<Rightarrow> nat" where
  "prefix_weight ws i = sum_list (map unat (take i ws))"

lemma prefix_weight_Suc:
  "i < length ws \<Longrightarrow> prefix_weight ws (Suc i) = prefix_weight ws i + unat (ws ! i)"
  by (simp add: prefix_weight_def take_Suc_conv_app_nth)

lemma prefix_weight_mono: "i \<le> j \<Longrightarrow> prefix_weight ws i \<le> prefix_weight ws j"
proof (induction rule: dec_induct)
  case (step n)
  then show ?case
    by (cases "n < length ws") (simp_all add: prefix_weight_Suc, simp add: prefix_weight_def)
qed simp

lemma cumulative_weights_Ok:
  assumes "unat acc + sum_list (map unat ws) < 2 ^ 128"
  shows "\<exists>sums t. cumulative_weights acc ws = (Ok (sums, t) :: ('e, _) res) \<and> length sums = length ws \<and>
    unat t = unat acc + sum_list (map unat ws) \<and>
    (\<forall>i < length ws. unat (sums ! i) = unat acc + prefix_weight ws (Suc i))"
  using assms
proof (induction ws arbitrary: acc)
  case (Cons w ws)
  then have lt: "unat acc + unat w < 2 ^ 128" by simp
  then have add: "checked_add acc w = Some (acc + w)" and u: "unat (acc + w) = unat acc + unat w"
    by (simp_all add: checked_add_def unat_add_lem [THEN iffD1])
  from Cons.IH [of "acc + w"] Cons.prems u obtain sums t where
    c: "cumulative_weights (acc + w) ws = (Ok (sums, t) :: ('e, _) res)" "length sums = length ws"
    "unat t = unat acc + unat w + sum_list (map unat ws)"
    "\<forall>i < length ws. unat (sums ! i) = unat acc + unat w + prefix_weight ws (Suc i)" by auto
  have "unat (((acc + w) # sums) ! i) = unat acc + prefix_weight (w # ws) (Suc i)" if "i < length (w # ws)" for i
    using that c(4) u by (cases i) (simp_all add: prefix_weight_def)
  with c add show ?case by (simp add: unwrap_def)
qed simp

lemma cumulative_weights_overflow:
  assumes "2 ^ 128 \<le> unat acc + sum_list (map unat ws)"
  shows "cumulative_weights acc ws = (Panic :: ('e, _) res)"
  using assms
proof (induction ws arbitrary: acc)
  case Nil
  then show ?case using unsigned_less [of acc, where ?'a = nat] by simp
next
  case (Cons w ws)
  show ?case
  proof (cases "unat acc + unat w < 2 ^ 128")
    case True
    then have "checked_add acc w = Some (acc + w)" and u: "unat (acc + w) = unat acc + unat w"
      by (simp_all add: checked_add_def unat_add_lem [THEN iffD1])
    with Cons.IH [of "acc + w"] Cons.prems show ?thesis by (simp add: unwrap_def)
  next
    case False
    then show ?thesis by (simp add: checked_add_def unwrap_def)
  qed
qed

lemma index_of_weight_partition:
  assumes sums: "length sums = length ws" "\<forall>i < length ws. unat (sums ! i) = prefix_weight ws (Suc i)"
    and r: "unat r < prefix_weight ws (length ws)"
  shows "\<exists>k < length ws. index_of_weight sums r = (Ok k :: ('e, _) res) \<and>
    prefix_weight ws k \<le> unat r \<and> unat r < prefix_weight ws (Suc k)"
proof -
  define k where "k = (LEAST k. unat r < prefix_weight ws (Suc k))"
  have ne: "ws \<noteq> []" using r by (auto simp: prefix_weight_def)
  then have ex: "unat r < prefix_weight ws (Suc (length ws - 1))" using r by simp
  have gt: "unat r < prefix_weight ws (Suc k)" unfolding k_def by (rule LeastI [of "\<lambda>k. unat r < prefix_weight ws (Suc k)", OF ex])
  have kl: "k \<le> length ws - 1" unfolding k_def by (rule Least_le [of "\<lambda>k. unat r < prefix_weight ws (Suc k)", OF ex])
  have below: "prefix_weight ws (Suc i) \<le> unat r" if "i < k" for i
    using not_less_Least [of i "\<lambda>k. unat r < prefix_weight ws (Suc k)"] that by (simp add: k_def)
  have "(sums ! i \<le> r) = (i < k)" if "i < length ws" for i
  proof
    assume "sums ! i \<le> r"
    then have "prefix_weight ws (Suc i) \<le> unat r" using sums(2) that by (simp add: word_le_nat_alt)
    with gt show "i < k" using prefix_weight_mono [of "Suc k" "Suc i" ws] by (metis not_le not_less_eq order.trans)
  next
    assume "i < k"
    from below [OF this] sums(2) that show "sums ! i \<le> r" by (simp add: word_le_nat_alt)
  qed
  then have "binary_search_by (\<lambda>i. if sums ! i \<le> r then CmpLess else CmpGreater) (length ws) = Err k"
    using kl by (intro binary_search_partition) auto
  then have "index_of_weight sums r = (Ok k :: ('e, _) res)" by (simp add: index_of_weight_def sums(1))
  moreover have "k < length ws" using kl ne by (cases ws) simp_all
  moreover have "prefix_weight ws k \<le> unat r"
  proof (cases k)
    case 0
    then show ?thesis by (simp add: prefix_weight_def)
  next
    case (Suc j)
    with below [of j] show ?thesis by simp
  qed
  ultimately show ?thesis using gt by blast
qed

lemma prefix_weight_unique:
  assumes "prefix_weight ws i \<le> n" "n < prefix_weight ws (Suc i)"
    and "prefix_weight ws j \<le> n" "n < prefix_weight ws (Suc j)"
  shows "i = j"
proof (rule ccontr)
  assume "i \<noteq> j"
  then consider "Suc i \<le> j" | "Suc j \<le> i" by linarith
  then show False
    using assms prefix_weight_mono [of "Suc i" j ws] prefix_weight_mono [of "Suc j" i ws] by cases auto
qed

lemma choose_index_Ok:
  assumes "0 < sum_list (map unat ws)" "sum_list (map unat ws) < 2 ^ 128"
  shows "\<exists>i < length ws. choose_index SHA ws state = (Ok i :: ('e, _) res) \<and>
    prefix_weight ws i \<le> unat (u128_from_le_bytes (take 16 (hash_bytes (SHA state)))) mod sum_list (map unat ws) \<and>
    unat (u128_from_le_bytes (take 16 (hash_bytes (SHA state)))) mod sum_list (map unat ws) < prefix_weight ws (Suc i)"
proof -
  obtain sums t where c: "cumulative_weights 0 ws = (Ok (sums, t) :: ('e, _) res)" "length sums = length ws"
    "unat t = sum_list (map unat ws)" "\<forall>i < length ws. unat (sums ! i) = prefix_weight ws (Suc i)"
    using cumulative_weights_Ok [of 0 ws, where ?'e = 'e] assms(2) by auto
  let ?h = "u128_from_le_bytes (take 16 (hash_bytes (SHA state)))"
  have "t \<noteq> 0" using c(3) assms(1) by (metis less_irrefl unat_0)
  then have n: "next_in_range SHA state t = (Ok (?h mod t) :: ('e, _) res)" by (simp add: next_in_range_def)
  have m: "unat (?h mod t) = unat ?h mod sum_list (map unat ws)" by (simp add: unat_mod_distrib c(3))
  then have "unat (?h mod t) < prefix_weight ws (length ws)" using assms(1) by (simp add: prefix_weight_def)
  from index_of_weight_partition [OF c(2,4) this, where ?'e = 'e] n c(1) m
  show ?thesis by (auto simp: choose_index_def)
qed

section \<open>The rotation\<close>

lemma interval_mod_bij:
  assumes "0 < (m :: nat)"
  shows "bij_betw (\<lambda>x. x mod m) {s..<s + m} {..<m}"
proof -
  have inj: "inj_on (\<lambda>x. x mod m) {s..<s + m}"
  proof (rule inj_onI)
    fix x y assume a: "x \<in> {s..<s + m}" "y \<in> {s..<s + m}" "x mod m = y mod m"
    have "\<not> x < y" "\<not> y < x"
      using a mod_eq_dvd_iff_nat [of x y m] mod_eq_dvd_iff_nat [of y x m] by (auto dest!: dvd_imp_le)
    then show "x = y" by simp
  qed
  moreover have "(\<lambda>x. x mod m) ` {s..<s + m} = {..<m}"
    by (rule card_subset_eq) (use assms card_image [OF inj] in auto)
  ultimately show ?thesis by (simp add: bij_betw_def)
qed

lemma rotation_count:
  assumes c: "0 < (c :: nat)" and i: "i < n"
  shows "card {r \<in> {s..<s + n * c}. r div c mod n = i} = c"
proof -
  have pos: "0 < n * c" using assms by simp
  have div: "r div c mod n = r mod (n * c) div c" for r
    using c by (simp add: mod_mult2_eq mult.commute)
  note bij = interval_mod_bij [OF pos, of s]
  let ?A = "{r \<in> {s..<s + n * c}. r div c mod n = i}"
  have "(\<lambda>x. x mod (n * c)) ` ?A = {x \<in> {..<n * c}. x div c = i}"
  proof
    show "(\<lambda>x. x mod (n * c)) ` ?A \<subseteq> {x \<in> {..<n * c}. x div c = i}" using pos div by auto
    show "{x \<in> {..<n * c}. x div c = i} \<subseteq> (\<lambda>x. x mod (n * c)) ` ?A"
    proof
      fix x assume x: "x \<in> {x \<in> {..<n * c}. x div c = i}"
      then have "x \<in> (\<lambda>x. x mod (n * c)) ` {s..<s + n * c}" using bij by (simp add: bij_betw_def)
      then obtain r where r: "r \<in> {s..<s + n * c}" "x = r mod (n * c)" by blast
      with x have "r \<in> ?A" using div [of r] by simp
      with r(2) show "x \<in> (\<lambda>x. x mod (n * c)) ` ?A" by (rule image_eqI)
    qed
  qed
  moreover have "inj_on (\<lambda>x. x mod (n * c)) ?A"
    by (rule inj_on_subset [OF bij_betw_imp_inj_on [OF bij]]) blast
  then have "card ((\<lambda>x. x mod (n * c)) ` ?A) = card ?A" by (rule card_image)
  ultimately have "card ?A = card {x \<in> {..<n * c}. x div c = i}" by simp
  also have "{x \<in> {..<n * c}. x div c = i} = {i * c..<i * c + c}"
  proof -
    have eq: "x div c = i \<longleftrightarrow> i * c \<le> x \<and> x < Suc i * c" for x
    proof -
      have "i \<le> x div c \<longleftrightarrow> i * c \<le> x" "x div c < Suc i \<longleftrightarrow> x < Suc i * c"
        using c by (simp_all only: less_eq_div_iff_mult_less_eq div_less_iff_less_mult)
      then show ?thesis by linarith
    qed
    have le: "Suc i * c \<le> n * c" using i by (intro mult_le_mono1) simp
    show ?thesis
    proof (rule set_eqI)
      show "x \<in> {x \<in> {..<n * c}. x div c = i} \<longleftrightarrow> x \<in> {i * c..<i * c + c}" for x
        using eq [of x] le by auto
    qed
  qed
  finally show ?thesis by simp
qed

section \<open>Properties of the choice and the schedules\<close>

text \<open>
  C21. The weighted choice is fair: when the total weight is neither zero nor too large, every value below it is mapped to
  an index, and an index is hit by exactly as many values as its weight; in particular a weight of zero is
  never chosen, and what \<^verbatim>\<open>choose_index\<close> returns is the index hit by the hash of the state modulo the total.
\<close>

theorem weighted_choice_fair:
  assumes "0 < sum_list (map unat ws)" "sum_list (map unat ws) < 2 ^ 128"
  shows "\<exists>sums total_weight. cumulative_weights 0 ws = (Ok (sums, total_weight) :: (unit, _) res) \<and>
    unat total_weight = sum_list (map unat ws) \<and>
    (\<forall>i < length ws. card {n. n < sum_list (map unat ws) \<and>
       index_of_weight sums (of_nat n) = (Ok i :: (unit, _) res)} = unat (ws ! i)) \<and>
    choose_index SHA ws state = (index_of_weight sums
       (u128_from_le_bytes (take 16 (hash_bytes (SHA state))) mod total_weight) :: (unit, _) res) \<and>
    (\<exists>i < length ws. choose_index SHA ws state = (Ok i :: (unit, _) res) \<and> 0 < ws ! i)"
proof -
  obtain sums t where c: "cumulative_weights 0 ws = (Ok (sums, t) :: (unit, _) res)" "length sums = length ws"
    "unat t = sum_list (map unat ws)" "\<forall>i < length ws. unat (sums ! i) = prefix_weight ws (Suc i)"
    using cumulative_weights_Ok [of 0 ws, where ?'e = unit] assms(2) by auto
  have hit: "(index_of_weight sums (of_nat n) = (Ok i :: (unit, _) res)) =
      (prefix_weight ws i \<le> n \<and> n < prefix_weight ws (Suc i))"
    if "n < sum_list (map unat ws)" for i n
  proof -
    have u: "unat (of_nat n :: u128) = n" using that assms(2) by (simp add: unat_of_nat)
    have "unat (of_nat n :: u128) < prefix_weight ws (length ws)" using that u by (simp add: prefix_weight_def)
    from index_of_weight_partition [OF c(2,4) this, where ?'e = unit] obtain k where
      "index_of_weight sums (of_nat n) = (Ok k :: (unit, _) res)" "prefix_weight ws k \<le> n"
      "n < prefix_weight ws (Suc k)" unfolding u by blast
    then show ?thesis using prefix_weight_unique by auto
  qed
  have "{n. n < sum_list (map unat ws) \<and> index_of_weight sums (of_nat n) = (Ok i :: (unit, _) res)} =
      {prefix_weight ws i..<prefix_weight ws (Suc i)}" if "i < length ws" for i
    using hit prefix_weight_mono [of "Suc i" "length ws" ws] that
    by (auto simp: prefix_weight_def)
  then have card: "\<forall>i < length ws. card {n. n < sum_list (map unat ws) \<and>
      index_of_weight sums (of_nat n) = (Ok i :: (unit, _) res)} = unat (ws ! i)"
    by (simp add: prefix_weight_Suc)
  have "t \<noteq> 0" using c(3) assms(1) by (metis less_irrefl unat_0)
  then have run: "choose_index SHA ws state = (index_of_weight sums
      (u128_from_le_bytes (take 16 (hash_bytes (SHA state))) mod t) :: (unit, _) res)"
    by (simp add: choose_index_def c(1) next_in_range_def)
  from choose_index_Ok [OF assms, of SHA state, where ?'e = unit] obtain i where
    i: "i < length ws" "choose_index SHA ws state = (Ok i :: (unit, _) res)" "prefix_weight ws i < prefix_weight ws (Suc i)"
    by auto
  then have "0 < ws ! i" by (simp add: prefix_weight_Suc word_less_nat_alt)
  with i c card run show ?thesis by blast
qed

theorem weighted_choice_fair_witness:
  "\<exists>i < 3. choose_index (\<lambda>_. 7) [5, 0, 3] [] = (Ok i :: (unit, _) res) \<and> 0 < [5, 0, 3 :: u128] ! i"
proof -
  have "0 < sum_list (map unat [5, 0, 3 :: u128])" "sum_list (map unat [5, 0, 3 :: u128]) < 2 ^ 128" by simp_all
  from weighted_choice_fair [OF this, of "\<lambda>_. 7" "[]"] obtain i where
    "i < length [5, 0, 3 :: u128]" "choose_index (\<lambda>_. 7) [5, 0, 3] [] = (Ok i :: (unit, _) res)"
    "0 < [5, 0, 3 :: u128] ! i" by blast
  then show ?thesis by auto
qed

text \<open>
  The rotation is fair: in any stretch of as many rounds as there are proposers times contiguous rounds, every
  position of the list of proposers has exactly its contiguous rounds.
\<close>

theorem rotation_fair:
  assumes "rp_contiguous_rounds p \<noteq> 0" "rp_proposers p \<noteq> []" "length (rp_proposers p) < 2 ^ 32"
    and "i < length (rp_proposers p)"
    and "start + length (rp_proposers p) * unat (rp_contiguous_rounds p) \<le> 2 ^ 64"
  shows "(\<forall>r. \<exists>j < length (rp_proposers p). rp_get_valid_proposer p r = (Ok (rp_proposers p ! j) :: (unit, _) res) \<and>
      j = unat r div unat (rp_contiguous_rounds p) mod length (rp_proposers p)) \<and>
    card {r. start \<le> r \<and> r < start + length (rp_proposers p) * unat (rp_contiguous_rounds p) \<and>
      unat (of_nat r :: round) div unat (rp_contiguous_rounds p) mod length (rp_proposers p) = i}
    = unat (rp_contiguous_rounds p)"
proof
  let ?c = "unat (rp_contiguous_rounds p)" and ?n = "length (rp_proposers p)"
  have c: "0 < ?c" using assms(1) by (simp add: unat_gt_0)
  have n: "unat (of_nat ?n :: u64) = ?n" using assms(3) by (simp add: unat_of_nat)
  then have n0: "(of_nat ?n :: u64) \<noteq> 0" using assms(2) by (metis length_0_conv unat_0)
  have cu: "unat (ucast (rp_contiguous_rounds p) :: u64) = ?c"
    using unsigned_less [of "rp_contiguous_rounds p", where ?'a = nat]
    by (simp add: unsigned_ucast_eq take_bit_nat_eq_self)
  have lt: "x mod ?n < ?n" for x using assms(2) by simp
  show "\<forall>r. \<exists>j < ?n. rp_get_valid_proposer p r = (Ok (rp_proposers p ! j) :: (unit, _) res) \<and>
      j = unat r div ?c mod ?n"
    using assms(1) n0 n cu lt
    by (simp add: rp_get_valid_proposer_def nth_opt_def unwrap_def unat_mod_distrib unat_div_distrib)
  have "{r. start \<le> r \<and> r < start + ?n * ?c \<and> unat (of_nat r :: round) div ?c mod ?n = i} =
      {r \<in> {start..<start + ?n * ?c}. r div ?c mod ?n = i}"
    using assms(5) by (auto simp: unat_of_nat)
  also have "card \<dots> = ?c" by (rule rotation_count [OF c assms(4)])
  finally show "card {r. start \<le> r \<and> r < start + ?n * ?c \<and> unat (of_nat r :: round) div ?c mod ?n = i} = ?c" .
qed

theorem rotation_fair_witness:
  "card {r. 4 \<le> r \<and> r < 4 + 3 * 2 \<and> unat (of_nat r :: round) div 2 mod 3 = 1} = (2 :: nat)"
  using rotation_fair [of "\<lparr>rp_proposers = [1, 2, 3], rp_contiguous_rounds = 2\<rparr>" 1 4] by simp

section \<open>Accepted proposals\<close>

text \<open>The proposals that the wrapper accepts out of those it is asked about, in order.\<close>

fun accepted_proposals :: "(round \<Rightarrow> ('e, author) res) \<Rightarrow> block list \<Rightarrow> already_proposed \<Rightarrow> block list" where
  "accepted_proposals elect [] st = []"
| "accepted_proposals elect (b # bs) st =
     (case is_valid_proposal elect b st of
        (Ok True, st') \<Rightarrow> b # accepted_proposals elect bs st'
      | (_, st') \<Rightarrow> accepted_proposals elect bs st')"

lemma is_valid_proposal_cases:
  assumes "is_valid_proposal elect b st = (r, st')"
  obtains (accepted) auth where "r = Ok True" "blk_author b = Some auth" "elect (blk_round b) = Ok auth"
      "st' = (blk_round b, blk_id b)" "fst st < blk_round b \<or> st' = st"
  | (rejected) "r \<noteq> Ok True" "st' = st"
  using assms
  by (cases "blk_author b"; cases "elect (blk_round b)")
    (auto simp: is_valid_proposal_def is_valid_proposer_def m_bind_def m_lift_def prod_eq_iff split: if_splits,
      metis)

definition acceptable :: "(round \<Rightarrow> ('e, author) res) \<Rightarrow> already_proposed \<Rightarrow> block \<Rightarrow> bool" where
  "acceptable elect st b \<longleftrightarrow> fst st \<le> blk_round b \<and> (blk_round b = fst st \<longrightarrow> blk_id b = snd st) \<and>
     (\<exists>a. blk_author b = Some a \<and> elect (blk_round b) = Ok a)"

definition follows :: "block \<Rightarrow> block \<Rightarrow> bool" where
  "follows x y \<longleftrightarrow> blk_round x \<le> blk_round y \<and> (blk_round x = blk_round y \<longrightarrow> blk_id x = blk_id y)"

lemma acceptable_after:
  assumes "acceptable elect (blk_round b, blk_id b) x" "fst st < blk_round b \<or> (blk_round b, blk_id b) = st"
  shows "acceptable elect st x" "follows b x"
  using assms by (auto simp: acceptable_def follows_def)

lemma accepted_proposals_facts:
  "list_all (acceptable elect st) (accepted_proposals elect bs st) \<and> sorted_wrt follows (accepted_proposals elect bs st)"
proof (induction bs arbitrary: st)
  case (Cons b bs)
  obtain r st' where run: "is_valid_proposal elect b st = (r, st')" by (metis surj_pair)
  note IH = Cons.IH [of st', unfolded list_all_iff]
  from run show ?case
  proof (cases rule: is_valid_proposal_cases)
    case (accepted auth)
    have "accepted_proposals elect (b # bs) st = b # accepted_proposals elect bs st'"
      using run accepted(1) by simp
    moreover have "acceptable elect st b" using accepted by (auto simp: acceptable_def)
    moreover have "acceptable elect st x \<and> follows b x" if "x \<in> set (accepted_proposals elect bs st')" for x
      using acceptable_after [of elect b x st] bspec [OF conjunct1 [OF IH] that] accepted(5)
      unfolding accepted(4) by blast
    ultimately show ?thesis using IH by (simp add: list_all_iff)
  next
    case rejected
    then have "accepted_proposals elect (b # bs) st = accepted_proposals elect bs st"
      using run by (auto split: res.splits bool.splits)
    with IH rejected(2) show ?thesis by (simp add: list_all_iff)
  qed
qed simp

lemma follows_total:
  "sorted_wrt follows xs \<Longrightarrow> b \<in> set xs \<Longrightarrow> b' \<in> set xs \<Longrightarrow> b = b' \<or> follows b b' \<or> follows b' b"
  by (induction xs) auto

lemma same_round_same_id:
  assumes "sorted_wrt follows xs"
  shows "\<forall>b \<in> set xs. \<forall>b' \<in> set xs. blk_round b = blk_round b' \<longrightarrow> blk_id b = blk_id b'"
proof (intro ballI impI)
  fix b b' assume mem: "b \<in> set xs" "b' \<in> set xs" and eq: "blk_round b = blk_round b'"
  then consider "b = b'" | "follows b b'" | "follows b' b"
    using assms follows_total [of xs] by blast
  then show "blk_id b = blk_id b'" using eq by cases (auto simp: follows_def)
qed

text \<open>
  The contract of an election: it elects one of the candidates. Then the wrapper accepts proposals of candidates only.
\<close>

locale election =
  fixes elect :: "round \<Rightarrow> ('e, author) res" and candidates :: "author set"
  assumes elected: "elect r = Ok a \<Longrightarrow> a \<in> candidates"
begin

lemma accepted_author:
  assumes "b \<in> set (accepted_proposals elect bs st)"
  shows "\<exists>a \<in> candidates. blk_author b = Some a"
  using accepted_proposals_facts [of elect st bs] assms elected by (auto simp: list_all_iff acceptable_def)

end

interpretation rot: election "rp_get_valid_proposer p" "set (rp_proposers p)" for p
  by unfold_locales
    (auto simp: rp_get_valid_proposer_def nth_opt_def unwrap_def split: if_splits)

interpretation rnd: election "rd_get_valid_proposer p" "insert (rd_default_proposer p) (snd ` set (rd_proposers p))" for p
  by unfold_locales
    (auto simp: rd_get_valid_proposer_def split: option.splits dest!: map_of_SomeD intro: rev_image_eqI)

text \<open>
  C22. A replica follows one proposal per round: among all proposals it is asked about, in any order, the ones the wrapper
  accepts come in ascending rounds, those of one round have one id, and each is from the proposer elected for its round,
  with the rotation one of the listed proposers.
\<close>

theorem one_proposal_per_round:
  fixes p :: rotating_proposer and bs :: "block list"
  defines "accepted \<equiv> accepted_proposals (rp_get_valid_proposer p :: round \<Rightarrow> (unit, author) res) bs unequivocal_new"
  shows "sorted_wrt (\<lambda>x y. blk_round x \<le> blk_round y) accepted \<and>
    (\<forall>b \<in> set accepted. \<forall>b' \<in> set accepted. blk_round b = blk_round b' \<longrightarrow> blk_id b = blk_id b') \<and>
    (\<forall>b \<in> set accepted. \<exists>a \<in> set (rp_proposers p).
       blk_author b = Some a \<and> rp_get_valid_proposer p (blk_round b) = (Ok a :: (unit, _) res))"
proof (intro conjI)
  have f: "list_all (acceptable (rp_get_valid_proposer p :: round \<Rightarrow> (unit, author) res) unequivocal_new) accepted"
    "sorted_wrt follows accepted"
    using accepted_proposals_facts unfolding accepted_def by blast+
  show "sorted_wrt (\<lambda>x y. blk_round x \<le> blk_round y) accepted"
    using f(2) by (rule sorted_wrt_mono_rel [rotated]) (simp add: follows_def)
  show "\<forall>b \<in> set accepted. \<forall>b' \<in> set accepted. blk_round b = blk_round b' \<longrightarrow> blk_id b = blk_id b'"
    using f(2) by (rule same_round_same_id)
  show "\<forall>b \<in> set accepted. \<exists>a \<in> set (rp_proposers p).
      blk_author b = Some a \<and> rp_get_valid_proposer p (blk_round b) = (Ok a :: (unit, _) res)"
    using f(1) rot.elected [of p] by (fastforce simp: list_all_iff acceptable_def)
qed

definition two_proposers :: rotating_proposer where
  "two_proposers = \<lparr>rp_proposers = [2, 1], rp_contiguous_rounds = 1\<rparr>"

definition three_proposals :: "block list" where
  "three_proposals = [sample_block 3, (sample_block 3)\<lparr>blk_id := 5\<rparr>, sample_block 3]"

theorem one_proposal_per_round_witness:
  "let accepted = accepted_proposals (rp_get_valid_proposer two_proposers :: round \<Rightarrow> (unit, author) res)
         three_proposals unequivocal_new
   in length accepted = 2 \<and> (\<forall>b \<in> set accepted. \<forall>b' \<in> set accepted. blk_round b = blk_round b' \<longrightarrow> blk_id b = blk_id b')"
proof -
  have "length (accepted_proposals (rp_get_valid_proposer two_proposers :: round \<Rightarrow> (unit, author) res)
      three_proposals unequivocal_new) = 2" by code_simp
  with one_proposal_per_round [of two_proposers three_proposals] show ?thesis unfolding Let_def by blast
qed

section \<open>The cache is transparent\<close>

lemma wf_btree_filter: "wf_btree m \<Longrightarrow> wf_btree (filter P m)"
  by (induction m) (auto simp: wf_btree_def)

lemma set_btree_insert: "wf_btree m \<Longrightarrow> (j, w) \<in> set (btree_insert k v m) \<longleftrightarrow> (if j = k then w = v else (j, w) \<in> set m)"
  by (auto simp flip: wf_btree_map_of wf_btree_map_of [OF wf_btree_insert])

text \<open>The cache holds elected results, sorted by round.\<close>

definition elections_cached :: "(round \<Rightarrow> ('e, 'a) res) \<Rightarrow> 'a cached_proposer_election \<Rightarrow> bool" where
  "elections_cached elect c \<longleftrightarrow> wf_btree (cpe_recent_elections c) \<and>
     (\<forall>(k, a) \<in> set (cpe_recent_elections c). elect k = Ok a)"

fun query_rounds :: "(round \<Rightarrow> ('e, 'a) res) \<Rightarrow> round list \<Rightarrow> 'a cached_proposer_election \<Rightarrow> 'a cached_proposer_election" where
  "query_rounds elect [] c = c"
| "query_rounds elect (r # rs) c = query_rounds elect rs (snd (get_or_compute_entry elect r c))"

lemma get_or_compute_entry_ok:
  assumes "elections_cached elect c"
  shows "fst (get_or_compute_entry elect r c) = elect r" (is ?result)
    and "elections_cached elect (snd (get_or_compute_entry elect r c))" (is ?ok)
    and "cpe_window (snd (get_or_compute_entry elect r c)) = cpe_window c" (is ?window)
    and "fst ` set (cpe_recent_elections (snd (get_or_compute_entry elect r c))) \<subseteq>
      insert r {k \<in> fst ` set (cpe_recent_elections c). of_nat (cpe_window c) < r \<longrightarrow> r - of_nat (cpe_window c) \<le> k}"
      (is ?keys)
proof -
  define kept where "kept = (if r > of_nat (cpe_window c)
    then filter (\<lambda>(k, _). r - of_nat (cpe_window c) \<le> k) (cpe_recent_elections c) else cpe_recent_elections c)"
  have wf: "wf_btree kept" using assms by (auto simp: elections_cached_def kept_def wf_btree_filter)
  have elected: "elect k = Ok a" if "(k, a) \<in> set kept" for k a
    using assms that by (auto simp: elections_cached_def kept_def split: if_splits)
  have keys: "fst ` set kept \<subseteq>
      {k \<in> fst ` set (cpe_recent_elections c). of_nat (cpe_window c) < r \<longrightarrow> r - of_nat (cpe_window c) \<le> k}"
    by (auto simp: kept_def intro: rev_image_eqI)
  have run: "get_or_compute_entry elect r c = (case map_of kept r of
      Some a \<Rightarrow> (Ok a, c\<lparr>cpe_recent_elections := kept\<rparr>)
    | None \<Rightarrow> (case elect r of
        Ok a \<Rightarrow> (Ok a, c\<lparr>cpe_recent_elections := btree_insert r a kept\<rparr>)
      | Err e \<Rightarrow> (Err e, c\<lparr>cpe_recent_elections := kept\<rparr>)
      | Panic \<Rightarrow> (Panic, c\<lparr>cpe_recent_elections := kept\<rparr>)))"
    by (auto simp: kept_def get_or_compute_entry_def Let_def m_bind_def m_lift_def m_modify_def m_return_def
        split: option.splits res.splits)
  have "?result \<and> ?ok \<and> ?window \<and> ?keys"
  proof (cases "map_of kept r")
    case None
    then show ?thesis
      using wf elected keys unfolding run
      by (cases "elect r") (auto simp: elections_cached_def set_btree_insert wf_btree_insert split: if_splits)
  next
    case (Some a)
    with elected [OF map_of_SomeD [OF Some]] wf elected keys show ?thesis
      unfolding run by (auto simp: elections_cached_def)
  qed
  then show ?result ?ok ?window ?keys by blast+
qed

lemma query_rounds_ok:
  assumes "elections_cached elect c"
  shows "elections_cached elect (query_rounds elect rs c) \<and> cpe_window (query_rounds elect rs c) = cpe_window c \<and>
    fst ` set (cpe_recent_elections (query_rounds elect rs c)) \<subseteq> set rs \<union> fst ` set (cpe_recent_elections c)"
  using assms
proof (induction rs arbitrary: c)
  case (Cons r rs)
  note step = get_or_compute_entry_ok [OF Cons.prems, of r]
  let ?c = "snd (get_or_compute_entry elect r c)"
  have "fst ` set (cpe_recent_elections ?c) \<subseteq> insert r (fst ` set (cpe_recent_elections c))"
    using step(4) by blast
  with Cons.IH [OF step(2)] step(3) show ?case by (simp add: subset_iff) blast
qed simp

lemma window_card:
  fixes r :: round
  assumes "K \<subseteq> {k. k \<le> r \<and> (of_nat w < r \<longrightarrow> r - of_nat w \<le> k)}" "w < 2 ^ 64"
  shows "card K \<le> Suc w"
proof -
  have w: "unat (of_nat w :: round) = w" using assms(2) by (simp add: unat_of_nat)
  have "unat ` K \<subseteq> {unat r - w..unat r}"
  proof (rule image_subsetI)
    fix k assume "k \<in> K"
    then have k: "k \<le> r" "of_nat w < r \<longrightarrow> r - of_nat w \<le> k" using assms(1) by auto
    show "unat k \<in> {unat r - w..unat r}"
    proof (cases "of_nat w < r")
      case True
      then have "unat (r - of_nat w) = unat r - w" using w by (simp add: unat_sub)
      with k True show ?thesis by (simp add: word_le_nat_alt)
    next
      case False
      then show ?thesis using k(1) w by (simp add: word_le_nat_alt word_less_nat_alt)
    qed
  qed
  then have "card (unat ` K) \<le> Suc w" using card_mono [of "{unat r - w..unat r}" "unat ` K"] by force
  moreover have "inj_on unat K" by (simp add: inj_on_def unsigned_word_eqI)
  ultimately show ?thesis by (simp add: card_image)
qed

text \<open>
  The cache of elections is transparent and bounded: whatever rounds were asked before, the cached election answers
  as the election it wraps, panics included; and when the round asked is the latest one so far, the cache then holds at
  most one entry more than the window.
\<close>

theorem cached_election_transparent:
  fixes elect :: "round \<Rightarrow> (unit, 'a) res" and rs :: "round list" and w :: nat
  assumes "w < 2 ^ 64"
  defines "c \<equiv> query_rounds elect rs (cpe_new w)"
  shows "fst (get_or_compute_entry elect r c) = elect r \<and>
    (list_all (\<lambda>q. q \<le> r) rs \<longrightarrow> length (cpe_recent_elections (snd (get_or_compute_entry elect r c))) \<le> Suc w)"
proof -
  have "elections_cached elect (cpe_new w)" by (simp add: elections_cached_def cpe_new_def)
  from query_rounds_ok [OF this, of rs] have c: "elections_cached elect c" "cpe_window c = w"
    "fst ` set (cpe_recent_elections c) \<subseteq> set rs"
    by (simp_all add: c_def cpe_new_def)
  note step = get_or_compute_entry_ok [OF c(1), of r]
  let ?m = "cpe_recent_elections (snd (get_or_compute_entry elect r c))"
  have "length ?m \<le> Suc w" if "list_all (\<lambda>q. q \<le> r) rs"
  proof -
    have "fst ` set ?m \<subseteq> {k. k \<le> r \<and> (of_nat w < r \<longrightarrow> r - of_nat w \<le> k)}"
    proof
      fix k assume "k \<in> fst ` set ?m"
      then consider "k = r" | "k \<in> set rs" "of_nat w < r \<longrightarrow> r - of_nat w \<le> k"
        using step(4) c(3) unfolding c(2) by blast
      then show "k \<in> {k. k \<le> r \<and> (of_nat w < r \<longrightarrow> r - of_nat w \<le> k)}"
        using that unat_sub [of "of_nat w" r] by cases (auto simp: list_all_iff word_le_nat_alt word_less_nat_alt)
    qed
    from window_card [OF this assms(1)] have "card (fst ` set ?m) \<le> Suc w" .
    moreover have "distinct (map fst ?m)" using step(2) by (simp add: elections_cached_def wf_btree_distinct)
    ultimately show ?thesis using distinct_card [of "map fst ?m"] by simp
  qed
  with step(1) show ?thesis by blast
qed

theorem cached_election_transparent_witness:
  "let elect = rp_get_valid_proposer two_proposers :: round \<Rightarrow> (unit, author) res
   in length (cpe_recent_elections (snd (get_or_compute_entry elect 9 (query_rounds elect [1, 4, 8] (cpe_new 2))))) \<le> 3"
  using cached_election_transparent [of 2 "rp_get_valid_proposer two_proposers" 9 "[1, 4, 8]"] by simp

end
