(* ===== verification/Leader_Reputation.thy ===== *)
theory Leader_Reputation
  imports Proposer_Election
begin

text \<open>
  The election of leaders by their reputation, \<^verbatim>\<open>consensus/src/liveness/leader_reputation.rs\<close>: the window of committed
  block events that a validator reads from its database and caches, the counts of votes, proposals and failed
  proposals in it, the weights of the candidates, and the choice of the leader. The database reader, the BCS
  decoder and the hash function are arguments; the floating-point participation ratio is computed by an argument.
  A \<^verbatim>\<open>HashMap\<close> is a list of entries, whose order nothing depends on. It is shown that the weights are the documented
  ones, that a leader with positive weight and stake is elected, and that validators agree on it.
\<close>

section \<open>Block events\<close>

record new_block_event =
  nbe_hash :: account_address
  nbe_epoch :: u64
  nbe_round :: u64
  nbe_height :: u64
  nbe_previous_block_votes_bitvec :: "u8 list"
  nbe_proposer :: account_address
  nbe_failed_proposer_indices :: "u64 list"
  nbe_timestamp :: u64

record versioned_new_block_event =
  vne_event :: new_block_event
  vne_version :: u64

record event_with_version =
  ewv_transaction_version :: version
  ewv_event_data :: "u8 list"

record 'd db_reader =
  get_latest_block_events :: "nat \<Rightarrow> ('d, event_with_version list) res"
  get_accumulator_root_hash :: "version \<Rightarrow> ('d, hash_value) res"
  get_latest_ledger_info_version :: "('d, version) res"

record db_backend =
  db_window_size :: nat
  db_seek_len :: nat
  db_result :: "(versioned_new_block_event list \<times> u64 \<times> bool) option"

definition db_backend_new :: "nat \<Rightarrow> nat \<Rightarrow> db_backend" where
  "db_backend_new window_size seek_len =
     \<lparr>db_window_size = window_size, db_seek_len = seek_len, db_result = None\<rparr>"

datatype 'd refresh_error = DbError 'd | DecodeError

definition decode_event ::
    "(u8 list \<Rightarrow> new_block_event option) \<Rightarrow> event_with_version
       \<Rightarrow> ('d refresh_error, versioned_new_block_event) res" where
  "decode_event decode e =
     bind (ok_or DecodeError (decode (ewv_event_data e))) (\<lambda>event.
       Ok \<lparr>vne_event = event, vne_version = ewv_transaction_version e\<rparr>)"

definition refresh_db_result ::
    "'d db_reader \<Rightarrow> (u8 list \<Rightarrow> new_block_event option) \<Rightarrow> u64
       \<Rightarrow> (db_backend, 'd refresh_error, versioned_new_block_event list \<times> u64 \<times> bool) method_res" where
  "refresh_db_result D decode latest_db_version =
     m_bind (m_read (\<lambda>b. bind (assert (db_window_size b + db_seek_len b < 2 ^ 64)) (\<lambda>_.
       Ok (db_window_size b + db_seek_len b)))) (\<lambda>limit.
     m_bind (m_lift (map_err DbError (get_latest_block_events D limit))) (\<lambda>events.
     let max_returned_version = (case events of [] \<Rightarrow> 0 | e # _ \<Rightarrow> ewv_transaction_version e)
     in m_bind (m_lift (try_map (decode_event decode) events)) (\<lambda>new_block_events.
        let result = (new_block_events, max latest_db_version max_returned_version,
              length new_block_events < limit)
        in m_bind (m_modify (\<lambda>b. b\<lparr>db_result := Some result\<rparr>)) (\<lambda>_. m_return result))))"

text \<open>The order of pairs of epoch and round.\<close>

definition position_le :: "u64 \<times> u64 \<Rightarrow> u64 \<times> u64 \<Rightarrow> bool" where
  "position_le p q \<longleftrightarrow> fst p < fst q \<or> fst p = fst q \<and> snd p \<le> snd q"

definition event_position :: "new_block_event \<Rightarrow> u64 \<times> u64" where
  "event_position e = (nbe_epoch e, nbe_round e)"

definition has_larger :: "versioned_new_block_event list \<Rightarrow> u64 \<times> u64 \<Rightarrow> bool" where
  "has_larger events target =
     (case events of [] \<Rightarrow> False | e # _ \<Rightarrow> position_le target (event_position (vne_event e)))"

definition collect_window ::
    "nat \<Rightarrow> u64 \<times> u64 \<Rightarrow> versioned_new_block_event list \<Rightarrow> u64 \<times> new_block_event list" where
  "collect_window window_size target events =
     foldl (\<lambda>(max_version, result) event.
         if position_le (event_position (vne_event event)) target \<and> length result < window_size
         then (max max_version (vne_version event), result @ [vne_event event])
         else (max_version, result)) (0, []) events"

definition get_from_db_result ::
    "'d db_reader \<Rightarrow> u64 \<Rightarrow> round \<Rightarrow> versioned_new_block_event list
       \<Rightarrow> db_backend \<Rightarrow> ('e, new_block_event list \<times> hash_value) res" where
  "get_from_db_result D target_epoch target_round events b =
     (let (max_version, result) = collect_window (db_window_size b) (target_epoch, target_round) events
      in if result = [] then Ok (result, 0)
         else case get_accumulator_root_hash D max_version of
                Ok root_hash \<Rightarrow> Ok (result, root_hash)
              | Err _ \<Rightarrow> Ok (result, 0)
              | Panic \<Rightarrow> Panic)"

text \<open>The cached result is used when it reaches the target or nothing newer is in the database.\<close>

definition from_cached_result ::
    "'d db_reader \<Rightarrow> (u8 list \<Rightarrow> new_block_event option) \<Rightarrow> u64 \<Rightarrow> u64 \<Rightarrow> round
       \<Rightarrow> (db_backend, unit, new_block_event list \<times> hash_value) method_res" where
  "from_cached_result D decode latest_db_version target_epoch target_round b =
     (case db_result b of
        None \<Rightarrow> (Panic, b)
      | Some (events, ver, hit_end) \<Rightarrow>
          if \<not> has_larger events (target_epoch, target_round) \<and> ver < latest_db_version then
            (case refresh_db_result D decode latest_db_version b of
               (Ok (events, ver', hit_end'), b) \<Rightarrow> (get_from_db_result D target_epoch target_round events b, b)
             | (Err e, b) \<Rightarrow> (Ok ([], 0), b)
             | (Panic, b) \<Rightarrow> (Panic, b))
          else (get_from_db_result D target_epoch target_round events b, b))"

definition get_block_metadata ::
    "'d db_reader \<Rightarrow> (u8 list \<Rightarrow> new_block_event option) \<Rightarrow> u64 \<Rightarrow> round
       \<Rightarrow> (db_backend, unit, new_block_event list \<times> hash_value) method_res" where
  "get_block_metadata D decode target_epoch target_round b =
     (case get_latest_ledger_info_version D of
        Panic \<Rightarrow> (Panic, b)
      | latest \<Rightarrow>
          let latest_db_version = (case latest of Ok v \<Rightarrow> v | _ \<Rightarrow> 0)
          in if db_result b = None then
               (case refresh_db_result D decode latest_db_version b of
                  (Ok _, b) \<Rightarrow> from_cached_result D decode latest_db_version target_epoch target_round b
                | (Err e, b) \<Rightarrow> (Ok ([], 0), b)
                | (Panic, b) \<Rightarrow> (Panic, b))
             else from_cached_result D decode latest_db_version target_epoch target_round b)"

section \<open>Counting\<close>

type_synonym candidates_map = "(u64 \<times> author list) list"
type_synonym counts = "(author \<times> 32 word) list"

datatype conversion_error = BucketMismatch nat nat | IndexTooLarge nat nat

record new_block_event_aggregation =
  nba_voter_window_size :: nat
  nba_proposer_window_size :: nat
  nba_reputation_window_from_stale_end :: bool

definition bitvec_to_voters :: "author list \<Rightarrow> bit_vec \<Rightarrow> (conversion_error, author list) res" where
  "bitvec_to_voters validators bitvec =
     (if required_buckets (of_nat (length validators)) \<noteq> num_buckets bitvec
      then Err (BucketMismatch (num_buckets bitvec) (length validators))
      else Ok (map snd (filter (\<lambda>(index, validator). is_set bitvec (of_nat index)) (enumerate 0 validators))))"

definition indices_to_validators :: "author list \<Rightarrow> u64 list \<Rightarrow> (conversion_error, author list) res" where
  "indices_to_validators validators indices =
     try_map (\<lambda>index. ok_or (IndexTooLarge (unat index) (length validators)) (nth_opt validators (unat index))) indices"

definition history_iter ::
    "new_block_event list \<Rightarrow> candidates_map \<Rightarrow> nat \<Rightarrow> bool \<Rightarrow> (unit, new_block_event list) res" where
  "history_iter history epoch_to_candidates window_size from_stale_end =
     bind (if from_stale_end
           then Ok (drop (if length history > window_size then length history - window_size else 0) history)
           else bind (assert (history = [] \<or>
                       position_le (event_position (last history)) (event_position (hd history)))) (\<lambda>_.
                  Ok (take (if length history > window_size then window_size else length history) history)))
       (\<lambda>sub_history. Ok (filter (\<lambda>meta. contains_key (nbe_epoch meta) epoch_to_candidates) sub_history))"

definition count_of :: "counts \<Rightarrow> author \<Rightarrow> 32 word" where
  "count_of m a = (case map_of m a of None \<Rightarrow> 0 | Some c \<Rightarrow> c)"

definition bump :: "counts \<Rightarrow> author \<Rightarrow> (unit, counts) res" where
  "bump m a = bind (unwrap (checked_add (count_of m a) 1)) (\<lambda>c. Ok (btree_insert a c m))"

definition count_vote_event :: "candidates_map \<Rightarrow> counts \<Rightarrow> new_block_event \<Rightarrow> (unit, counts) res" where
  "count_vote_event epoch_to_candidates m meta =
     bind (unwrap (map_of epoch_to_candidates (nbe_epoch meta))) (\<lambda>validators.
     bind (map_err (\<lambda>_. ()) (bv_from_bytes (nbe_previous_block_votes_bitvec meta))) (\<lambda>bitvec.
       case bitvec_to_voters validators bitvec of
         Ok voters \<Rightarrow> try_fold bump m voters
       | Err msg \<Rightarrow> Ok m
       | Panic \<Rightarrow> Panic))"

definition count_votes_custom ::
    "candidates_map \<Rightarrow> new_block_event list \<Rightarrow> nat \<Rightarrow> bool \<Rightarrow> (unit, counts) res" where
  "count_votes_custom epoch_to_candidates history window_size from_stale_end =
     bind (history_iter history epoch_to_candidates window_size from_stale_end)
       (try_fold (count_vote_event epoch_to_candidates) [])"

definition count_votes ::
    "new_block_event_aggregation \<Rightarrow> candidates_map \<Rightarrow> new_block_event list \<Rightarrow> (unit, counts) res" where
  "count_votes agg epoch_to_candidates history =
     count_votes_custom epoch_to_candidates history (nba_voter_window_size agg)
       (nba_reputation_window_from_stale_end agg)"

definition count_proposals_custom ::
    "candidates_map \<Rightarrow> new_block_event list \<Rightarrow> nat \<Rightarrow> bool \<Rightarrow> (unit, counts) res" where
  "count_proposals_custom epoch_to_candidates history window_size from_stale_end =
     bind (history_iter history epoch_to_candidates window_size from_stale_end)
       (try_fold (\<lambda>m meta. bump m (nbe_proposer meta)) [])"

definition count_proposals ::
    "new_block_event_aggregation \<Rightarrow> candidates_map \<Rightarrow> new_block_event list \<Rightarrow> (unit, counts) res" where
  "count_proposals agg epoch_to_candidates history =
     count_proposals_custom epoch_to_candidates history (nba_proposer_window_size agg)
       (nba_reputation_window_from_stale_end agg)"

definition count_failed_event :: "candidates_map \<Rightarrow> counts \<Rightarrow> new_block_event \<Rightarrow> (unit, counts) res" where
  "count_failed_event epoch_to_candidates m meta =
     bind (unwrap (map_of epoch_to_candidates (nbe_epoch meta))) (\<lambda>validators.
       case indices_to_validators validators (nbe_failed_proposer_indices meta) of
         Ok failed_proposers \<Rightarrow> try_fold bump m failed_proposers
       | Err msg \<Rightarrow> Ok m
       | Panic \<Rightarrow> Panic)"

definition count_failed_proposals ::
    "new_block_event_aggregation \<Rightarrow> candidates_map \<Rightarrow> new_block_event list \<Rightarrow> (unit, counts) res" where
  "count_failed_proposals agg epoch_to_candidates history =
     bind (history_iter history epoch_to_candidates (nba_proposer_window_size agg)
        (nba_reputation_window_from_stale_end agg))
       (try_fold (count_failed_event epoch_to_candidates) [])"

text \<open>The sums are only shown by a counter, but computing them can panic.\<close>

definition sum_counts :: "counts \<Rightarrow> (unit, 32 word) res" where
  "sum_counts m = try_fold (\<lambda>s (a, c). unwrap (checked_add s c)) 0 m"

definition get_aggregated_metrics ::
    "new_block_event_aggregation \<Rightarrow> candidates_map \<Rightarrow> new_block_event list
       \<Rightarrow> (unit, counts \<times> counts \<times> counts) res" where
  "get_aggregated_metrics agg epoch_to_candidates history =
     bind (count_votes agg epoch_to_candidates history) (\<lambda>votes.
     bind (count_proposals agg epoch_to_candidates history) (\<lambda>proposals.
     bind (count_failed_proposals agg epoch_to_candidates history) (\<lambda>failed_proposals.
     bind (sum_counts proposals) (\<lambda>_.
     bind (sum_counts failed_proposals) (\<lambda>_.
       Ok (votes, proposals, failed_proposals))))))"

section \<open>Weights\<close>

record proposer_and_voter_heuristic =
  pvh_author :: author
  pvh_active_weight :: u64
  pvh_inactive_weight :: u64
  pvh_failed_weight :: u64
  pvh_failure_threshold_percent :: "32 word"
  pvh_aggregation :: new_block_event_aggregation

definition candidate_weight ::
    "proposer_and_voter_heuristic \<Rightarrow> counts \<times> counts \<times> counts \<Rightarrow> author \<Rightarrow> (unit, u64) res" where
  "candidate_weight h metrics auth =
     (let (votes, proposals, failed_proposals) = metrics;
          cur_votes = count_of votes auth;
          cur_proposals = count_of proposals auth;
          cur_failed_proposals = count_of failed_proposals auth
      in bind (unwrap (checked_mul cur_failed_proposals 100)) (\<lambda>failures.
         bind (unwrap (checked_add cur_proposals cur_failed_proposals)) (\<lambda>rounds.
         bind (unwrap (checked_mul rounds (pvh_failure_threshold_percent h))) (\<lambda>allowed.
           Ok (if failures > allowed then pvh_failed_weight h
               else if cur_proposals > 0 \<or> cur_votes > 0 then pvh_active_weight h
               else pvh_inactive_weight h)))))"

definition get_weights ::
    "proposer_and_voter_heuristic \<Rightarrow> u64 \<Rightarrow> candidates_map \<Rightarrow> new_block_event list \<Rightarrow> (unit, u64 list) res" where
  "get_weights h epoch epoch_to_candidates history =
     bind (assert (contains_key epoch epoch_to_candidates)) (\<lambda>_.
     bind (get_aggregated_metrics (pvh_aggregation h) epoch_to_candidates history) (\<lambda>metrics.
     bind (unwrap (map_of epoch_to_candidates epoch)) (try_map (candidate_weight h metrics))))"

section \<open>The election\<close>

record leader_reputation =
  lr_epoch :: u64
  lr_epoch_to_proposers :: candidates_map
  lr_voting_powers :: "u64 list"
  lr_heuristic :: proposer_and_voter_heuristic
  lr_exclude_round :: u64
  lr_use_root_hash :: bool
  lr_window_for_chain_health :: nat

definition lr_new ::
    "u64 \<Rightarrow> candidates_map \<Rightarrow> u64 list \<Rightarrow> proposer_and_voter_heuristic \<Rightarrow> u64 \<Rightarrow> bool \<Rightarrow> nat
       \<Rightarrow> ('e, leader_reputation) res" where
  "lr_new epoch epoch_to_proposers voting_powers heuristic exclude_round use_root_hash window_for_chain_health =
     bind (assert (contains_key epoch epoch_to_proposers)) (\<lambda>_.
     bind (unwrap (map_of epoch_to_proposers epoch)) (\<lambda>proposers.
     bind (assert (length proposers = length voting_powers)) (\<lambda>_.
       Ok \<lparr>lr_epoch = epoch, lr_epoch_to_proposers = epoch_to_proposers, lr_voting_powers = voting_powers,
           lr_heuristic = heuristic, lr_exclude_round = exclude_round, lr_use_root_hash = use_root_hash,
           lr_window_for_chain_health = window_for_chain_health\<rparr>)))"

definition CHAIN_HEALTH_WINDOW_SIZES :: "nat list" where
  "CHAIN_HEALTH_WINDOW_SIZES = [10, 30, 100, 300]"

text \<open>
  The floating-point operations: \<open>power_sum\<close> adds voting powers converted to \<^verbatim>\<open>f64\<close>, \<open>at_least_one\<close> compares with
  \<^verbatim>\<open>1.0\<close>, which is \<open>ratio_one\<close>, and \<open>power_ratio\<close> divides.
\<close>

record 'f ratio_ops =
  power_sum :: "u64 list \<Rightarrow> 'f"
  at_least_one :: "'f \<Rightarrow> bool"
  power_ratio :: "'f \<Rightarrow> 'f \<Rightarrow> 'f"
  ratio_one :: 'f

definition health_of_window ::
    "'f ratio_ops \<Rightarrow> leader_reputation \<Rightarrow> author list \<Rightarrow> new_block_event list \<Rightarrow> round
       \<Rightarrow> 'f option \<Rightarrow> nat \<Rightarrow> (unit, 'f option) res" where
  "health_of_window F lr candidates history r result participants_window_size =
     (let chosen = (lr_window_for_chain_health lr = participants_window_size);
          sample_fraction = participants_window_size div 10;
          total_voting_power = power_sum F (lr_voting_powers lr)
      in if chosen \<or> sample_fraction \<le> 1 \<or> r mod of_nat sample_fraction = 1 then
           bind (count_votes_custom (lr_epoch_to_proposers lr) history participants_window_size False) (\<lambda>votes.
           bind (count_proposals_custom (lr_epoch_to_proposers lr) history participants_window_size False) (\<lambda>proposals.
           let participants = map fst votes @ map fst proposals;
               participating_voting_power = power_sum F (map snd
                 (filter (\<lambda>(c, vp). c \<in> set participants) (zip candidates (lr_voting_powers lr))))
           in Ok (if chosen
                  then Some (if length history < participants_window_size \<and> lr_epoch lr \<le> 2 then ratio_one F
                             else if at_least_one F total_voting_power
                             then power_ratio F participating_voting_power total_voting_power
                             else ratio_one F)
                  else result)))
         else Ok result)"

definition compute_chain_health ::
    "'f ratio_ops \<Rightarrow> leader_reputation \<Rightarrow> new_block_event list \<Rightarrow> round \<Rightarrow> (unit, 'f) res" where
  "compute_chain_health F lr history r =
     bind (unwrap (map_of (lr_epoch_to_proposers lr) (lr_epoch lr))) (\<lambda>candidates.
     bind (try_fold (health_of_window F lr candidates history r) None CHAIN_HEALTH_WINDOW_SIZES) unwrap)"

definition u64_to_le_bytes :: "u64 \<Rightarrow> u8 list" where
  "u64_to_le_bytes x = map (\<lambda>i. ucast (drop_bit (8 * i) x)) [0..<8]"

definition stake_weights :: "u64 list \<Rightarrow> u64 list \<Rightarrow> (unit, u128 list) res" where
  "stake_weights voting_powers weights =
     try_map (\<lambda>(i, w). bind (unwrap (nth_opt voting_powers i)) (\<lambda>vp. unwrap (checked_mul (ucast w) (ucast vp))))
       (enumerate 0 weights)"

definition election_state :: "leader_reputation \<Rightarrow> hash_value \<Rightarrow> round \<Rightarrow> u8 list" where
  "election_state lr root_hash r =
     (if lr_use_root_hash lr then hash_bytes root_hash @ u64_to_le_bytes (lr_epoch lr) @ u64_to_le_bytes r
      else u64_to_le_bytes (lr_epoch lr) @ u64_to_le_bytes r)"

definition elect_from_window ::
    "(u8 list \<Rightarrow> hash_value) \<Rightarrow> 'f ratio_ops \<Rightarrow> leader_reputation \<Rightarrow> round
       \<Rightarrow> new_block_event list \<times> hash_value \<Rightarrow> (unit, author \<times> 'f) res" where
  "elect_from_window SHA F lr r metadata =
     (let (sliding_window, root_hash) = metadata
      in bind (compute_chain_health F lr sliding_window r) (\<lambda>voting_power_participation_ratio.
         bind (get_weights (lr_heuristic lr) (lr_epoch lr) (lr_epoch_to_proposers lr) sliding_window) (\<lambda>weights.
         bind (unwrap (map_of (lr_epoch_to_proposers lr) (lr_epoch lr))) (\<lambda>proposers.
         bind (assert (length weights = length proposers)) (\<lambda>_.
         bind (stake_weights (lr_voting_powers lr) weights) (\<lambda>stakes.
         bind (choose_index SHA stakes (election_state lr root_hash r)) (\<lambda>chosen_index.
         bind (unwrap (nth_opt proposers chosen_index)) (\<lambda>proposer.
           Ok (proposer, voting_power_participation_ratio)))))))))"

definition lr_get_valid_proposer_and_ratio ::
    "'d db_reader \<Rightarrow> (u8 list \<Rightarrow> new_block_event option) \<Rightarrow> (u8 list \<Rightarrow> hash_value) \<Rightarrow> 'f ratio_ops
       \<Rightarrow> leader_reputation \<Rightarrow> round \<Rightarrow> (db_backend, unit, author \<times> 'f) method_res" where
  "lr_get_valid_proposer_and_ratio D decode SHA F lr r =
     m_bind (get_block_metadata D decode (lr_epoch lr) (saturating_sub r (lr_exclude_round lr)))
       (\<lambda>metadata. m_lift (elect_from_window SHA F lr r metadata))"

definition lr_get_valid_proposer ::
    "'d db_reader \<Rightarrow> (u8 list \<Rightarrow> new_block_event option) \<Rightarrow> (u8 list \<Rightarrow> hash_value) \<Rightarrow> 'f ratio_ops
       \<Rightarrow> leader_reputation \<Rightarrow> round \<Rightarrow> (db_backend, unit, author) method_res" where
  "lr_get_valid_proposer D decode SHA F lr r =
     m_bind (lr_get_valid_proposer_and_ratio D decode SHA F lr r) (\<lambda>(proposer, _). m_return proposer)"

section \<open>The candidates of past epochs\<close>

text \<open>
  The epochs are visited from the last one back; \<open>num_rounds\<close> counts the rounds of those visited, and the first
  visited is compared with the current epoch.
\<close>

datatype extract_error = WrongEpoch u64 u64 | ProposersMisaligned | EpochNotFetched u64 | NoEpochState

fun extract_loop ::
    "u64 \<Rightarrow> author list \<Rightarrow> u64 \<Rightarrow> bool \<Rightarrow> u64 \<Rightarrow> candidates_map \<Rightarrow> (epoch_state \<times> u64) list
       \<Rightarrow> (extract_error, candidates_map) res" where
  "extract_loop epoch proposers needed_rounds is_last num_rounds result [] = Ok result"
| "extract_loop epoch proposers needed_rounds is_last num_rounds result ((next_epoch_state, cur_epoch_rounds) # rest) =
     (let next_epoch_proposers = get_ordered_account_addresses (es_verifier next_epoch_state)
      in bind (if is_last
               then bind (ensure (epoch = es_epoch next_epoch_state) (WrongEpoch epoch (es_epoch next_epoch_state))) (\<lambda>_.
                      ensure (proposers = next_epoch_proposers) ProposersMisaligned)
               else Ok ()) (\<lambda>_.
         let result = btree_insert (es_epoch next_epoch_state) next_epoch_proposers result
         in if num_rounds > needed_rounds then Ok result
            else bind (unwrap (checked_add num_rounds cur_epoch_rounds)) (\<lambda>num_rounds.
              extract_loop epoch proposers needed_rounds False num_rounds result rest)))"

definition extract_epoch_to_proposers_impl ::
    "(epoch_state \<times> u64) list \<Rightarrow> u64 \<Rightarrow> author list \<Rightarrow> u64 \<Rightarrow> (extract_error, candidates_map) res" where
  "extract_epoch_to_proposers_impl states epoch proposers needed_rounds =
     bind (assert (states \<noteq> [])) (\<lambda>_.
     bind (extract_loop epoch proposers needed_rounds True 0 [] (rev states)) (\<lambda>result.
     bind (ensure (contains_key epoch result) (EpochNotFetched epoch)) (\<lambda>_.
       Ok result)))"

definition extract_epoch_to_proposers ::
    "epoch_change_proof \<Rightarrow> u64 \<Rightarrow> author list \<Rightarrow> u64 \<Rightarrow> (extract_error, candidates_map) res" where
  "extract_epoch_to_proposers proof_of_epochs epoch proposers needed_rounds =
     bind (try_map (\<lambda>l. bind (ok_or NoEpochState (li_next_epoch_state (liws_ledger_info l))) (\<lambda>next_epoch_state.
             Ok (next_epoch_state, li_round (liws_ledger_info l)))) (ecp_ledger_info_with_sigs proof_of_epochs))
       (\<lambda>states. extract_epoch_to_proposers_impl states epoch proposers needed_rounds)"

section \<open>The window does not depend on the snapshot\<close>

lemma position_le_total: "\<not> position_le p q \<Longrightarrow> position_le q p"
  by (auto simp: position_le_def)

lemma position_le_trans: "position_le p q \<Longrightarrow> position_le q r \<Longrightarrow> position_le p r"
  by (auto simp: position_le_def)

definition until :: "u64 \<times> u64 \<Rightarrow> versioned_new_block_event \<Rightarrow> bool" where
  "until target e \<longleftrightarrow> position_le (event_position (vne_event e)) target"

text \<open>Committed blocks have ascending positions; the database returns the newest first.\<close>

definition newest_first :: "versioned_new_block_event list \<Rightarrow> bool" where
  "newest_first = sorted_wrt (\<lambda>x y. \<not> position_le (event_position (vne_event x)) (event_position (vne_event y)))"

definition window_until :: "nat \<Rightarrow> u64 \<times> u64 \<Rightarrow> versioned_new_block_event list \<Rightarrow> versioned_new_block_event list" where
  "window_until n target events = take n (filter (until target) events)"

lemma collect_window_fold:
  "length result \<le> n \<Longrightarrow>
   foldl (\<lambda>(max_version, result) event.
       if position_le (event_position (vne_event event)) target \<and> length result < n
       then (max max_version (vne_version event), result @ [vne_event event])
       else (max_version, result)) (v, result) events =
   (foldl max v (map vne_version (take (n - length result) (filter (until target) events))),
    result @ map vne_event (take (n - length result) (filter (until target) events)))"
proof (induction events arbitrary: v result)
  case (Cons e events)
  show ?case
  proof (cases "until target e \<and> length result < n")
    case True
    then obtain k where k: "n - length result = Suc k" "n - Suc (length result) = k"
      by (metis Suc_diff_Suc)
    with True Cons.IH [of "result @ [vne_event e]" "max v (vne_version e)"] show ?thesis
      by (simp add: until_def)
  next
    case False
    then show ?thesis using Cons by (auto simp: until_def)
  qed
qed simp

lemma collect_window_eq:
  "collect_window n target events =
     (foldl max 0 (map vne_version (window_until n target events)), map vne_event (window_until n target events))"
  using collect_window_fold [of "[]" n target 0 events] by (simp add: collect_window_def window_until_def)

lemma newest_first_split:
  assumes "newest_first E"
  shows "filter (until target) E = dropWhile (\<lambda>e. \<not> until target e) E"
    and "filter (\<lambda>e. \<not> until target e) E = takeWhile (\<lambda>e. \<not> until target e) E"
proof -
  have later: "\<forall>y \<in> set ys. until target y" if "newest_first (x # ys)" "until target x" for x ys
    using that by (auto simp: newest_first_def until_def dest: position_le_total intro: position_le_trans)
  have "filter (until target) E = dropWhile (\<lambda>e. \<not> until target e) E \<and>
      filter (\<lambda>e. \<not> until target e) E = takeWhile (\<lambda>e. \<not> until target e) E"
    using assms
  proof (induction E)
    case (Cons x E)
    then have "newest_first E" by (simp add: newest_first_def)
    note IH = Cons.IH [OF this]
    show ?case
    proof (cases "until target x")
      case True
      then have "filter (until target) E = E" "filter (\<lambda>e. \<not> until target e) E = []"
        using later [OF Cons.prems] by (simp_all add: filter_id_conv filter_empty_conv)
      with True show ?thesis by simp
    qed (use IH in simp)
  qed simp
  then show "filter (until target) E = dropWhile (\<lambda>e. \<not> until target e) E"
    "filter (\<lambda>e. \<not> until target e) E = takeWhile (\<lambda>e. \<not> until target e) E" by blast+
qed

lemma window_stable:
  assumes "newest_first E" "k \<le> length (filter (\<lambda>e. \<not> until target e) E)"
    and "length (filter (\<lambda>e. \<not> until target e) (drop k E)) \<le> seek"
  shows "window_until n target (take (n + seek) (drop k E)) = window_until n target E"
proof -
  define G where "G = takeWhile (\<lambda>e. \<not> until target e) E"
  define L where "L = dropWhile (\<lambda>e. \<not> until target e) E"
  have E: "E = G @ L" by (simp add: G_def L_def)
  have G: "\<forall>e \<in> set G. \<not> until target e" by (auto simp: G_def dest: set_takeWhileD)
  have L: "\<forall>e \<in> set L. until target e"
    unfolding L_def newest_first_split(1) [OF assms(1), symmetric] by simp
  have "filter (\<lambda>e. \<not> until target e) G = G" "filter (\<lambda>e. \<not> until target e) L = []"
    using G L by (simp_all add: filter_id_conv filter_empty_conv)
  then have k: "k \<le> length G" using assms(2) by (simp add: E)
  then have drop: "drop k E = drop k G @ L" by (simp add: E)
  have Gk: "filter (\<lambda>e. \<not> until target e) (drop k G) = drop k G" "filter (until target) (drop k G) = []"
    using G in_set_dropD by (fastforce simp: filter_id_conv filter_empty_conv)+
  have short: "length (drop k G) \<le> seek"
    using assms(3) Gk(1) L by (simp add: drop filter_empty_conv)
  have "filter (until target) (take (n + seek) (drop k E)) = take (n + seek - length (drop k G)) L"
  proof -
    have "take (n + seek) (drop k E) = drop k G @ take (n + seek - length (drop k G)) L"
      using short by (simp add: drop)
    moreover have "filter (until target) (take m L) = take m L" for m
      using L by (auto simp: filter_id_conv dest: in_set_takeD)
    ultimately show ?thesis using Gk(2) by simp
  qed
  moreover have "filter (until target) E = L"
    using newest_first_split(1) [OF assms(1), of target] by (simp add: L_def)
  ultimately show ?thesis using short by (simp add: window_until_def min_def)
qed

text \<open>A snapshot whose newest event reaches the target contains all events until it.\<close>

lemma has_larger_take: "has_larger (take m events) target \<Longrightarrow> has_larger events target"
  by (cases events; cases m) (auto simp: has_larger_def)

lemma has_larger_reaches:
  assumes "newest_first E" "has_larger (drop k E) target"
  shows "k \<le> length (filter (\<lambda>e. \<not> until target e) E)"
proof -
  obtain e es where e: "drop k E = e # es" "position_le target (event_position (vne_event e))"
    using assms(2) by (cases "drop k E") (auto simp: has_larger_def)
  have "newest_first (take k E @ e # es)" using assms(1) e(1) by (metis append_take_drop_id)
  then have "\<not> until target x" if "x \<in> set (take k E)" for x
    using that e(2) by (auto simp: newest_first_def sorted_wrt_append until_def intro: position_le_trans)
  then have "filter (\<lambda>e. \<not> until target e) (take k E) = take k E" by (auto simp: filter_id_conv)
  moreover have "k \<le> length E" using e(1) by (metis drop_all list.distinct(1) nat_le_linear)
  ultimately have "k = length (filter (\<lambda>e. \<not> until target e) (take k E))" by simp
  also have "\<dots> \<le> length (filter (\<lambda>e. \<not> until target e) E)"
    by (metis append_take_drop_id filter_append le_add1 length_append)
  finally show ?thesis .
qed

text \<open>
  What a validator's database and cache hold: \<open>E\<close> are all committed events, newest first, of which the database has
  all but the \<open>k\<close> newest. The cache is an earlier snapshot; when its version is not behind the database it is the
  current one.
\<close>

definition serves ::
    "(u8 list \<Rightarrow> new_block_event option) \<Rightarrow> 'd db_reader \<Rightarrow> versioned_new_block_event list \<Rightarrow> bool" where
  "serves decode D E \<longleftrightarrow> (\<forall>n. \<exists>evs. get_latest_block_events D n = Ok evs \<and>
     list_all2 (\<lambda>e v. decode (ewv_event_data e) = Some (vne_event v) \<and> ewv_transaction_version e = vne_version v)
       evs (take n E))"

definition backend_view ::
    "(u8 list \<Rightarrow> new_block_event option) \<Rightarrow> 'd db_reader \<Rightarrow> u64 \<Rightarrow> versioned_new_block_event list \<Rightarrow> nat
       \<Rightarrow> db_backend \<Rightarrow> bool" where
  "backend_view decode D latest E k b \<longleftrightarrow> serves decode D (drop k E) \<and> get_latest_ledger_info_version D = Ok latest \<and>
     db_window_size b + db_seek_len b < 2 ^ 64 \<and>
     (case db_result b of
        None \<Rightarrow> True
      | Some (events, ver, _) \<Rightarrow> \<exists>k' \<ge> k. events = take (db_window_size b + db_seek_len b) (drop k' E) \<and>
          (latest \<le> ver \<longrightarrow> k' = k))"

lemma refresh_db_result_Ok:
  fixes D :: "'d db_reader"
  assumes "serves decode D E" "db_window_size b + db_seek_len b < 2 ^ 64"
  shows "\<exists>ver hit. latest \<le> ver \<and>
    refresh_db_result D decode latest b =
      (Ok (take (db_window_size b + db_seek_len b) E, ver, hit),
       b\<lparr>db_result := Some (take (db_window_size b + db_seek_len b) E, ver, hit)\<rparr>)"
proof -
  let ?limit = "db_window_size b + db_seek_len b"
  obtain evs where evs: "get_latest_block_events D ?limit = Ok evs"
    "list_all2 (\<lambda>e v. decode (ewv_event_data e) = Some (vne_event v) \<and> ewv_transaction_version e = vne_version v)
      evs (take ?limit E)"
    using assms(1) by (auto simp: serves_def)
  have "try_map (decode_event decode) evs = (Ok (take ?limit E) :: ('d refresh_error, _) res)"
    unfolding try_map_Ok using evs(2)
    by (rule list_all2_mono) (auto simp: decode_event_def ok_or_def)
  with evs(1) assms(2) show ?thesis
    by (intro exI [of _ "max latest (case evs of [] \<Rightarrow> 0 | e # _ \<Rightarrow> ewv_transaction_version e)"]
        exI [of _ "length (take ?limit E) < ?limit"])
      (simp add: refresh_db_result_def m_bind_def m_read_def m_lift_def m_modify_def m_return_def Let_def assert_def)
qed

lemma get_from_db_result_snapshot:
  assumes "newest_first E" "has_larger (drop k E) (te, tr)" "k \<le> j" "j = k \<or> has_larger (drop j E) (te, tr)"
    and "length (filter (\<lambda>e. \<not> until (te, tr) e) (drop k E)) \<le> db_seek_len b"
  shows "get_from_db_result D te tr (take (db_window_size b + db_seek_len b) (drop j E)) b =
    get_from_db_result D te tr E b"
proof -
  have "drop j E = drop (j - k) (drop k E)" using assms(3) by simp
  then have "filter (\<lambda>e. \<not> until (te, tr) e) (drop k E) =
      filter (\<lambda>e. \<not> until (te, tr) e) (take (j - k) (drop k E)) @ filter (\<lambda>e. \<not> until (te, tr) e) (drop j E)"
    by (metis append_take_drop_id filter_append)
  then have "length (filter (\<lambda>e. \<not> until (te, tr) e) (drop j E)) \<le> db_seek_len b" using assms(5) by simp
  moreover have "j \<le> length (filter (\<lambda>e. \<not> until (te, tr) e) E)"
    using has_larger_reaches [OF assms(1)] assms(2,4) by blast
  ultimately show ?thesis
    using window_stable [OF assms(1)] by (simp add: get_from_db_result_def collect_window_eq)
qed

text \<open>
  When the database has reached the target and is not further ahead of it than the seek length, the answer is the one
  that the whole history gives.
\<close>

lemma get_block_metadata_eq:
  assumes "newest_first E" "backend_view decode D latest E k b" "has_larger (drop k E) (te, tr)"
    and "length (filter (\<lambda>e. \<not> until (te, tr) e) (drop k E)) \<le> db_seek_len b"
  shows "fst (get_block_metadata D decode te tr b) = get_from_db_result D te tr E b \<and>
    backend_view decode D latest E k (snd (get_block_metadata D decode te tr b))"
proof -
  let ?limit = "db_window_size b + db_seek_len b"
  note view = assms(2) [unfolded backend_view_def]
  obtain ver hit where fresh: "latest \<le> ver"
    "refresh_db_result D decode latest b =
      (Ok (take ?limit (drop k E), ver, hit), b\<lparr>db_result := Some (take ?limit (drop k E), ver, hit)\<rparr>)"
    using refresh_db_result_Ok [of decode D "drop k E" b latest] view by blast
  let ?b = "b\<lparr>db_result := Some (take ?limit (drop k E), ver, hit)\<rparr>"
  have frame: "get_from_db_result D te tr es (c\<lparr>db_result := x\<rparr>) = get_from_db_result D te tr es c" for es c x
    by (simp add: get_from_db_result_def)
  have view': "backend_view decode D latest E k ?b" using view by (auto simp: backend_view_def)
  have now: "get_from_db_result D te tr (take ?limit (drop k E)) b = get_from_db_result D te tr E b"
    using get_from_db_result_snapshot [OF assms(1,3) order_refl _ assms(4)] by blast
  show ?thesis
  proof (cases "db_result b")
    case None
    then have "get_block_metadata D decode te tr b = from_cached_result D decode latest te tr ?b"
      using view fresh(2) by (simp add: get_block_metadata_def)
    also have "\<dots> = (get_from_db_result D te tr (take ?limit (drop k E)) ?b, ?b)"
      using leD [OF fresh(1)] by (simp add: from_cached_result_def)
    finally show ?thesis using now view' by (simp add: frame)
  next
    case (Some cached)
    obtain events v h where cached: "cached = (events, v, h)" by (metis prod_cases3)
    then obtain k' where k': "k \<le> k'" "events = take ?limit (drop k' E)" "latest \<le> v \<longrightarrow> k' = k"
      using view Some by auto
    have run: "get_block_metadata D decode te tr b = from_cached_result D decode latest te tr b"
      using view Some by (simp add: get_block_metadata_def)
    show ?thesis
    proof (cases "\<not> has_larger events (te, tr) \<and> v < latest")
      case True
      then have "from_cached_result D decode latest te tr b =
          (get_from_db_result D te tr (take ?limit (drop k E)) ?b, ?b)"
        unfolding from_cached_result_def Some cached option.case prod.case fresh(2) res.case by simp
      then show ?thesis using now view' run by (simp add: frame)
    next
      case False
      then have "k' = k \<or> has_larger (drop k' E) (te, tr)"
        using k'(3) has_larger_take [of ?limit "drop k' E" "(te, tr)"] unfolding k'(2) by fastforce
      then have same: "get_from_db_result D te tr events b = get_from_db_result D te tr E b"
        unfolding k'(2) by (rule get_from_db_result_snapshot [OF assms(1,3) k'(1) _ assms(4)])
      have "from_cached_result D decode latest te tr b = (get_from_db_result D te tr events b, b)"
        unfolding from_cached_result_def Some cached option.case prod.case using False by argo
      then show ?thesis unfolding run using same assms(2) by simp
    qed
  qed
qed

section \<open>The counts are exact\<close>

definition voters_of :: "candidates_map \<Rightarrow> new_block_event \<Rightarrow> author list" where
  "voters_of epoch_to_candidates meta =
     (case map_of epoch_to_candidates (nbe_epoch meta) of
        None \<Rightarrow> []
      | Some validators \<Rightarrow>
          (case bitvec_to_voters validators \<lparr>inner = nbe_previous_block_votes_bitvec meta\<rparr> of
             Ok voters \<Rightarrow> voters | _ \<Rightarrow> []))"

definition failed_of :: "candidates_map \<Rightarrow> new_block_event \<Rightarrow> author list" where
  "failed_of epoch_to_candidates meta =
     (case map_of epoch_to_candidates (nbe_epoch meta) of
        None \<Rightarrow> []
      | Some validators \<Rightarrow>
          (case indices_to_validators validators (nbe_failed_proposer_indices meta) of
             Ok failed_proposers \<Rightarrow> failed_proposers | _ \<Rightarrow> []))"

definition window_history :: "new_block_event list \<Rightarrow> candidates_map \<Rightarrow> nat \<Rightarrow> bool \<Rightarrow> new_block_event list" where
  "window_history history epoch_to_candidates n from_stale_end =
     filter (\<lambda>meta. contains_key (nbe_epoch meta) epoch_to_candidates)
       (if from_stale_end then drop (length history - n) history else take n history)"

definition ordered_ends :: "new_block_event list \<Rightarrow> bool" where
  "ordered_ends history \<longleftrightarrow>
     history = [] \<or> position_le (event_position (last history)) (event_position (hd history))"

lemma history_iter_Ok:
  "stale \<or> ordered_ends history \<Longrightarrow> history_iter history etc n stale = Ok (window_history history etc n stale)"
  by (auto simp: history_iter_def window_history_def ordered_ends_def assert_def)

text \<open>The counts \<open>m\<close> are those of the authors in a list.\<close>

definition counts_as :: "counts \<Rightarrow> author list \<Rightarrow> bool" where
  "counts_as m as \<longleftrightarrow> wf_btree m \<and> (\<forall>a. unat (count_of m a) = count_list as a) \<and>
     sum_list (map (\<lambda>(_, c). unat c) m) = length as"

lemma counts_as_Nil [simp]: "counts_as [] []"
  by (simp add: counts_as_def count_of_def)

lemma map_of_below: "wf_btree ((k', v) # m) \<Longrightarrow> k < k' \<Longrightarrow> map_of m k = None"
  by (force simp: wf_btree_def map_of_eq_None_iff)

lemma sum_btree_insert:
  "wf_btree m \<Longrightarrow> sum_list (map (\<lambda>(_, c). unat c) (btree_insert k v m)) + unat (count_of m k) =
     sum_list (map (\<lambda>(_, c). unat c) m) + unat v"
proof (induction k v m rule: btree_insert.induct)
  case (2 k v k' v' m)
  then show ?case
    using map_of_below [OF 2(2), of k] by (auto simp: count_of_def wf_btree_def)
qed (simp add: count_of_def)

lemma bump_counts:
  assumes "counts_as m as" "length as + 1 < 2 ^ 32"
  shows "\<exists>m'. bump m a = Ok m' \<and> counts_as m' (as @ [a])"
proof -
  have "count_list as a \<le> length as" by (rule count_le_length)
  then have small: "unat (count_of m a) + 1 < 2 ^ 32" using assms by (simp add: counts_as_def)
  then have plus: "unat (count_of m a + 1) = unat (count_of m a) + 1"
    by (simp add: unat_word_ariths)
  have "bump m a = Ok (btree_insert a (count_of m a + 1) m)"
    using small by (simp add: bump_def checked_add_def unwrap_def)
  moreover have "counts_as (btree_insert a (count_of m a + 1) m) (as @ [a])"
    using assms(1) plus sum_btree_insert [of m a "count_of m a + 1"]
    by (auto simp: counts_as_def wf_btree_insert count_of_def split: option.splits)
  ultimately show ?thesis by blast
qed

lemma bumps_counts:
  "counts_as m as \<Longrightarrow> length as + length xs < 2 ^ 32 \<Longrightarrow>
     \<exists>m'. try_fold bump m xs = Ok m' \<and> counts_as m' (as @ xs)"
proof (induction xs arbitrary: m as)
  case (Cons x xs)
  then obtain m' where "bump m x = Ok m'" "counts_as m' (as @ [x])"
    using bump_counts [of m as x] by auto
  with Cons.IH [of m' "as @ [x]"] Cons.prems(2) show ?case by auto
qed auto

lemma events_counts:
  assumes "\<And>m meta. meta \<in> set metas \<Longrightarrow> step m meta = try_fold bump m (f meta)"
    and "counts_as m as" "length as + length (concat (map f metas)) < 2 ^ 32"
  shows "\<exists>m'. try_fold step m metas = Ok m' \<and> counts_as m' (as @ concat (map f metas))"
  using assms
proof (induction metas arbitrary: m as)
  case (Cons meta metas)
  then obtain m' where "try_fold bump m (f meta) = Ok m'" "counts_as m' (as @ f meta)"
    using bumps_counts [of m as "f meta"] by auto
  with Cons.IH [of m' "as @ f meta"] Cons.prems(1,3) show ?case by auto
qed auto

lemma sum_counts_Ok:
  assumes "counts_as m as" "length as < 2 ^ 32"
  shows "\<exists>s. sum_counts m = Ok s"
proof -
  have "unat s + sum_list (map (\<lambda>(_, c). unat c) m) < 2 ^ 32 \<Longrightarrow>
      \<exists>s'. try_fold (\<lambda>s (a, c). unwrap (checked_add s c)) s m = (Ok s' :: (unit, _) res)" for s :: "32 word" and m :: counts
  proof (induction m arbitrary: s)
    case (Cons e m)
    obtain a c where e: "e = (a, c)" by fastforce
    from Cons.prems have small: "unat s + unat c < 2 ^ 32" by (simp add: e)
    then have "unat (s + c) = unat s + unat c" by (simp add: unat_word_ariths)
    with Cons.IH [of "s + c"] Cons.prems small show ?case
      by (simp add: e checked_add_def unwrap_def)
  qed simp
  from this [of 0 m] assms show ?thesis by (simp add: sum_counts_def counts_as_def)
qed

text \<open>
  What a history records, and that it is small enough for the 32-bit counts and their multiples to be exact; the bit
  vectors are within the size that the conversion accepts.
\<close>

definition records :: "candidates_map \<Rightarrow> new_block_event list \<Rightarrow> nat" where
  "records etc history = sum_list (map (\<lambda>m. length (voters_of etc m) + 1 + length (failed_of etc m)) history)"

definition countable_history :: "candidates_map \<Rightarrow> nat \<Rightarrow> new_block_event list \<Rightarrow> bool" where
  "countable_history etc factor history \<longleftrightarrow>
     list_all (\<lambda>m. length (nbe_previous_block_votes_bitvec m) \<le> MAX_BUCKETS) history \<and>
     records etc history * max 100 factor < 2 ^ 32"

lemma records_append: "records etc (xs @ ys) = records etc xs + records etc ys"
  by (simp add: records_def)

lemma records_filter: "records etc (filter P xs) \<le> records etc xs"
  by (induction xs) (auto simp: records_def)

lemma records_window: "records etc (window_history history etc n stale) \<le> records etc history"
proof -
  have "records etc (take n history) \<le> records etc history" "records etc (drop n history) \<le> records etc history" for n
    using records_append [of etc "take n history" "drop n history"] by simp_all
  then show ?thesis unfolding window_history_def
    by (meson order_trans records_filter if_splits)
qed

lemma length_recorded:
  "length (concat (map (voters_of etc) xs)) \<le> records etc xs"
  "length (map nbe_proposer xs) + length (concat (map (failed_of etc) xs)) \<le> records etc xs"
  by (induction xs) (auto simp: records_def)

lemma records_small:
  assumes "countable_history etc factor history"
  shows "records etc (window_history history etc n stale) * max 100 factor < 2 ^ 32"
    and "records etc (window_history history etc n stale) < 2 ^ 32"
proof -
  let ?r = "records etc (window_history history etc n stale)"
  have "?r * max 100 factor \<le> records etc history * max 100 factor"
    using records_window by (rule mult_le_mono1)
  also have "\<dots> < 2 ^ 32" using assms unfolding countable_history_def by blast
  finally show small: "?r * max 100 factor < 2 ^ 32" .
  have "?r \<le> ?r * max 100 factor" by (simp add: le_max_iff_disj)
  with small show "?r < 2 ^ 32" by (rule order_le_less_trans [rotated])
qed

lemma window_history_known:
  assumes "meta \<in> set (window_history history etc n stale)"
  shows "meta \<in> set history" "\<exists>validators. map_of etc (nbe_epoch meta) = Some validators"
  using assms by (auto simp: window_history_def contains_key_def dest: in_set_takeD in_set_dropD split: if_splits)

lemma count_vote_event_bump:
  assumes "map_of etc (nbe_epoch meta) = Some validators" "length (nbe_previous_block_votes_bitvec meta) \<le> MAX_BUCKETS"
  shows "count_vote_event etc m meta = try_fold bump m (voters_of etc meta)"
  using assms
  by (simp add: count_vote_event_def voters_of_def unwrap_def bv_from_bytes_def assert_def bitvec_to_voters_def)

lemma count_failed_event_bump:
  assumes "map_of etc (nbe_epoch meta) = Some validators"
  shows "count_failed_event etc m meta = try_fold bump m (failed_of etc meta)"
proof -
  have "indices_to_validators validators ixs \<noteq> Panic" for ixs
    by (auto simp: indices_to_validators_def ok_or_def split: option.splits dest: try_map_Panic)
  then show ?thesis
    using assms by (auto simp: count_failed_event_def failed_of_def unwrap_def split: res.splits)
qed

lemma count_votes_custom_Ok:
  assumes "countable_history etc factor history" "stale \<or> ordered_ends history"
  shows "\<exists>m. count_votes_custom etc history n stale = Ok m \<and>
    counts_as m (concat (map (voters_of etc) (window_history history etc n stale)))"
proof -
  let ?w = "window_history history etc n stale"
  have step: "count_vote_event etc m meta = try_fold bump m (voters_of etc meta)" if meta: "meta \<in> set ?w" for m meta
  proof -
    have "length (nbe_previous_block_votes_bitvec meta) \<le> MAX_BUCKETS"
      using assms(1) window_history_known(1) [OF meta] by (auto simp: countable_history_def list_all_iff)
    then show ?thesis using window_history_known(2) [OF meta] count_vote_event_bump by blast
  qed
  have "length (concat (map (voters_of etc) ?w)) < 2 ^ 32"
    using length_recorded(1) records_small(2) [OF assms(1)] by (rule order_le_less_trans)
  from events_counts [OF step counts_as_Nil, simplified list.size add_0 append_Nil, OF _ this]
  show ?thesis using history_iter_Ok [OF assms(2)] by (simp add: count_votes_custom_def)
qed

lemma count_proposals_custom_Ok:
  assumes "countable_history etc factor history" "stale \<or> ordered_ends history"
  shows "\<exists>m. count_proposals_custom etc history n stale = Ok m \<and>
    counts_as m (map nbe_proposer (window_history history etc n stale))"
proof -
  let ?w = "window_history history etc n stale"
  have "length (concat (map (\<lambda>meta. [nbe_proposer meta]) ?w)) < 2 ^ 32"
    using length_recorded(2) [of ?w etc] records_small(2) [OF assms(1), of n stale] by (simp add: length_concat comp_def)
  then have "length ([] :: author list) + length (concat (map (\<lambda>meta. [nbe_proposer meta]) ?w)) < 2 ^ 32"
    by simp
  moreover have "bump m (nbe_proposer meta) = try_fold bump m [nbe_proposer meta]" for m and meta :: new_block_event
    by (cases "bump m (nbe_proposer meta)") simp_all
  ultimately obtain m where m: "try_fold (\<lambda>m meta. bump m (nbe_proposer meta)) [] ?w = Ok m"
    "counts_as m ([] @ concat (map (\<lambda>meta. [nbe_proposer meta]) ?w))"
    using events_counts [of ?w "\<lambda>m meta. bump m (nbe_proposer meta)" "\<lambda>meta. [nbe_proposer meta]" "[]" "[]"]
      counts_as_Nil by blast
  from m(2) have "counts_as m (map nbe_proposer ?w)" by simp
  with m(1) show ?thesis using history_iter_Ok [OF assms(2)] by (simp add: count_proposals_custom_def)
qed

lemma count_failed_proposals_Ok:
  assumes "countable_history etc factor history" "nba_reputation_window_from_stale_end agg \<or> ordered_ends history"
  shows "\<exists>m. count_failed_proposals agg etc history = Ok m \<and>
    counts_as m (concat (map (failed_of etc) (window_history history etc (nba_proposer_window_size agg)
      (nba_reputation_window_from_stale_end agg))))"
proof -
  let ?w = "window_history history etc (nba_proposer_window_size agg) (nba_reputation_window_from_stale_end agg)"
  have step: "count_failed_event etc m meta = try_fold bump m (failed_of etc meta)" if "meta \<in> set ?w" for m meta
    using window_history_known(2) [OF that] count_failed_event_bump by blast
  have "length (concat (map (failed_of etc) ?w)) < 2 ^ 32"
    using length_recorded(2) [of ?w etc] records_small(2) [OF assms(1)] by (meson add_leD2 order_le_less_trans)
  from events_counts [OF step counts_as_Nil, simplified list.size add_0 append_Nil, OF _ this]
  show ?thesis using history_iter_Ok [OF assms(2)] by (simp add: count_failed_proposals_def)
qed

section \<open>The weights are the documented ones\<close>

text \<open>
  The reference: with the votes in the voter window and the successful and failed proposals in the proposer window, a
  failure rate strictly above the threshold gives the failed weight, otherwise no proposal and no vote gives the
  inactive weight, otherwise the active weight.
\<close>

definition reference_weight ::
    "proposer_and_voter_heuristic \<Rightarrow> candidates_map \<Rightarrow> new_block_event list \<Rightarrow> author \<Rightarrow> u64" where
  "reference_weight h etc history a =
     (let agg = pvh_aggregation h; stale = nba_reputation_window_from_stale_end agg;
          voter_window = window_history history etc (nba_voter_window_size agg) stale;
          proposer_window = window_history history etc (nba_proposer_window_size agg) stale;
          votes = count_list (concat (map (voters_of etc) voter_window)) a;
          proposals = count_list (map nbe_proposer proposer_window) a;
          failures = count_list (concat (map (failed_of etc) proposer_window)) a
      in if failures * 100 > (proposals + failures) * unat (pvh_failure_threshold_percent h) then pvh_failed_weight h
         else if proposals = 0 \<and> votes = 0 then pvh_inactive_weight h
         else pvh_active_weight h)"

lemma factor_bounds:
  assumes "(p + f) * max 100 t < (n :: nat)"
  shows "(p + f) * t < n \<and> f * 100 < n \<and> p + f < n"
proof -
  have "(p + f) * t \<le> (p + f) * max 100 t" "f * 100 \<le> (p + f) * max 100 t" "p + f \<le> (p + f) * max 100 t"
    by (simp, intro mult_le_mono, simp_all add: le_max_iff_disj)
  with assms show ?thesis by linarith
qed

lemma candidate_weight_Ok:
  assumes "counts_as votes V" "counts_as proposals P" "counts_as failed_proposals F"
    and "(length P + length F) * max 100 (unat (pvh_failure_threshold_percent h)) < 2 ^ 32"
  shows "candidate_weight h (votes, proposals, failed_proposals) a =
    Ok (if count_list F a * 100 > (count_list P a + count_list F a) * unat (pvh_failure_threshold_percent h)
        then pvh_failed_weight h
        else if count_list P a = 0 \<and> count_list V a = 0 then pvh_inactive_weight h
        else pvh_active_weight h)"
proof -
  let ?t = "pvh_failure_threshold_percent h" and ?v = "count_of votes a" and ?p = "count_of proposals a"
    and ?f = "count_of failed_proposals a"
  have counts: "unat ?v = count_list V a" "unat ?p = count_list P a" "unat ?f = count_list F a"
    using assms(1-3) by (simp_all add: counts_as_def)
  have le: "count_list P a + count_list F a \<le> length P + length F"
    by (intro add_mono count_le_length)
  have "(count_list P a + count_list F a) * max 100 (unat ?t) < 2 ^ 32"
    using mult_le_mono1 [OF le] assms(4) by (rule order_le_less_trans)
  from factor_bounds [OF this]
  have small: "(unat ?p + unat ?f) * unat ?t < 2 ^ 32" "unat ?f * 100 < 2 ^ 32" "unat ?p + unat ?f < 2 ^ 32"
    unfolding counts by blast+
  have "unat (?f * 100) = unat ?f * 100" "unat (?p + ?f) = unat ?p + unat ?f"
    using small(2,3) by (simp_all add: unat_word_ariths)
  note u = this
  have ut: "unat ((?p + ?f) * ?t) = (unat ?p + unat ?f) * unat ?t"
    using small(1) unfolding u(2) [symmetric] by (simp add: unat_word_ariths)
  have steps: "checked_mul ?f 100 = Some (?f * 100)" "checked_add ?p ?f = Some (?p + ?f)"
    "checked_mul (?p + ?f) ?t = Some ((?p + ?f) * ?t)"
    using small u(2) by (simp_all add: checked_mul_def checked_add_def)
  have less: "(?p + ?f) * ?t < ?f * 100 \<longleftrightarrow>
      (count_list P a + count_list F a) * unat ?t < count_list F a * 100"
    unfolding word_less_nat_alt ut u(1) counts ..
  have active: "?p > 0 \<or> ?v > 0 \<longleftrightarrow> \<not> (count_list P a = 0 \<and> count_list V a = 0)"
    unfolding word_less_nat_alt counts by simp
  show ?thesis
    unfolding candidate_weight_def Let_def prod.case steps unwrap_def option.case bind.simps less active
    by simp
qed

lemma get_aggregated_metrics_Ok:
  assumes "countable_history etc factor history" "nba_reputation_window_from_stale_end agg \<or> ordered_ends history"
  shows "\<exists>votes proposals failed_proposals.
    get_aggregated_metrics agg etc history = Ok (votes, proposals, failed_proposals) \<and>
    counts_as votes (concat (map (voters_of etc) (window_history history etc (nba_voter_window_size agg)
      (nba_reputation_window_from_stale_end agg)))) \<and>
    counts_as proposals (map nbe_proposer (window_history history etc (nba_proposer_window_size agg)
      (nba_reputation_window_from_stale_end agg))) \<and>
    counts_as failed_proposals (concat (map (failed_of etc) (window_history history etc (nba_proposer_window_size agg)
      (nba_reputation_window_from_stale_end agg))))"
proof -
  let ?s = "nba_reputation_window_from_stale_end agg"
  let ?w = "window_history history etc (nba_proposer_window_size agg) ?s"
  obtain votes where v: "count_votes agg etc history = Ok votes"
    "counts_as votes (concat (map (voters_of etc) (window_history history etc (nba_voter_window_size agg) ?s)))"
    using count_votes_custom_Ok [OF assms] by (auto simp: count_votes_def)
  obtain proposals where p: "count_proposals agg etc history = Ok proposals" "counts_as proposals (map nbe_proposer ?w)"
    using count_proposals_custom_Ok [OF assms] by (auto simp: count_proposals_def)
  obtain failed where f: "count_failed_proposals agg etc history = Ok failed"
    "counts_as failed (concat (map (failed_of etc) ?w))"
    using count_failed_proposals_Ok [OF assms] by blast
  have "length (map nbe_proposer ?w) + length (concat (map (failed_of etc) ?w)) < 2 ^ 32"
    using length_recorded(2) records_small(2) [OF assms(1)] by (rule order_le_less_trans)
  then have "length (map nbe_proposer ?w) < 2 ^ 32" "length (concat (map (failed_of etc) ?w)) < 2 ^ 32" by linarith+
  then obtain s s' where "sum_counts proposals = Ok s" "sum_counts failed = Ok s'"
    using sum_counts_Ok [OF p(2)] sum_counts_Ok [OF f(2)] by blast
  with v p f show ?thesis by (auto simp: get_aggregated_metrics_def)
qed

lemma get_weights_Ok:
  assumes "map_of etc epoch = Some candidates"
    and "countable_history etc (unat (pvh_failure_threshold_percent h)) history"
    and "nba_reputation_window_from_stale_end (pvh_aggregation h) \<or> ordered_ends history"
  shows "get_weights h epoch etc history = Ok (map (reference_weight h etc history) candidates)"
proof -
  let ?agg = "pvh_aggregation h"
  let ?w = "window_history history etc (nba_proposer_window_size ?agg) (nba_reputation_window_from_stale_end ?agg)"
  obtain votes proposals failed where m: "get_aggregated_metrics ?agg etc history = Ok (votes, proposals, failed)"
    "counts_as votes (concat (map (voters_of etc) (window_history history etc (nba_voter_window_size ?agg)
      (nba_reputation_window_from_stale_end ?agg))))"
    "counts_as proposals (map nbe_proposer ?w)" "counts_as failed (concat (map (failed_of etc) ?w))"
    using get_aggregated_metrics_Ok [OF assms(2,3)] by blast
  have "(length (map nbe_proposer ?w) + length (concat (map (failed_of etc) ?w))) *
      max 100 (unat (pvh_failure_threshold_percent h)) < 2 ^ 32"
    using mult_le_mono1 [OF length_recorded(2)] records_small(1) [OF assms(2)] by (rule order_le_less_trans)
  from candidate_weight_Ok [OF m(2-4) this]
  have "candidate_weight h (votes, proposals, failed) a = Ok (reference_weight h etc history a)" for a
    by (simp add: reference_weight_def Let_def)
  then show ?thesis
    using m(1) assms(1) by (simp add: get_weights_def assert_def contains_key_def unwrap_def try_map_all_Ok)
qed

section \<open>A leader is elected\<close>

lemma health_of_window_Ok:
  assumes "countable_history (lr_epoch_to_proposers lr) factor history" "ordered_ends history"
  shows "\<exists>result'. health_of_window F lr candidates history r result w = Ok result' \<and>
    (result \<noteq> None \<or> lr_window_for_chain_health lr = w \<longrightarrow> result' \<noteq> None)"
proof -
  obtain votes where "count_votes_custom (lr_epoch_to_proposers lr) history w False = Ok votes"
    using count_votes_custom_Ok [OF assms(1), of False] assms(2) by blast
  moreover obtain proposals where "count_proposals_custom (lr_epoch_to_proposers lr) history w False = Ok proposals"
    using count_proposals_custom_Ok [OF assms(1), of False] assms(2) by blast
  ultimately show ?thesis by (simp add: health_of_window_def Let_def)
qed

lemma compute_chain_health_Ok:
  assumes "countable_history (lr_epoch_to_proposers lr) factor history" "ordered_ends history"
    and "map_of (lr_epoch_to_proposers lr) (lr_epoch lr) = Some candidates"
    and "lr_window_for_chain_health lr \<in> set CHAIN_HEALTH_WINDOW_SIZES"
  shows "\<exists>ratio. compute_chain_health F lr history r = Ok ratio"
proof -
  have "result \<noteq> None \<or> lr_window_for_chain_health lr \<in> set ws \<Longrightarrow>
      \<exists>x. try_fold (health_of_window F lr candidates history r) result ws = Ok (Some x)" for result ws
  proof (induction ws arbitrary: result)
    case (Cons w ws)
    from health_of_window_Ok [OF assms(1,2), of F candidates r result w] obtain result' where
      "health_of_window F lr candidates history r result w = Ok result'"
      "result \<noteq> None \<or> lr_window_for_chain_health lr = w \<longrightarrow> result' \<noteq> None" by blast
    with Cons show ?case by auto
  qed auto
  from this [of None, OF disjI2 [OF assms(4)]] show ?thesis
    using assms(3) by (auto simp: compute_chain_health_def unwrap_def)
qed

definition stake :: "u64 list \<Rightarrow> u64 list \<Rightarrow> nat \<Rightarrow> u128" where
  "stake voting_powers weights i = ucast (weights ! i) * ucast (voting_powers ! i)"

lemma unat_stake: "unat (stake voting_powers weights i) = unat (weights ! i) * unat (voting_powers ! i)"
proof -
  have "unat (weights ! i) * unat (voting_powers ! i) < 2 ^ 64 * 2 ^ 64"
    using unsigned_less [of "weights ! i", where ?'a = nat] unsigned_less [of "voting_powers ! i", where ?'a = nat]
    by (intro mult_strict_mono) simp_all
  moreover have "unat (ucast x :: u128) = unat x" for x :: u64
    using unsigned_less [of x, where ?'a = nat] by (simp add: unsigned_ucast_eq take_bit_nat_eq_self)
  ultimately show ?thesis by (simp add: stake_def unat_word_ariths)
qed

lemma stake_weights_Ok:
  assumes "length voting_powers = length weights"
  shows "stake_weights voting_powers weights = Ok (map (stake voting_powers weights) [0..<length weights])"
proof -
  have fits: "checked_mul (ucast (weights ! i)) (ucast (voting_powers ! i)) = Some (stake voting_powers weights i)" for i
  proof -
    have "unat (ucast x :: u128) = unat x" for x :: u64
      using unsigned_less [of x, where ?'a = nat] by (simp add: unsigned_ucast_eq take_bit_nat_eq_self)
    then show ?thesis
      using unat_stake [of voting_powers weights i] unsigned_less [of "stake voting_powers weights i", where ?'a = nat]
      by (simp add: checked_mul_def stake_def)
  qed
  have "try_map (\<lambda>(i, w). bind (unwrap (nth_opt voting_powers i)) (\<lambda>vp. unwrap (checked_mul (ucast w) (ucast vp))))
      (enumerate 0 weights) = Ok (map (\<lambda>(i, w). stake voting_powers weights i) (enumerate 0 weights))"
    using assms fits by (intro try_map_all_Ok) (auto simp: in_set_enumerate_eq nth_opt_def unwrap_def)
  moreover have "map (\<lambda>(i, w). stake voting_powers weights i) (enumerate 0 weights) =
      map (stake voting_powers weights) [0..<length weights]"
    by (rule nth_equalityI) (simp_all add: nth_enumerate_eq)
  ultimately show ?thesis by (simp add: stake_weights_def)
qed

lemma stake_sum:
  assumes "length voting_powers = length weights" "\<forall>w \<in> set weights. 0 < w"
    and "0 < sum_list (map unat voting_powers)" "sum_list (map unat voting_powers) < 2 ^ 64"
  shows "0 < sum_list (map unat (map (stake voting_powers weights) [0..<length weights]))"
    and "sum_list (map unat (map (stake voting_powers weights) [0..<length weights])) < 2 ^ 128"
proof -
  let ?s = "\<Sum>i < length weights. unat (weights ! i) * unat (voting_powers ! i)"
  have sum: "sum_list (map unat (map (stake voting_powers weights) [0..<length weights])) = ?s"
    by (simp add: comp_def unat_stake sum_list_sum_nth atLeast0LessThan)
  have powers: "sum_list (map unat voting_powers) = (\<Sum>i < length weights. unat (voting_powers ! i))"
    using assms(1) by (simp add: sum_list_sum_nth atLeast0LessThan)
  have "1 \<le> unat (weights ! i)" if "i < length weights" for i
    using assms(2) that by (metis One_nat_def Suc_leI nth_mem unat_gt_0 word_neq_0_conv)
  then have "(\<Sum>i < length weights. unat (voting_powers ! i)) \<le> ?s"
    by (intro sum_mono) simp
  with assms(3) show "0 < sum_list (map unat (map (stake voting_powers weights) [0..<length weights]))"
    unfolding sum powers by linarith
  have "?s \<le> (\<Sum>i < length weights. 2 ^ 64 * unat (voting_powers ! i))"
  proof (intro sum_mono mult_le_mono1)
    show "unat (weights ! i) \<le> 2 ^ 64" for i
      using unsigned_less [of "weights ! i", where ?'a = nat] by simp
  qed
  also have "\<dots> = 2 ^ 64 * sum_list (map unat voting_powers)" unfolding powers by (rule sum_distrib_left [symmetric])
  also have "\<dots> < 2 ^ 64 * 2 ^ 64" using assms(4) by simp
  finally show "sum_list (map unat (map (stake voting_powers weights) [0..<length weights])) < 2 ^ 128"
    unfolding sum by simp
qed

definition positive_weights :: "proposer_and_voter_heuristic \<Rightarrow> bool" where
  "positive_weights h \<longleftrightarrow> 0 < pvh_active_weight h \<and> 0 < pvh_inactive_weight h \<and> 0 < pvh_failed_weight h"

lemma elect_from_window_Ok:
  assumes "map_of (lr_epoch_to_proposers lr) (lr_epoch lr) = Some proposers"
    and "length proposers = length (lr_voting_powers lr)"
    and "lr_window_for_chain_health lr \<in> set CHAIN_HEALTH_WINDOW_SIZES" "positive_weights (lr_heuristic lr)"
    and "0 < sum_list (map unat (lr_voting_powers lr))" "sum_list (map unat (lr_voting_powers lr)) < 2 ^ 64"
    and "countable_history (lr_epoch_to_proposers lr) (unat (pvh_failure_threshold_percent (lr_heuristic lr))) history"
    and "ordered_ends history"
  defines "weights \<equiv> map (reference_weight (lr_heuristic lr) (lr_epoch_to_proposers lr) history) proposers"
  shows "\<exists>i ratio. i < length proposers \<and> elect_from_window SHA F lr r (history, root_hash) = Ok (proposers ! i, ratio) \<and>
    choose_index SHA (map (stake (lr_voting_powers lr) weights) [0..<length proposers]) (election_state lr root_hash r)
      = (Ok i :: (unit, _) res) \<and> 0 < lr_voting_powers lr ! i"
proof -
  let ?stakes = "map (stake (lr_voting_powers lr) weights) [0..<length proposers]"
  have len: "length weights = length proposers" by (simp add: weights_def)
  have pos: "\<forall>w \<in> set weights. 0 < w"
    using assms(4) by (auto simp: weights_def reference_weight_def positive_weights_def Let_def)
  note sums = stake_sum [OF _ pos assms(5,6), unfolded len, OF assms(2) [symmetric]]
  from choose_index_Ok [OF sums, of SHA "election_state lr root_hash r", where ?'e = unit] obtain i where
    i: "i < length proposers" "choose_index SHA ?stakes (election_state lr root_hash r) = (Ok i :: (unit, _) res)"
    "prefix_weight ?stakes i < prefix_weight ?stakes (Suc i)" by auto
  then have "0 < unat (stake (lr_voting_powers lr) weights i)" by (simp add: prefix_weight_Suc)
  then have "0 < lr_voting_powers lr ! i" by (simp add: unat_stake unat_gt_0 word_gt_0)
  moreover obtain ratio where "compute_chain_health F lr history r = Ok ratio"
    using compute_chain_health_Ok [OF assms(7,8,1,3), of F r] by (elim exE)
  moreover have "get_weights (lr_heuristic lr) (lr_epoch lr) (lr_epoch_to_proposers lr) history = Ok weights"
    unfolding weights_def using get_weights_Ok [OF assms(1,7)] assms(8) by blast
  moreover have "stake_weights (lr_voting_powers lr) weights = Ok ?stakes"
    using stake_weights_Ok [of "lr_voting_powers lr" weights] len assms(2) by simp
  ultimately have "elect_from_window SHA F lr r (history, root_hash) = Ok (proposers ! i, ratio)"
    using i(1,2) len assms(1) by (simp add: elect_from_window_def assert_def unwrap_def nth_opt_def)
  with i(1,2) \<open>0 < lr_voting_powers lr ! i\<close> show ?thesis by blast
qed

text \<open>The election by reputation keeps the contract of elections.\<close>

definition epoch_candidates :: "leader_reputation \<Rightarrow> author set" where
  "epoch_candidates lr =
     (case map_of (lr_epoch_to_proposers lr) (lr_epoch lr) of None \<Rightarrow> {} | Some proposers \<Rightarrow> set proposers)"

lemma elect_from_window_candidate:
  "elect_from_window SHA F lr r metadata = Ok (a, ratio) \<Longrightarrow> a \<in> epoch_candidates lr"
  by (auto simp: elect_from_window_def epoch_candidates_def res_simps split: prod.splits)

lemma lr_get_valid_proposer_eq:
  "fst (lr_get_valid_proposer D decode SHA F lr r b) =
   bind (fst (get_block_metadata D decode (lr_epoch lr) (saturating_sub r (lr_exclude_round lr)) b)) (\<lambda>metadata.
     bind (elect_from_window SHA F lr r metadata) (\<lambda>(proposer, _). Ok proposer))"
  by (auto simp: lr_get_valid_proposer_def lr_get_valid_proposer_and_ratio_def m_bind_def m_lift_def m_return_def
      split: prod.splits res.splits)

interpretation rep: election "\<lambda>r. fst (lr_get_valid_proposer D decode SHA F lr r b)" "epoch_candidates lr"
  for D decode SHA F lr b
  by unfold_locales (auto simp: lr_get_valid_proposer_eq bind_Ok dest: elect_from_window_candidate)

lemma elect_from_window_author:
  "elect_from_window SHA F (lr\<lparr>lr_heuristic := (lr_heuristic lr)\<lparr>pvh_author := other\<rparr>\<rparr>) r metadata =
     elect_from_window SHA F lr r metadata"
proof -
  have "health_of_window F (lr\<lparr>lr_heuristic := h\<rparr>) = health_of_window F lr" for h
    by (intro ext) (simp add: health_of_window_def Let_def cong: if_cong)
  then have "compute_chain_health F (lr\<lparr>lr_heuristic := h\<rparr>) = compute_chain_health F lr" for h
    by (intro ext) (simp add: compute_chain_health_def)
  moreover have "candidate_weight ((lr_heuristic lr)\<lparr>pvh_author := other\<rparr>) = candidate_weight (lr_heuristic lr)"
    by (intro ext) (simp add: candidate_weight_def cong: if_cong)
  then have "get_weights ((lr_heuristic lr)\<lparr>pvh_author := other\<rparr>) = get_weights (lr_heuristic lr)"
    by (intro ext) (simp add: get_weights_def)
  ultimately show ?thesis 
    by (simp add: elect_from_window_def election_state_def cong: if_cong)
qed

lemma foldl_max_mem:
  assumes "xs \<noteq> []"
  shows "foldl max (0 :: u64) xs \<in> set xs"
proof -
  have "foldl max v ys \<in> insert v (set ys)" for v :: u64 and ys
    by (induction ys arbitrary: v) (auto simp: max_def split: if_splits)
  moreover obtain y ys where "xs = y # ys" using assms by (cases xs) auto
  moreover have "max 0 y = y" by (simp add: max_def)
  ultimately show ?thesis by simp
qed

lemma get_from_db_result_roots:
  assumes "db_window_size b = db_window_size b'"
    and "\<forall>e \<in> set E. until (te, tr) e \<longrightarrow>
      get_accumulator_root_hash D (vne_version e) = get_accumulator_root_hash D' (vne_version e)"
  shows "get_from_db_result D te tr E b = get_from_db_result D' te tr E b'"
proof -
  let ?w = "window_until (db_window_size b') (te, tr) E"
  have "get_accumulator_root_hash D (foldl max 0 (map vne_version ?w)) =
      get_accumulator_root_hash D' (foldl max 0 (map vne_version ?w))" if "?w \<noteq> []"
  proof -
    have "foldl max 0 (map vne_version ?w) \<in> set (map vne_version ?w)" using that by (intro foldl_max_mem) simp
    then show ?thesis using assms(2) by (auto simp: window_until_def dest!: in_set_takeD)
  qed
  then show ?thesis using assms(1) by (simp add: get_from_db_result_def collect_window_eq)
qed

section \<open>Past epochs\<close>

definition epoch_entry :: "epoch_state \<times> u64 \<Rightarrow> u64 \<times> author list" where
  "epoch_entry e = (es_epoch (fst e), get_ordered_account_addresses (es_verifier (fst e)))"

definition rounds_of :: "(epoch_state \<times> u64) list \<Rightarrow> nat" where
  "rounds_of es = sum_list (map (unat \<circ> snd) es)"

lemma extract_loop_Ok:
  assumes "extract_loop epoch proposers needed is_last num result es = Ok result'"
  shows "\<exists>k \<le> length es.
    result' = foldl (\<lambda>m (k, v). btree_insert k v m) result (map epoch_entry (take k es)) \<and>
    (es \<noteq> [] \<longrightarrow> 0 < k) \<and> (k = length es \<or> unat needed < unat num + rounds_of (take (k - 1) es)) \<and>
    (es \<noteq> [] \<and> is_last \<longrightarrow> epoch_entry (hd es) = (epoch, proposers))"
  using assms
proof (induction es arbitrary: is_last num result)
  case (Cons e es)
  obtain st rounds where e: "e = (st, rounds)" by fastforce
  let ?m = "btree_insert (fst (epoch_entry e)) (snd (epoch_entry e)) result"
  have first: "is_last \<longrightarrow> epoch_entry e = (epoch, proposers)"
    using Cons.prems by (auto simp: e Let_def bind_Ok ensure_iffs epoch_entry_def)
  show ?case
  proof (cases "num > needed")
    case True
    then have "result' = ?m" using Cons.prems by (auto simp: e Let_def bind_Ok epoch_entry_def)
    then show ?thesis
      using first True by (intro exI [of _ 1]) (auto simp: word_less_nat_alt rounds_of_def epoch_entry_def)
  next
    case False
    then obtain num' where num': "checked_add num rounds = Some num'"
      "extract_loop epoch proposers needed False num' ?m es = Ok result'"
      using Cons.prems by (auto simp: e Let_def bind_Ok unwrap_iffs epoch_entry_def)
    from Cons.IH [OF num'(2)] obtain k where k: "k \<le> length es"
      "result' = foldl (\<lambda>m (k, v). btree_insert k v m) ?m (map epoch_entry (take k es))" "es \<noteq> [] \<longrightarrow> 0 < k"
      "k = length es \<or> unat needed < unat num' + rounds_of (take (k - 1) es)" by blast
    have "rounds_of (take k (e # es)) = unat rounds + rounds_of (take (k - 1) es)" if "0 < k"
      using that by (cases k) (simp_all add: rounds_of_def e)
    then have "Suc k = length (e # es) \<or> unat needed < unat num + rounds_of (take (Suc k - 1) (e # es))"
      using k(3,4) unat_checked_add [OF num'(1)] by fastforce
    then show ?thesis
      using k(1,2) first by (intro exI [of _ "Suc k"]) (auto simp: case_prod_unfold)
  qed
qed simp

section \<open>Properties\<close>

definition sample_event :: "u64 \<Rightarrow> new_block_event" where
  "sample_event n = \<lparr>nbe_hash = 0, nbe_epoch = 1, nbe_round = n, nbe_height = n,
     nbe_previous_block_votes_bitvec = [192], nbe_proposer = 1,
     nbe_failed_proposer_indices = (if n = 3 then [1] else []), nbe_timestamp = n\<rparr>"

definition sample_decoder :: "u8 list \<Rightarrow> new_block_event option" where
  "sample_decoder bytes = (case bytes of [n] \<Rightarrow> Some (sample_event (ucast n)) | _ \<Rightarrow> None)"

definition sample_history :: "versioned_new_block_event list" where
  "sample_history = map (\<lambda>n. \<lparr>vne_event = sample_event n, vne_version = n\<rparr>) [5, 4, 3, 2, 1]"

definition sample_db :: "nat \<Rightarrow> unit db_reader" where
  "sample_db k = \<lparr>get_latest_block_events = (\<lambda>n. Ok (take n (drop k
       (map (\<lambda>n. \<lparr>ewv_transaction_version = ucast n, ewv_event_data = [n]\<rparr>) [5, 4, 3, 2, 1])))),
     get_accumulator_root_hash = (\<lambda>v. Ok (ucast v)),
     get_latest_ledger_info_version = Ok (5 - of_nat k)\<rparr>"

definition sample_heuristic :: proposer_and_voter_heuristic where
  "sample_heuristic = \<lparr>pvh_author = 1, pvh_active_weight = 100, pvh_inactive_weight = 10, pvh_failed_weight = 1,
     pvh_failure_threshold_percent = 10,
     pvh_aggregation = \<lparr>nba_voter_window_size = 2, nba_proposer_window_size = 3,
       nba_reputation_window_from_stale_end = False\<rparr>\<rparr>"

definition sample_reputation :: leader_reputation where
  "sample_reputation = \<lparr>lr_epoch = 1, lr_epoch_to_proposers = [(1, [1, 2])], lr_voting_powers = [3, 4],
     lr_heuristic = sample_heuristic, lr_exclude_round = 2, lr_use_root_hash = True, lr_window_for_chain_health = 10\<rparr>"

definition sample_ratios :: "nat ratio_ops" where
  "sample_ratios = \<lparr>power_sum = (\<lambda>vs. sum_list (map unat vs)), at_least_one = (\<lambda>x. x \<ge> 1),
     power_ratio = (\<lambda>x y. x div y), ratio_one = 1\<rparr>"

text \<open>
  C18. Validators agree on the leader. Let two validators have committed the block that the election of a round looks back
  to, each having committed possibly more, but not more newer blocks than its seek length, with any earlier snapshot in
  its cache, and let their databases have the same accumulator roots at the events until that block. Then both compute
  the same leader, or both the same failure, whoever they are themselves.
\<close>

theorem leaders_agree:
  fixes D D' :: "'d db_reader" and F :: "'f ratio_ops"
  defines "target lr r \<equiv> (lr_epoch lr, saturating_sub r (lr_exclude_round lr))"
  assumes "newest_first E"
    and "backend_view decode D latest E k b" "backend_view decode D' latest' E k' b'"
    and "db_window_size b = db_window_size b'"
    and "has_larger (drop k E) (target lr r)" "has_larger (drop k' E) (target lr r)"
    and "length (filter (\<lambda>e. \<not> until (target lr r) e) (drop k E)) \<le> db_seek_len b"
    and "length (filter (\<lambda>e. \<not> until (target lr r) e) (drop k' E)) \<le> db_seek_len b'"
    and "\<forall>e \<in> set E. until (target lr r) e \<longrightarrow>
      get_accumulator_root_hash D (vne_version e) = get_accumulator_root_hash D' (vne_version e)"
  shows "fst (lr_get_valid_proposer D decode SHA F lr r b) =
    fst (lr_get_valid_proposer D' decode SHA F (lr\<lparr>lr_heuristic := (lr_heuristic lr)\<lparr>pvh_author := other\<rparr>\<rparr>) r b')"
proof -
  let ?lr = "lr\<lparr>lr_heuristic := (lr_heuristic lr)\<lparr>pvh_author := other\<rparr>\<rparr>"
  have elect: "elect_from_window SHA F ?lr r metadata = elect_from_window SHA F lr r metadata" for metadata
    by (rule elect_from_window_author)
  have "get_from_db_result D (lr_epoch lr) (saturating_sub r (lr_exclude_round lr)) E b =
      (get_from_db_result D' (lr_epoch lr) (saturating_sub r (lr_exclude_round lr)) E b' :: (unit, _) res)"
    using assms(5,10) unfolding target_def by (rule get_from_db_result_roots)
  then show ?thesis
    using get_block_metadata_eq [OF assms(2,3) assms(6,8) [unfolded target_def]]
      get_block_metadata_eq [OF assms(2,4) assms(7,9) [unfolded target_def]]
    by (simp add: lr_get_valid_proposer_eq elect)
qed

lemma sample_view:
  assumes "k \<le> 4"
  shows "backend_view sample_decoder (sample_db k) (5 - of_nat k) sample_history k (db_backend_new 3 2)"
proof -
  have "list_all2 (\<lambda>e v. sample_decoder (ewv_event_data e) = Some (vne_event v) \<and> ewv_transaction_version e = vne_version v)
      (map (\<lambda>n. \<lparr>ewv_transaction_version = ucast n, ewv_event_data = [n]\<rparr>) [5, 4, 3, 2, 1]) sample_history"
    by (simp add: sample_history_def sample_decoder_def)
  then have "serves sample_decoder (sample_db k) (drop k sample_history)"
    by (auto simp: serves_def sample_db_def intro!: list_all2_takeI list_all2_dropI)
  then show ?thesis by (simp add: backend_view_def db_backend_new_def sample_db_def)
qed

lemma sample_newest_first: "newest_first sample_history"
  by (simp add: newest_first_def sample_history_def position_le_def event_position_def sample_event_def word_le_nat_alt)

theorem leaders_agree_witness:
  "fst (lr_get_valid_proposer (sample_db 0) sample_decoder (\<lambda>_. 7) sample_ratios sample_reputation 6 (db_backend_new 3 2)) =
   fst (lr_get_valid_proposer (sample_db 1) sample_decoder (\<lambda>_. 7) sample_ratios
     (sample_reputation\<lparr>lr_heuristic := (lr_heuristic sample_reputation)\<lparr>pvh_author := 2\<rparr>\<rparr>) 6 (db_backend_new 3 2))"
  by (rule leaders_agree [OF sample_newest_first sample_view [of 0] sample_view [of 1]])
    (simp_all add: sample_history_def sample_reputation_def has_larger_def until_def position_le_def event_position_def
      sample_event_def saturating_sub_def db_backend_new_def sample_db_def word_le_nat_alt)

text \<open>
  C20. The weights are the documented ones: for a history that the 32-bit counts can hold, the weight of every candidate is
  the failed weight when its failure rate in the proposer window is above the threshold, otherwise the inactive weight
  when it neither proposed nor voted in the windows, otherwise the active weight, with the counts taken
  over the events of the windows in epochs whose validators are known; no intermediate product overflows.
\<close>

theorem reputation_weights_documented:
  assumes "map_of etc epoch = Some candidates"
    and "countable_history etc (unat (pvh_failure_threshold_percent h)) history"
    and "nba_reputation_window_from_stale_end (pvh_aggregation h) \<or> ordered_ends history"
  shows "get_weights h epoch etc history = Ok (map (reference_weight h etc history) candidates)"
  by (rule get_weights_Ok [OF assms])

lemma sample_countable:
  "countable_history [(1, [1, 2])] (unat (pvh_failure_threshold_percent sample_heuristic)) (map vne_event sample_history)"
  "countable_history [(1, [1, 2])] (unat (pvh_failure_threshold_percent sample_heuristic)) (map sample_event [4, 3, 2])"
proof -
  have records: "records [(1, [1, 2])] (map vne_event sample_history) = 16"
    "records [(1, [1, 2])] (map sample_event [4, 3, 2]) = 10" by code_simp+
  have bits: "list_all (\<lambda>m. length (nbe_previous_block_votes_bitvec m) \<le> MAX_BUCKETS) (map vne_event sample_history)"
    "list_all (\<lambda>m. length (nbe_previous_block_votes_bitvec m) \<le> MAX_BUCKETS) (map sample_event [4, 3, 2])"
    by (simp_all add: sample_history_def sample_event_def MAX_BUCKETS_def)
  show "countable_history [(1, [1, 2])] (unat (pvh_failure_threshold_percent sample_heuristic)) (map vne_event sample_history)"
    "countable_history [(1, [1, 2])] (unat (pvh_failure_threshold_percent sample_heuristic)) (map sample_event [4, 3, 2])"
    unfolding countable_history_def records using bits by (simp_all add: sample_heuristic_def)
qed

lemma sample_ordered: "ordered_ends (map vne_event sample_history)"
  by code_simp

theorem reputation_weights_documented_witness:
  "get_weights sample_heuristic 1 [(1, [1, 2])] (map vne_event sample_history) =
     Ok (map (reference_weight sample_heuristic [(1, [1, 2])] (map vne_event sample_history)) [1, 2]) \<and>
   map (reference_weight sample_heuristic [(1, [1, 2])] (map vne_event sample_history)) [1, 2] = [100, 1]"
proof -
  have "map (reference_weight sample_heuristic [(1, [1, 2])] (map vne_event sample_history)) [1, 2] = [100, 1]"
    by code_simp
  then show ?thesis
    using sample_countable(1) reputation_weights_documented [of "[(1, [1, 2])]" 1 "[1, 2]" sample_heuristic "map vne_event sample_history"]
      sample_ordered by simp
qed



text \<open>
  The candidates of past epochs that an election gets are right and enough: the extraction returns the validator
  lists of the latest epochs, with the current proposers for the current epoch; it leaves out older epochs only when
  the rounds of the epochs between exceed the rounds that are needed.
\<close>

theorem epoch_to_proposers_cover:
  assumes "extract_epoch_to_proposers_impl states epoch proposers needed_rounds = Ok result"
    and "distinct (map (es_epoch \<circ> fst) states)"
  shows "map_of result epoch = Some proposers \<and>
    (\<exists>k. 0 < k \<and> k \<le> length states \<and> set result = epoch_entry ` set (take k (rev states)) \<and>
      (k = length states \<or> unat needed_rounds < rounds_of (take (k - 1) (rev states))))"
proof -
  from assms(1) have ne: "states \<noteq> []"
    and run: "extract_loop epoch proposers needed_rounds True 0 [] (rev states) = Ok result"
    by (auto simp: extract_epoch_to_proposers_impl_def res_simps)
  from extract_loop_Ok [OF run] ne obtain k where k: "k \<le> length states" "0 < k"
    "result = btree_collect (map epoch_entry (take k (rev states)))"
    "k = length states \<or> unat needed_rounds < rounds_of (take (k - 1) (rev states))"
    "epoch_entry (hd (rev states)) = (epoch, proposers)"
    by (auto simp: btree_collect_def)
  have "map fst (map epoch_entry (take k (rev states))) = take k (rev (map (es_epoch \<circ> fst) states))"
    by (simp add: epoch_entry_def comp_def take_map rev_map)
  then have "distinct (map fst (map epoch_entry (take k (rev states))))"
    using assms(2) by (metis distinct_rev distinct_take)
  then have set: "set result = epoch_entry ` set (take k (rev states))"
    unfolding k(3) by (simp add: set_btree_collect_distinct)
  have "hd es \<in> set (take k es)" if "es \<noteq> []" for es :: "(epoch_state \<times> u64) list"
    using k(2) that by (cases es; cases k) simp_all
  then have "hd (rev states) \<in> set (take k (rev states))" using ne by (metis rev_is_Nil_conv)
  then have "(epoch, proposers) \<in> set result" unfolding set k(5) [symmetric] by (rule imageI)
  then have "map_of result epoch = Some proposers"
    using wf_btree_map_of [OF wf_btree_collect [of "map epoch_entry (take k (rev states))"]] unfolding k(3) by blast
  then show ?thesis using k(1,2,4) set by (intro conjI exI [of _ k]) simp_all
qed

theorem epoch_to_proposers_cover_witness:
  "let states = map (\<lambda>(e, n). (\<lparr>es_epoch = e, es_verifier = sample_verifier\<rparr>, n)) [(5, 9), (6, 8), (7, 5)] in
   case extract_epoch_to_proposers_impl states 7 [1, 2, 3, 4] 4 of
     Ok result \<Rightarrow> map_of result 7 = Some [1, 2, 3, 4] \<and> length result = 2
   | _ \<Rightarrow> False"
proof -
  let ?states = "map (\<lambda>(e, n). (\<lparr>es_epoch = e, es_verifier = sample_verifier\<rparr>, n)) [(5, 9), (6, 8), (7, 5)]"
  have run: "extract_epoch_to_proposers_impl ?states 7 [1, 2, 3, 4] 4 = Ok [(6, [1, 2, 3, 4]), (7, [1, 2, 3, 4])]"
    by code_simp
  have "distinct (map (es_epoch \<circ> fst) ?states)" by simp
  with epoch_to_proposers_cover [OF run] run show ?thesis by simp
qed

end
