(* ===== verification/Spec2Isabelle.thy ===== *)
theory Spec2Isabelle
  imports Bit_Vec Agreement Pending_Votes Block_Tree Round_State Leader_Reputation
begin

text \<open>
  Verification of the consensus core of the CreditChain node: the types that validators exchange and
  check, the safety rules that decide what a validator signs, the agreement of the validators, and the parts of
  a validator that drive a round: collecting votes, the tree of blocks, the state of the round and the election
  of its leader.

  \<^bold>\<open>The program.\<close> Validators run a two-chain BFT protocol with order votes. A leader proposes a block
  with a quorum certificate for its parent; a validator checks it and asks its safety rules for a vote;
  votes are aggregated into a quorum certificate; validators send order votes for a certified block, and
  commit votes for its execution result; when a round fails they sign timeouts, which are aggregated
  into a timeout certificate, and either certificate starts the next round with the next leader. An epoch ends with a ledger info that names the next validator set, which
  clients and restarted validators follow with proofs of epoch changes.

  \<^bold>\<open>The theories\<close>, in the order of their imports:

  \<^item> \<^verbatim>\<open>Prelude\<close>: machine integers with checked arithmetic (the workspace is compiled with overflow
    checks, so an overflow panics), the outcomes \<open>Ok\<close>, \<open>Err\<close> and \<open>Panic\<close>, methods that pass their
    state, ordered maps.
  \<^item> \<^verbatim>\<open>Bit_Vec\<close>: the mask of signers, \<^verbatim>\<open>crates/creditchain-bitvec\<close>. Its locale \<open>signer_mask\<close> is what
    the certificates use of it.
  \<^item> \<^verbatim>\<open>Validator_Verifier\<close>: the weighted validator set and aggregate signatures,
    \<^verbatim>\<open>types/src/validator_verifier.rs\<close> and \<^verbatim>\<open>aggregate_signature.rs\<close>. Two quorums share a correct
    validator; the locale \<open>quorum_system\<close> exports this.
  \<^item> \<^verbatim>\<open>Ledger_Types\<close>: block infos, ledger infos, epoch states and the conversion of the on-chain
    validator set, of \<^verbatim>\<open>types/src\<close>.
  \<^item> \<^verbatim>\<open>Signature_Aggregator\<close>: signature shares that are verified optimistically.
  \<^item> \<^verbatim>\<open>Quorum_Certs\<close>: quorum certificates, timeouts and timeout certificates, of
    \<^verbatim>\<open>consensus/consensus-types/src\<close>.
  \<^item> \<^verbatim>\<open>Payload\<close>: batches, proofs of store and block payloads.
  \<^item> \<^verbatim>\<open>Accumulator\<close>: the in-memory Merkle accumulator, \<^verbatim>\<open>types/src/proof/accumulator\<close>, against a
    recursive Merkle tree.
  \<^item> \<^verbatim>\<open>Blocks\<close>: block data, blocks, their checks, block metadata and block retrieval.
  \<^item> \<^verbatim>\<open>Votes\<close>: votes, order votes, round timeouts, sync infos and the messages that carry them.
  \<^item> \<^verbatim>\<open>Epoch_Change\<close>: waypoints, proofs of epoch changes and trusted states, of \<^verbatim>\<open>types/src\<close>.
  \<^item> \<^verbatim>\<open>Safety_Storage\<close>: the persistent storage of the safety rules over a key-value store that can fail.
    The locale \<open>safety_store\<close> states the contract of a durable cell behind a cache; it is interpreted on
    the storage and, in the next theory, on the safety rules that contain it.
  \<^item> \<^verbatim>\<open>Safety_Rules\<close>: the handlers of \<^verbatim>\<open>consensus/safety-rules/src/safety_rules.rs\<close> and
    \<^verbatim>\<open>safety_rules_2chain.rs\<close>, with the dispatch of \<^verbatim>\<open>serializer.rs\<close>.
  \<^item> \<^verbatim>\<open>Two_Chain\<close>: the abstract specification of the protocol over any quorum system, and that what it
    commits is one chain.
  \<^item> \<^verbatim>\<open>Agreement\<close>: a network of validators that run the safety rules, its refinement of the
    specification, and agreement on committed blocks.
  \<^item> \<^verbatim>\<open>Pending_Votes\<close>: how votes, order votes and round timeouts become certificates,
    \<^verbatim>\<open>consensus/src/pending_votes.rs\<close> and \<^verbatim>\<open>pending_order_votes.rs\<close>, over the aggregator above.
  \<^item> \<^verbatim>\<open>Block_Tree\<close>: the tree of blocks between the window root and the highest certified block,
    \<^verbatim>\<open>consensus/src/block_storage/block_tree.rs\<close>, with its pruning, and the buffer of early blocks of
    \<^verbatim>\<open>pending_blocks.rs\<close>.
  \<^item> \<^verbatim>\<open>Round_State\<close>: rounds, deadlines and the votes of the current round, \<^verbatim>\<open>consensus/src/liveness/round_state.rs\<close>.
  \<^item> \<^verbatim>\<open>Proposer_Election\<close>: the weighted choice, the fixed schedules, the wrapper that follows one proposal per
    round and the cache, of \<^verbatim>\<open>consensus/src/liveness\<close>. The locale \<open>election\<close> is the contract of an election; it is
    interpreted on both schedules and on the next theory.
  \<^item> \<^verbatim>\<open>Leader_Reputation\<close>: the election by reputation, \<^verbatim>\<open>consensus/src/liveness/leader_reputation.rs\<close>.

  \<^bold>\<open>How the state corresponds.\<close> A struct is a record whose fields carry a prefix of its name; an enum is
  a datatype with the source's constructors, or with a prefix where two enums share a name. A method
  with \<^verbatim>\<open>&mut self\<close> returns the state on every outcome. Hash values and addresses are 256-bit words, read
  as big-endian numbers. A \<^verbatim>\<open>BTreeMap\<close> is its sorted list of entries; a \<^verbatim>\<open>HashMap\<close> whose iteration order can be
  observed is such a list with an arbitrary reordering as an argument. A duration is its number of nanoseconds. Error values carry the wrapped error
  or the values of the source's message instead of its text.

  \<^bold>\<open>Parameters.\<close> The functions of third-party crates are arguments: the BLS library (the record
  \<open>crypto\<close>), the hash functions at the types that are hashed (the records \<open>env\<close> and \<open>safety_env\<close>, the
  arguments \<open>H\<close> and \<open>HW\<close>), the hex crate, the BCS decoder of events, the wall clock, the power of floating-point numbers in the round
  interval and the ratio of voting powers (the records \<open>float_ops\<close> and \<open>ratio_ops\<close>), whether tracing is enabled. A
  trait object is an argument too: the database reader of the election by reputation is the record \<open>db_reader\<close>. Where a theorem needs
  a law of them it is a named premise: \<open>aggregation_complete\<close> (aggregates of valid shares verify),
  \<open>aggregate_lengths\<close>, \<open>sign_correct\<close>, \<open>hex_decodes\<close>, and in \<open>sound_setting\<close> the absence of hash collisions on
  the data of a run. A linear scheme, in which a signature is the product of key and digest, satisfies
  them and serves the witnesses.

  \<^bold>\<open>What is shown.\<close>
  \<^item> Agreement: with less than a third of the voting power faulty, ledger infos that quorums signed commit
    blocks of one chain, across restarts, storage failures, writes that fail after taking effect,
    initialisation and every order of requests. The proof goes through the specification: each step
    of the network is one of its steps.
  \<^item> The safety data on disk never regresses; a vote that is returned is on disk and follows the voting
    rules; initialisation ends in an epoch that a chain of epoch changes justifies.
  \<^item> Certificates: what a certificate that verifies proves, for quorum, timeout and order certificates,
    proofs of store, epoch change proofs and ratcheting; conversely, honest signatures, aggregated
    certificates and honest proposals are accepted.
  \<^item> Collecting: the collectors return only certificates that verify, at most one per round and a certificate as soon
    as a quorum of votes is there; the reason given for a timeout comes from a correct validator.
  \<^item> The block tree stays linked and rooted under every sequence of insertions and commits; pruning removes exactly
    what no longer descends from the new root, and the searches in the tree end.
  \<^item> Rounds only move forward, a round state returns at most one certificate per round, its handlers do not panic on
    rounds below the end of the range, and its timeouts are bounded.
  \<^item> Election: the choice is proportional to the weights; a replica follows one proposal per round; the weights by
    reputation are the documented ones, a validator of the epoch with positive stake is elected, and validators at
    different heights with different caches elect the same leader.
  \<^item> Data structures: the bit vector against sets, the accumulator against a Merkle tree, payload
    concatenation, block retrieval, the text form of waypoints.
  \<^item> Failures: panics that a peer can cause, a timeout certificate that its own aggregation breaks, checks
    that are not made, an unreadable storage configuration.

  \<^bold>\<open>Termination and bounds.\<close> No function needs fuel: the recursions are over lists, or have a termination proof
  (the loop of the accumulator's root hash, which shifts a position of 64 bits, decimal notation, binary
  search). The three loops that follow links in the block tree end only when the tree is well linked; they are
  partial functions with the value \<open>None\<close> for a loop that does not end, and it is proved that they return for the
  trees that the block store builds. Rounds, epochs and versions are 64-bit words; the arithmetic on them is checked
  where the source adds. The specification has unbounded rounds; its relation to the words is part of
  the refinement.

  \<^bold>\<open>Assumptions of the network.\<close> Only correct validators take steps; everything else is the adversary's.
  Signatures of correct validators are not forged, epoch change proofs lead to the epoch under
  consideration, and a timeout certificate is of this epoch, which the callers of the safety rules check
  and the safety rules do not. A commit vote is requested with the consensus data hash of the ordered
  ledger info, as its callers build it. The safety rules verify signatures (they are not configured to
  skip this).

  \<^bold>\<open>Not modelled.\<close> Of the asynchronous drivers (\<^verbatim>\<open>round_manager.rs\<close>, \<^verbatim>\<open>epoch_manager.rs\<close>, \<^verbatim>\<open>sync_manager.rs\<close>,
  the execution pipeline) only the handling of order votes and the targets of block retrieval; the rest, like the
  quorum store's network protocol, the DAG engine, consensus observer, randomness and DKG, are tasks over channels,
  timers and the network, whose interleavings the step relations of the modelled parts leave arbitrary. Storage,
  state sync, mempool, networking, the Move VM and executor, the API and the tools are outside the consensus
  core. Of the proof types only the accumulator and its extension proof are modelled. Logging, metrics, serialisation
  formats and fail points are left out throughout; debug assertions are not compiled into a release build.
\<close>

end
